(* ===== verification/Druta_Prelude.thy ===== *)
theory Druta_Prelude
  imports
    Main
    "HOL-Library.Word"
    "HOL-Library.Char_ord"
    "HOL-Library.List_Lexorder"
    "HOL-Library.While_Combinator"
begin

text \<open>
  Shared vocabulary of the development.

  \<^item> \<open>fault\<close>: the ways a C++ run can leave the language's guarantees or the process. A model
    operation that can reach one returns \<open>Inl\<close> of it; \<open>rbind\<close> sequences such operations.
  \<^item> \<open>size_t\<close> is \<open>64 word\<close>; \<open>to_int32\<close> is the conversion \<open>(int)\<close> from a size.
  \<^item> \<open>std::set\<close> is a sorted list without repetition, \<open>std::map\<close> an association list with sorted
    distinct keys, \<open>std::string\<close> order is the byte order that Char\_ord and List\_Lexorder give
    (\<open>char_traits<char>::lt\<close> compares as unsigned char).
  \<^item> The interface of an ordered set is the locale \<open>oset_ops\<close>; it is interpreted on the sorted
    lists that model \<open>std::set<std::string>\<close> and \<open>std::set<int>\<close>.
\<close>

named_theorems fault_simps "rewriting of sequenced operations that may fault"
named_theorems mem_simps "memory accounting equations"

section \<open>Faults and sequencing\<close>

datatype fault =
    Use_after_free
  | Bad_variant_access
  | Empty_container
  | Out_of_bounds
  | Signed_overflow
  | Uncaught_exception
  | Divergence

type_synonym 'a res = "fault + 'a"
type_synonym size_t = "64 word"
type_synonym addr = nat

definition rbind :: "'a res \<Rightarrow> ('a \<Rightarrow> 'b res) \<Rightarrow> 'b res" where
  "rbind r f = (case r of Inl e \<Rightarrow> Inl e | Inr x \<Rightarrow> f x)"

lemma rbind_simps [simp, fault_simps]:
  "rbind (Inl e) f = Inl e"
  "rbind (Inr x) f = f x"
  by (simp_all add: rbind_def)

lemma rbind_eq_Inr [simp]: "rbind r f = Inr y \<longleftrightarrow> (\<exists>x. r = Inr x \<and> f x = Inr y)"
  by (cases r) auto

lemma rbind_eq_Inl: "rbind r f = Inl e \<longleftrightarrow> r = Inl e \<or> (\<exists>x. r = Inr x \<and> f x = Inl e)"
  by (cases r) auto

lemma rbind_assoc: "rbind (rbind r f) g = rbind r (\<lambda>x. rbind (f x) g)"
  by (cases r) auto

lemma rbind_cong [fundef_cong]:
  "r = r' \<Longrightarrow> (\<And>x. r' = Inr x \<Longrightarrow> f x = g x) \<Longrightarrow> rbind r f = rbind r' g"
  by (cases r') auto

text \<open>A run that ends in a state satisfying a predicate or in one of the named faults.\<close>

definition guarded :: "fault set \<Rightarrow> ('a \<Rightarrow> bool) \<Rightarrow> 'a res \<Rightarrow> bool" where
  "guarded E P r = (case r of Inl e \<Rightarrow> e \<in> E | Inr x \<Rightarrow> P x)"

lemma guarded_simps [simp]:
  "guarded E P (Inl e) \<longleftrightarrow> e \<in> E"
  "guarded E P (Inr x) = P x"
  by (simp_all add: guarded_def)

lemma guarded_rbind: "guarded E (\<lambda>x. guarded E P (f x)) r \<Longrightarrow> guarded E P (rbind r f)"
  by (cases r) auto

section \<open>Sizes at machine width\<close>

definition to_int32 :: "nat \<Rightarrow> int" where
  "to_int32 n = sint (of_nat n :: 32 word)"

lemma to_int32_small: "n < 2 ^ 31 \<Longrightarrow> to_int32 n = int n"
proof -
  assume n: "n < 2 ^ 31"
  have "sint (of_nat n :: 32 word) = signed_take_bit 31 (int n)"
    by (simp add: signed_of_nat)
  also have "\<dots> = int n"
    using n by (intro signed_take_bit_int_eq_self) auto
  finally show ?thesis by (simp add: to_int32_def)
qed

lemma to_int32_range: "to_int32 n \<le> int n" "- (2 ^ 31) \<le> to_int32 n"
proof -
  have "to_int32 n = signed_take_bit 31 (int n)" by (simp add: to_int32_def signed_of_nat)
  then show "to_int32 n \<le> int n" "- (2 ^ 31) \<le> to_int32 n"
    using signed_take_bit_int_less_eq_self_iff [of 31 "int n"]
      signed_take_bit_int_greater_eq_minus_exp [of 31 "int n"] by simp_all
qed

lemma scast_small: "n < 2 ^ 31 \<Longrightarrow> (scast (of_nat n :: 32 word) :: size_t) = of_nat n"
proof -
  assume "n < 2 ^ 31"
  then have "sint (of_nat n :: 32 word) = int n" using to_int32_small [of n] by (simp add: to_int32_def)
  moreover have "(scast (of_nat n :: 32 word) :: size_t) = of_int (sint (of_nat n :: 32 word))" by simp
  ultimately show ?thesis by simp
qed

lemma unat_of_nat_size: "n < 2 ^ 64 \<Longrightarrow> unat (of_nat n :: size_t) = n"
  by (simp add: unat_of_nat take_bit_nat_eq_self_iff)

lemma of_nat_size_less_iff:
  "m < 2 ^ 64 \<Longrightarrow> n < 2 ^ 64 \<Longrightarrow> (of_nat m :: size_t) < of_nat n \<longleftrightarrow> m < n"
  by (simp add: word_less_nat_alt unat_of_nat_size)

lemma of_nat_size_le_iff:
  "m < 2 ^ 64 \<Longrightarrow> n < 2 ^ 64 \<Longrightarrow> (of_nat m :: size_t) \<le> of_nat n \<longleftrightarrow> m \<le> n"
  by (simp add: word_le_nat_alt unat_of_nat_size)

section \<open>Ordered sets\<close>

locale oset_ops =
  fixes ins :: "'a \<Rightarrow> 's \<Rightarrow> 's"
    and del :: "'a \<Rightarrow> 's \<Rightarrow> 's"
    and has :: "'a \<Rightarrow> 's \<Rightarrow> bool"
    and elems :: "'s \<Rightarrow> 'a list"
    and inv :: "'s \<Rightarrow> bool"
  assumes has_iff: "inv s \<Longrightarrow> has x s \<longleftrightarrow> x \<in> set (elems s)"
    and set_ins: "inv s \<Longrightarrow> set (elems (ins x s)) = insert x (set (elems s))"
    and set_del: "inv s \<Longrightarrow> set (elems (del x s)) = set (elems s) - {x}"
    and inv_ins: "inv s \<Longrightarrow> inv (ins x s)"
    and inv_del: "inv s \<Longrightarrow> inv (del x s)"
    and dist: "inv s \<Longrightarrow> distinct (elems s)"
begin

lemma inv_fold_ins: "inv s \<Longrightarrow> inv (fold ins xs s)"
  by (induction xs arbitrary: s) (auto intro: inv_ins)

lemma inv_fold_del: "inv s \<Longrightarrow> inv (fold del xs s)"
  by (induction xs arbitrary: s) (auto intro: inv_del)

lemma set_fold_ins: "inv s \<Longrightarrow> set (elems (fold ins xs s)) = set (elems s) \<union> set xs"
  by (induction xs arbitrary: s) (auto simp: set_ins inv_ins)

lemma set_fold_del: "inv s \<Longrightarrow> set (elems (fold del xs s)) = set (elems s) - set xs"
  by (induction xs arbitrary: s) (auto simp: set_del inv_del)

lemma length_elems: "inv s \<Longrightarrow> length (elems s) = card (set (elems s))"
  by (simp add: dist distinct_card)

end

definition set_insert :: "'a::linorder \<Rightarrow> 'a list \<Rightarrow> 'a list" where
  "set_insert x xs = insort_insert x xs"

definition set_erase :: "'a \<Rightarrow> 'a list \<Rightarrow> 'a list" where
  "set_erase x xs = remove1 x xs"

definition set_contains :: "'a \<Rightarrow> 'a list \<Rightarrow> bool" where
  "set_contains x xs = (x \<in> set xs)"

definition oset :: "'a::linorder list \<Rightarrow> bool" where
  "oset xs = (sorted xs \<and> distinct xs)"

lemma oset_Nil [simp]: "oset []"
  by (simp add: oset_def)

lemma set_set_insert [simp]: "set (set_insert x xs) = insert x (set xs)"
  by (simp add: set_insert_def set_insort_insert)

lemma oset_set_insert [simp]: "oset xs \<Longrightarrow> oset (set_insert x xs)"
  by (simp add: oset_def set_insert_def sorted_insort_insert distinct_insort_insert)

lemma set_set_erase [simp]: "oset xs \<Longrightarrow> set (set_erase x xs) = set xs - {x}"
  by (simp add: oset_def set_erase_def)

lemma oset_set_erase [simp]: "oset xs \<Longrightarrow> oset (set_erase x xs)"
  by (simp add: oset_def set_erase_def sorted_remove1)

lemma set_insert_present [simp]: "x \<in> set xs \<Longrightarrow> set_insert x xs = xs"
  by (simp add: set_insert_def insort_insert_triv)

lemma length_set_insert: "x \<notin> set xs \<Longrightarrow> length (set_insert x xs) = Suc (length xs)"
  by (simp add: set_insert_def insort_insert_insort)

lemma mset_set_insert: "x \<notin> set xs \<Longrightarrow> sum_list (map f (set_insert x xs)) = f x + sum_list (map f xs)"
  for f :: "'a::linorder \<Rightarrow> 'b::comm_monoid_add"
proof -
  have "sum_list (map f (insort x xs)) = f x + sum_list (map f xs)"
    by (induction xs) (auto simp: ac_simps)
  then show "x \<notin> set xs \<Longrightarrow> ?thesis"
    by (simp add: set_insert_def insort_insert_insort)
qed

lemma sum_set_erase: "x \<in> set xs \<Longrightarrow> f x + sum_list (map f (set_erase x xs)) = sum_list (map f xs)"
  for f :: "'a \<Rightarrow> 'b::comm_monoid_add"
  unfolding set_erase_def by (simp add: sum_list_map_remove1)

lemma set_insert_oset_unique:
  "oset xs \<Longrightarrow> oset ys \<Longrightarrow> set xs = set ys \<Longrightarrow> xs = ys"
  by (simp add: oset_def sorted_distinct_set_unique)

interpretation string_set: oset_ops
  "set_insert :: string \<Rightarrow> string list \<Rightarrow> string list" set_erase set_contains id oset
  by unfold_locales (auto simp: set_contains_def oset_def [symmetric], simp add: oset_def)

interpretation fd_set: oset_ops
  "set_insert :: int \<Rightarrow> int list \<Rightarrow> int list" set_erase set_contains id oset
  by unfold_locales (auto simp: set_contains_def oset_def [symmetric], simp add: oset_def)

end
