(* ===== verification/Cpp_String.thy ===== *)
theory Cpp_String
  imports Druta_Prelude
begin

text \<open>
  The parts of the C++ string library that the sources use: the capacity of a \<open>std::string\<close>
  object (libstdc++ of GCC 13, the compiler that CMakeLists.txt names: 15 bytes of local storage,
  copies allocate exactly, copy assignment keeps the buffer or grows it, move assignment swaps
  heap buffers and copies short strings), \<open>std::to_string\<close>, \<open>std::stoi\<close>, \<open>std::stoll\<close> and
  \<open>toupper\<close> of the C locale.
\<close>

section \<open>String objects and their capacity\<close>

datatype cstr = CStr (chars: string) (capacity: nat)

definition sso_capacity :: nat where
  "sso_capacity = 15"

definition copy_capacity :: "string \<Rightarrow> nat" where
  "copy_capacity s = max sso_capacity (length s)"

definition str_copy :: "string \<Rightarrow> cstr" where
  "str_copy s = CStr s (copy_capacity s)"

definition is_local :: "cstr \<Rightarrow> bool" where
  "is_local c = (capacity c \<le> sso_capacity)"

definition str_assign :: "cstr \<Rightarrow> string \<Rightarrow> cstr" where
  "str_assign d s =
     (if length s \<le> capacity d then CStr s (capacity d)
      else CStr s (if length s < 2 * capacity d then 2 * capacity d else length s))"

definition str_move_assign :: "cstr \<Rightarrow> cstr \<Rightarrow> cstr \<times> cstr" where
  "str_move_assign d s =
     (if is_local s then (CStr (chars s) (capacity d), CStr [] (capacity s))
      else (CStr (chars s) (capacity s),
            CStr [] (if is_local d then sso_capacity else capacity d)))"

definition cstr_ok :: "cstr \<Rightarrow> bool" where
  "cstr_ok c = (sso_capacity \<le> capacity c \<and> length (chars c) \<le> capacity c)"

lemma chars_str_ops [simp]:
  "chars (str_copy s) = s"
  "capacity (str_copy s) = copy_capacity s"
  "chars (str_assign d s) = s"
  "chars (fst (str_move_assign d e)) = chars e"
  by (simp_all add: str_copy_def str_assign_def str_move_assign_def)

lemma cstr_ok_copy [simp]: "cstr_ok (str_copy s)"
  by (simp add: cstr_ok_def str_copy_def copy_capacity_def)

lemma cstr_ok_assign [simp]: "cstr_ok d \<Longrightarrow> cstr_ok (str_assign d s)"
  by (auto simp: cstr_ok_def str_assign_def)

lemma capacity_assign_mono: "capacity d \<le> capacity (str_assign d s)"
  by (simp add: str_assign_def)

lemma capacity_assign_bound: "capacity (str_assign d s) \<le> max (capacity d) (2 * length s)"
  by (simp add: str_assign_def)

lemma copy_capacity_bound: "copy_capacity s \<le> length s + 15"
  by (simp add: copy_capacity_def sso_capacity_def)

lemma copy_capacity_ge [simp]: "length s \<le> copy_capacity s" "15 \<le> copy_capacity s"
  by (simp_all add: copy_capacity_def sso_capacity_def)

section \<open>Decimal numbers\<close>

definition digit_char :: "nat \<Rightarrow> char" where
  "digit_char d = char_of (48 + d)"

definition digit_val :: "char \<Rightarrow> nat" where
  "digit_val c = of_char c - 48"

definition is_digit :: "char \<Rightarrow> bool" where
  "is_digit c = (48 \<le> (of_char c :: nat) \<and> (of_char c :: nat) \<le> 57)"

definition is_space :: "char \<Rightarrow> bool" where
  "is_space c = ((of_char c :: nat) = 32 \<or> 9 \<le> (of_char c :: nat) \<and> (of_char c :: nat) \<le> 13)"

fun to_string :: "nat \<Rightarrow> string" where
  "to_string n = (if n < 10 then [digit_char n] else to_string (n div 10) @ [digit_char (n mod 10)])"

declare to_string.simps [simp del]

definition to_string_int :: "int \<Rightarrow> string" where
  "to_string_int i = (if i < 0 then CHR ''-'' # to_string (nat (- i)) else to_string (nat i))"

definition dec_value :: "string \<Rightarrow> nat" where
  "dec_value ds = foldl (\<lambda>n c. 10 * n + digit_val c) 0 ds"

definition strtol :: "string \<Rightarrow> int option" where
  "strtol s =
     (let s1 = dropWhile is_space s;
          neg = (s1 \<noteq> [] \<and> hd s1 = CHR ''-'');
          s2 = (if s1 \<noteq> [] \<and> (hd s1 = CHR ''-'' \<or> hd s1 = CHR ''+'') then tl s1 else s1);
          ds = takeWhile is_digit s2
      in if ds = [] then None
         else Some (if neg then - int (dec_value ds) else int (dec_value ds)))"

definition stoi :: "string \<Rightarrow> int option" where
  "stoi s = (case strtol s of None \<Rightarrow> None
             | Some v \<Rightarrow> if - (2 ^ 31) \<le> v \<and> v < 2 ^ 31 then Some v else None)"

definition stoll :: "string \<Rightarrow> int option" where
  "stoll s = (case strtol s of None \<Rightarrow> None
              | Some v \<Rightarrow> if - (2 ^ 63) \<le> v \<and> v < 2 ^ 63 then Some v else None)"

definition upper_char :: "char \<Rightarrow> char" where
  "upper_char c = (if 97 \<le> (of_char c :: nat) \<and> (of_char c :: nat) \<le> 122
                   then char_of ((of_char c :: nat) - 32) else c)"

definition toupper :: "string \<Rightarrow> string" where
  "toupper s = map upper_char s"

lemma of_char_digit [simp]: "d < 10 \<Longrightarrow> (of_char (digit_char d) :: nat) = 48 + d"
  by (simp add: digit_char_def)

lemma digit_char_props [simp]:
  assumes "d < 10"
  shows "is_digit (digit_char d)" "digit_val (digit_char d) = d" "\<not> is_space (digit_char d)"
  using assms by (simp_all add: is_digit_def digit_val_def is_space_def)

lemma digit_not_sign: "is_digit c \<Longrightarrow> c \<noteq> CHR ''-'' \<and> c \<noteq> CHR ''+'' \<and> c \<noteq> CHR 0x0A \<and> c \<noteq> CHR 0x0D \<and> c \<noteq> CHR ''$'' \<and> \<not> is_space c"
  by (auto simp: is_digit_def is_space_def)

lemma to_string_nonempty [simp]: "to_string n \<noteq> []"
  by (subst to_string.simps) simp

lemma to_string_digits: "c \<in> set (to_string n) \<Longrightarrow> is_digit c"
proof (induction n rule: to_string.induct)
  case (1 n)
  then show ?case
    by (subst (asm) (2) to_string.simps) (auto split: if_splits)
qed

lemma dec_value_snoc: "dec_value (ds @ [c]) = 10 * dec_value ds + digit_val c"
  by (simp add: dec_value_def)

lemma dec_value_to_string [simp]: "dec_value (to_string n) = n"
proof (induction n rule: to_string.induct)
  case (1 n)
  show ?case
  proof (cases "n < 10")
    case True
    then show ?thesis by (subst to_string.simps) (simp add: dec_value_def)
  next
    case False
    with 1 have "dec_value (to_string (n div 10)) = n div 10" by simp
    with False show ?thesis by (subst to_string.simps) (simp add: dec_value_snoc)
  qed
qed

lemma takeWhile_to_string [simp]: "takeWhile is_digit (to_string n) = to_string n"
  by (simp add: takeWhile_eq_all_conv to_string_digits)

lemma hd_to_string_digit [simp]: "is_digit (hd (to_string n))"
  using to_string_digits [of "hd (to_string n)" n] by simp

lemma dropWhile_to_string [simp]: "dropWhile is_space (to_string n) = to_string n"
  using digit_not_sign [OF hd_to_string_digit [of n]]
  by (cases "to_string n") auto

lemma strtol_to_string [simp]: "strtol (to_string n) = Some (int n)"
  using digit_not_sign [OF hd_to_string_digit [of n]] by (simp add: strtol_def Let_def)

lemma strtol_to_string_int: "strtol (to_string_int i) = Some i"
proof (cases "i < 0")
  case True
  have sp: "\<not> is_space (CHR ''-'')"
    by (simp add: is_space_def)
  from True show ?thesis
    by (simp add: to_string_int_def strtol_def sp Let_def)
next
  case False
  then show ?thesis by (simp add: to_string_int_def)
qed

lemma stoi_to_string: "n < 2 ^ 31 \<Longrightarrow> stoi (to_string n) = Some (int n)"
  by (simp add: stoi_def)

lemma stoll_to_string_int: "- (2 ^ 63) \<le> i \<Longrightarrow> i < 2 ^ 63 \<Longrightarrow> stoll (to_string_int i) = Some i"
  by (simp add: stoll_def strtol_to_string_int)

lemma stoi_range: "stoi s = Some v \<Longrightarrow> - (2 ^ 31) \<le> v \<and> v < 2 ^ 31"
  by (auto simp: stoi_def split: option.splits if_splits)

lemma stoll_range: "stoll s = Some v \<Longrightarrow> - (2 ^ 63) \<le> v \<and> v < 2 ^ 63"
  by (auto simp: stoll_def split: option.splits if_splits)

end
