(* ===== verification/Druta_Hash.thy ===== *)
theory Druta_Hash
  imports Cpp_String
begin

text \<open>
  The two-representation hash of drutahash.hpp and drutahash.cpp: a vector of field/value pairs up
  to \<open>DRUTA_MAX_KEY\<close> entries, a \<open>std::map\<close> above. The type tag and the variant are kept as two
  fields, as in the source; \<open>std::get\<close> on the wrong alternative is the fault
  \<open>Bad_variant_access\<close>, which \<open>hash_wf\<close> excludes. Stored strings carry their capacity, because
  \<open>memory_usage\<close> is computed from it. The client's view is the locale \<open>field_map\<close>.
\<close>

section \<open>Data\<close>

datatype HashType = MAP | VECTOR

type_synonym hentry = "cstr \<times> cstr"

datatype hash_data = HMap "hentry list" | HVec "hentry list"

record DrutaHash =
  htype :: HashType
  hdata :: hash_data
  hexpiry_time :: int
  hmemory_usage :: size_t

definition MAP_NODE_OVERHEAD :: nat where
  "MAP_NODE_OVERHEAD = 8 * 8"

definition STRING_OBJ_OVERHEAD :: nat where
  "STRING_OBJ_OVERHEAD = 32"

definition HASH_ENTRY_OVERHEAD_MAP :: nat where
  "HASH_ENTRY_OVERHEAD_MAP = STRING_OBJ_OVERHEAD * 2 + MAP_NODE_OVERHEAD"

definition HASH_ENTRY_OVERHEAD_VECTOR :: nat where
  "HASH_ENTRY_OVERHEAD_VECTOR = STRING_OBJ_OVERHEAD * 2"

definition DRUTA_MAX_KEY :: nat where
  "DRUTA_MAX_KEY = 64"

lemmas overhead_defs = MAP_NODE_OVERHEAD_def STRING_OBJ_OVERHEAD_def
  HASH_ENTRY_OVERHEAD_MAP_def HASH_ENTRY_OVERHEAD_VECTOR_def

definition entry_bytes :: "nat \<Rightarrow> hentry \<Rightarrow> nat" where
  "entry_bytes ov p = capacity (fst p) + capacity (snd p) + ov"

definition new_hash_map :: "hentry list \<Rightarrow> int \<Rightarrow> DrutaHash" where
  "new_hash_map h e = \<lparr>htype = MAP, hdata = HMap h, hexpiry_time = e,
     hmemory_usage = of_nat (sum_list (map (entry_bytes HASH_ENTRY_OVERHEAD_MAP) h))\<rparr>"

definition new_hash_vec :: "hentry list \<Rightarrow> int \<Rightarrow> DrutaHash" where
  "new_hash_vec v e = \<lparr>htype = VECTOR, hdata = HVec v, hexpiry_time = e,
     hmemory_usage = of_nat (sum_list (map (entry_bytes HASH_ENTRY_OVERHEAD_VECTOR) v))\<rparr>"

definition get_vec :: "DrutaHash \<Rightarrow> hentry list res" where
  "get_vec h = (case hdata h of HVec v \<Rightarrow> Inr v | _ \<Rightarrow> Inl Bad_variant_access)"

definition get_map :: "DrutaHash \<Rightarrow> hentry list res" where
  "get_map h = (case hdata h of HMap m \<Rightarrow> Inr m | _ \<Rightarrow> Inl Bad_variant_access)"

section \<open>Operations\<close>

definition find_entry :: "string \<Rightarrow> hentry list \<Rightarrow> hentry option" where
  "find_entry f es = find (\<lambda>p. chars (fst p) = f) es"

definition get_hash :: "DrutaHash \<Rightarrow> string \<Rightarrow> string option res" where
  "get_hash h field =
     (if htype h = VECTOR
      then rbind (get_vec h) (\<lambda>v. Inr (map_option (chars \<circ> snd) (find_entry field v)))
      else rbind (get_map h) (\<lambda>m. Inr (map_option (chars \<circ> snd) (find_entry field m))))"

fun vec_assign :: "string \<Rightarrow> string \<Rightarrow> hentry list \<Rightarrow> size_t \<Rightarrow> (hentry list \<times> size_t) option" where
  "vec_assign f val [] mem = None"
| "vec_assign f val (p # ps) mem =
     (if chars (fst p) = f
      then let q = str_assign (snd p) val
           in Some ((fst p, q) # ps, mem - of_nat (capacity (snd p)) + of_nat (capacity q))
      else map_option (\<lambda>(ps', mem'). (p # ps', mem')) (vec_assign f val ps mem))"

text \<open>\<open>m[k]\<close> of a \<open>std::map\<close>: the entry is created with an empty string if it is missing, and the
  reference is then updated by \<open>g\<close>.\<close>

fun map_index :: "string \<Rightarrow> (cstr \<Rightarrow> cstr) \<Rightarrow> hentry list \<Rightarrow> hentry list" where
  "map_index k g [] = [(str_copy k, g (CStr [] sso_capacity))]"
| "map_index k g (p # m) =
     (if chars (fst p) = k then (fst p, g (snd p)) # m
      else if k < chars (fst p) then (str_copy k, g (CStr [] sso_capacity)) # p # m
      else p # map_index k g m)"

definition convert_to_map :: "DrutaHash \<Rightarrow> DrutaHash res" where
  "convert_to_map h =
     (if htype h = MAP then Inr h
      else rbind (get_vec h) (\<lambda>vec.
        let m = fold (\<lambda>p. map_index (chars (fst p)) (\<lambda>d. fst (str_move_assign d (snd p)))) vec [];
            count = length m
        in Inr (h\<lparr>hdata := HMap m, htype := MAP,
                 hmemory_usage := hmemory_usage h + of_nat (count * MAP_NODE_OVERHEAD)\<rparr>)))"

definition set_hash :: "string \<Rightarrow> string \<Rightarrow> DrutaHash \<Rightarrow> (DrutaHash \<times> bool) res" where
  "set_hash field val h =
     (if htype h = VECTOR
      then rbind (get_vec h) (\<lambda>vec.
        case vec_assign field val vec (hmemory_usage h) of
          Some (vec', mem') \<Rightarrow> Inr (h\<lparr>hdata := HVec vec', hmemory_usage := mem'\<rparr>, False)
        | None \<Rightarrow>
            let vec' = vec @ [(str_copy field, str_copy val)];
                h' = h\<lparr>hdata := HVec vec',
                       hmemory_usage := hmemory_usage h + of_nat (copy_capacity field)
                         + of_nat (copy_capacity val) + of_nat HASH_ENTRY_OVERHEAD_VECTOR\<rparr>
            in if length vec' > DRUTA_MAX_KEY
               then rbind (convert_to_map h') (\<lambda>h''. Inr (h'', True))
               else Inr (h', True))
      else rbind (get_map h) (\<lambda>m.
        case find_entry field m of
          Some p \<Rightarrow>
            let q = str_assign (snd p) val
            in Inr (h\<lparr>hdata := HMap (map_index field (\<lambda>d. str_assign d val) m),
                      hmemory_usage := hmemory_usage h - of_nat (capacity (snd p))
                        + of_nat (capacity q)\<rparr>, False)
        | None \<Rightarrow>
            Inr (h\<lparr>hdata := HMap (map_index field (\<lambda>d. str_assign d val) m),
                   hmemory_usage := hmemory_usage h + of_nat (copy_capacity field)
                     + of_nat (copy_capacity val) + of_nat HASH_ENTRY_OVERHEAD_MAP\<rparr>, True)))"

text \<open>\<open>vec.erase(it)\<close> move-assigns every later pair one slot down and destroys the last slot. The
  slot \<open>d\<close> receives the strings of its successor; the successor keeps what the swap leaves.\<close>

definition pair_move_assign :: "hentry \<Rightarrow> hentry \<Rightarrow> hentry \<times> hentry" where
  "pair_move_assign d s =
     (let a = str_move_assign (fst d) (fst s); b = str_move_assign (snd d) (snd s)
      in ((fst a, fst b), (snd a, snd b)))"

fun vec_shift :: "hentry \<Rightarrow> hentry list \<Rightarrow> hentry list" where
  "vec_shift d [] = []"
| "vec_shift d (s # ss) = (case pair_move_assign d s of (d', s') \<Rightarrow> d' # vec_shift s' ss)"

fun vec_erase :: "string \<Rightarrow> hentry list \<Rightarrow> (hentry \<times> hentry list) option" where
  "vec_erase f [] = None"
| "vec_erase f (p # ps) =
     (if chars (fst p) = f then Some (p, vec_shift p ps)
      else map_option (\<lambda>(q, qs). (q, p # qs)) (vec_erase f ps))"

definition map_erase :: "string \<Rightarrow> hentry list \<Rightarrow> hentry list" where
  "map_erase f m = filter (\<lambda>p. chars (fst p) \<noteq> f) m"

definition del_hash :: "string \<Rightarrow> DrutaHash \<Rightarrow> (DrutaHash \<times> bool) res" where
  "del_hash field h =
     (if htype h = VECTOR
      then rbind (get_vec h) (\<lambda>vec.
        case vec_erase field vec of
          Some (p, vec') \<Rightarrow>
            Inr (h\<lparr>hdata := HVec vec',
                   hmemory_usage := hmemory_usage h - of_nat (entry_bytes HASH_ENTRY_OVERHEAD_VECTOR p)\<rparr>,
                 True)
        | None \<Rightarrow> Inr (h, False))
      else rbind (get_map h) (\<lambda>m.
        case find_entry field m of
          Some p \<Rightarrow>
            Inr (h\<lparr>hdata := HMap (map_erase field m),
                   hmemory_usage := hmemory_usage h - of_nat (entry_bytes HASH_ENTRY_OVERHEAD_MAP p)\<rparr>,
                 True)
        | None \<Rightarrow> Inr (h, False)))"

definition hash_size :: "DrutaHash \<Rightarrow> nat res" where
  "hash_size h = (if htype h = VECTOR then rbind (get_vec h) (\<lambda>v. Inr (length v))
                  else rbind (get_map h) (\<lambda>m. Inr (length m)))"

section \<open>Abstraction and well-formedness\<close>

definition entries :: "DrutaHash \<Rightarrow> hentry list" where
  "entries h = (case hdata h of HVec v \<Rightarrow> v | HMap m \<Rightarrow> m)"

definition plain :: "hentry list \<Rightarrow> (string \<times> string) list" where
  "plain es = map (\<lambda>p. (chars (fst p), chars (snd p))) es"

definition fnames :: "hentry list \<Rightarrow> string list" where
  "fnames es = map (chars \<circ> fst) es"

definition hash_map :: "DrutaHash \<Rightarrow> string \<rightharpoonup> string" where
  "hash_map h = map_of (plain (entries h))"

definition hash_wf :: "DrutaHash \<Rightarrow> bool" where
  "hash_wf h = ((case hdata h of
       HVec v \<Rightarrow> htype h = VECTOR \<and> length v \<le> DRUTA_MAX_KEY
     | HMap m \<Rightarrow> htype h = MAP \<and> sorted (fnames m)) \<and> distinct (fnames (entries h)))"

definition hash_overhead :: "DrutaHash \<Rightarrow> nat" where
  "hash_overhead h = (if htype h = VECTOR then HASH_ENTRY_OVERHEAD_VECTOR else HASH_ENTRY_OVERHEAD_MAP)"

definition hash_bytes :: "DrutaHash \<Rightarrow> nat" where
  "hash_bytes h = sum_list (map (entry_bytes (hash_overhead h)) (entries h))"

definition hash_exact :: "DrutaHash \<Rightarrow> bool" where
  "hash_exact h = (hmemory_usage h = of_nat (hash_bytes h))"

definition sso_entry :: "hentry \<Rightarrow> bool" where
  "sso_entry p = (capacity (fst p) = sso_capacity \<and> capacity (snd p) = sso_capacity \<and>
     length (chars (fst p)) \<le> sso_capacity)"

definition sso_hash :: "DrutaHash \<Rightarrow> bool" where
  "sso_hash h = list_all sso_entry (entries h)"

lemma plain_simps [simp]:
  "plain [] = []"
  "plain (p # es) = (chars (fst p), chars (snd p)) # plain es"
  "plain (es @ es') = plain es @ plain es'"
  "length (plain es) = length es"
  by (simp_all add: plain_def)

lemma fnames_simps [simp]:
  "fnames [] = []"
  "fnames (p # es) = chars (fst p) # fnames es"
  "fnames (es @ es') = fnames es @ fnames es'"
  "length (fnames es) = length es"
  by (simp_all add: fnames_def)

lemma map_fst_plain [simp]: "map fst (plain es) = fnames es"
  by (induction es) auto

lemma map_of_plain_None: "map_of (plain es) f = None \<longleftrightarrow> f \<notin> set (fnames es)"
  by (induction es) auto

lemma find_entry_simps [simp]:
  "find_entry f [] = None"
  "find_entry f (p # es) = (if chars (fst p) = f then Some p else find_entry f es)"
  by (simp_all add: find_entry_def)

lemma find_entry_lookup: "map_option (chars \<circ> snd) (find_entry f es) = map_of (plain es) f"
  by (induction es) auto

lemma find_entry_None: "find_entry f es = None \<longleftrightarrow> f \<notin> set (fnames es)"
  by (induction es) auto

lemma find_entry_Some: "find_entry f es = Some p \<Longrightarrow> p \<in> set es \<and> chars (fst p) = f"
  by (induction es) (auto split: if_splits)

lemma hash_wf_cases [consumes 1, case_names VEC MAP]:
  assumes "hash_wf h"
  obtains v where "htype h = VECTOR" "hdata h = HVec v" "entries h = v" "distinct (fnames v)"
      "length v \<le> DRUTA_MAX_KEY" "get_vec h = Inr v"
    | m where "htype h = MAP" "hdata h = HMap m" "entries h = m" "distinct (fnames m)"
      "sorted (fnames m)" "get_map h = Inr m"
  using assms
  by (cases "hdata h") (auto simp: hash_wf_def entries_def get_vec_def get_map_def)

section \<open>The interface of a field map\<close>

text \<open>The loops of HSET and HDEL over their arguments: apply the operation to each argument and
  count the calls that return \<open>true\<close>.\<close>

fun put_loop :: "('f \<Rightarrow> 'v \<Rightarrow> 'm \<Rightarrow> ('m \<times> bool) res) \<Rightarrow> ('f \<times> 'v) list \<Rightarrow> 'm \<Rightarrow> ('m \<times> nat) res" where
  "put_loop put [] m = Inr (m, 0)"
| "put_loop put ((f, v) # xs) m =
     rbind (put f v m) (\<lambda>(m', b).
       rbind (put_loop put xs m') (\<lambda>(m'', n). Inr (m'', if b then Suc n else n)))"

fun del_loop :: "('f \<Rightarrow> 'm \<Rightarrow> ('m \<times> bool) res) \<Rightarrow> 'f list \<Rightarrow> 'm \<Rightarrow> ('m \<times> nat) res" where
  "del_loop del [] m = Inr (m, 0)"
| "del_loop del (f # xs) m =
     rbind (del f m) (\<lambda>(m', b).
       rbind (del_loop del xs m') (\<lambda>(m'', n). Inr (m'', if b then Suc n else n)))"

locale erasable_map =
  fixes get :: "'m \<Rightarrow> 'f \<Rightarrow> 'v option res"
    and del :: "'f \<Rightarrow> 'm \<Rightarrow> ('m \<times> bool) res"
    and view :: "'m \<Rightarrow> 'f \<rightharpoonup> 'v"
    and inv :: "'m \<Rightarrow> bool"
  assumes get_ok: "inv m \<Longrightarrow> get m f = Inr (view m f)"
    and del_ok: "inv m \<Longrightarrow>
      \<exists>m'. del f m = Inr (m', f \<in> dom (view m)) \<and> inv m' \<and> view m' = (view m)(f := None)"
begin

lemma get_after_del:
  assumes "inv m" "del f m = Inr (m', b)"
  shows "get m' g = (if g = f then Inr None else get m g)"
  using del_ok [OF assms(1), of f] assms by (auto simp: get_ok)

lemma del_loop_ok:
  "inv m \<Longrightarrow> \<exists>m'. del_loop del xs m = Inr (m', card (set xs \<inter> dom (view m))) \<and> inv m' \<and>
     view m' = view m |` (- set xs)"
proof (induction xs arbitrary: m)
  case Nil
  then show ?case by (simp add: fun_eq_iff restrict_map_def)
next
  case (Cons f xs)
  from del_ok [OF Cons.prems, of f] obtain m1 where m1:
    "del f m = Inr (m1, f \<in> dom (view m))" "inv m1" "view m1 = (view m)(f := None)" by blast
  from Cons.IH [OF m1(2)] obtain m2 where m2:
    "del_loop del xs m1 = Inr (m2, card (set xs \<inter> dom (view m1)))" "inv m2"
    "view m2 = view m1 |` (- set xs)" by blast
  let ?A = "set (f # xs) \<inter> dom (view m)" and ?B = "set xs \<inter> dom (view m1)"
  have "?A = (if f \<in> dom (view m) then insert f ?B else ?B)" "f \<notin> ?B" "finite ?B"
    using m1(3) by auto
  then have "card ?A = (if f \<in> dom (view m) then Suc (card ?B) else card ?B)" by simp
  moreover have "view m2 = view m |` (- set (f # xs))"
    using m1(3) m2(3) by (auto simp: fun_eq_iff restrict_map_def)
  ultimately show ?case using m1 m2 by auto
qed

end

locale field_map = erasable_map get del view inv
  for get :: "'m \<Rightarrow> 'f \<Rightarrow> 'v option res"
    and del :: "'f \<Rightarrow> 'm \<Rightarrow> ('m \<times> bool) res"
    and view :: "'m \<Rightarrow> 'f \<rightharpoonup> 'v"
    and inv :: "'m \<Rightarrow> bool" +
  fixes put :: "'f \<Rightarrow> 'v \<Rightarrow> 'm \<Rightarrow> ('m \<times> bool) res"
  assumes put_ok: "inv m \<Longrightarrow>
      \<exists>m'. put f v m = Inr (m', f \<notin> dom (view m)) \<and> inv m' \<and> view m' = (view m)(f \<mapsto> v)"
begin

lemma get_after_put:
  assumes "inv m" "put f v m = Inr (m', b)"
  shows "get m' g = (if g = f then Inr (Some v) else get m g)"
  using put_ok [OF assms(1), of f v] assms by (auto simp: get_ok)

lemma put_loop_ok:
  "inv m \<Longrightarrow> \<exists>m'. put_loop put xs m = Inr (m', card (fst ` set xs - dom (view m))) \<and> inv m' \<and>
     view m' = view m ++ map_of (rev xs)"
proof (induction xs arbitrary: m)
  case Nil
  then show ?case by simp
next
  case (Cons x xs)
  obtain f v where x: "x = (f, v)" by (cases x)
  from put_ok [OF Cons.prems, of f v] obtain m1 where m1:
    "put f v m = Inr (m1, f \<notin> dom (view m))" "inv m1" "view m1 = (view m)(f \<mapsto> v)" by blast
  from Cons.IH [OF m1(2)] obtain m2 where m2:
    "put_loop put xs m1 = Inr (m2, card (fst ` set xs - dom (view m1)))" "inv m2"
    "view m2 = view m1 ++ map_of (rev xs)" by blast
  let ?A = "fst ` set (x # xs) - dom (view m)" and ?B = "fst ` set xs - dom (view m1)"
  have AB: "?A = (if f \<in> dom (view m) then ?B else insert f ?B)" "f \<notin> ?B" "finite ?B"
    using x m1(3) by auto
  then have "card ?A = (if f \<in> dom (view m) then card ?B else Suc (card ?B))" by simp
  with x m1 m2 show ?case by (auto simp: map_add_upd_left map_of_append map_add_assoc [symmetric])
qed

end

section \<open>The helpers\<close>

lemma vec_assign_None: "vec_assign f val v mem = None \<longleftrightarrow> f \<notin> set (fnames v)"
  by (induction v) (auto simp: Let_def)

lemma vec_assign_Some:
  "vec_assign f val v mem = Some (v', mem') \<Longrightarrow> distinct (fnames v) \<Longrightarrow>
   fnames v' = fnames v \<and> map_of (plain v') = (map_of (plain v))(f \<mapsto> val) \<and> f \<in> set (fnames v)"
  by (induction v arbitrary: v') (auto simp: Let_def fun_upd_twist split: if_splits)

lemma vec_assign_mem:
  "vec_assign f val v mem = Some (v', mem') \<Longrightarrow>
   mem' = mem - of_nat (sum_list (map (entry_bytes ov) v)) + of_nat (sum_list (map (entry_bytes ov) v'))"
proof (induction v arbitrary: v' mem')
  case Nil
  then show ?case by simp
next
  case (Cons p ps)
  show ?case
  proof (cases "chars (fst p) = f")
    case True
    with Cons.prems show ?thesis by (auto simp: Let_def entry_bytes_def)
  next
    case False
    with Cons.prems obtain ps' where ps': "vec_assign f val ps mem = Some (ps', mem')" "v' = p # ps'"
      by auto
    from Cons.IH [OF ps'(1)] ps'(2) show ?thesis by simp
  qed
qed

lemma vec_assign_grows:
  "vec_assign f val v mem = Some (v', mem') \<Longrightarrow>
   \<exists>d. d \<le> 2 * length val \<and> mem' = mem + of_nat d"
proof (induction v arbitrary: v' mem')
  case Nil
  then show ?case by simp
next
  case (Cons p ps)
  show ?case
  proof (cases "chars (fst p) = f")
    case True
    let ?q = "str_assign (snd p) val"
    have le: "capacity (snd p) \<le> capacity ?q" by (rule capacity_assign_mono)
    have "mem' = mem + of_nat (capacity ?q - capacity (snd p))"
      using Cons.prems True le by (auto simp: Let_def)
    moreover have "capacity ?q - capacity (snd p) \<le> 2 * length val"
      using capacity_assign_bound [of "snd p" val] by simp
    ultimately show ?thesis by blast
  next
    case False
    with Cons show ?thesis by auto
  qed
qed

lemma vec_assign_sso:
  assumes "vec_assign f val v mem = Some (v', mem')" "length val \<le> 15"
    and "list_all sso_entry v"
  shows "list_all sso_entry v'"
  using assms(1,3)
proof (induction v arbitrary: v' mem')
  case Nil
  then show ?case by simp
next
  case (Cons p ps)
  with assms(2) show ?case
    by (cases "chars (fst p) = f") (auto simp: Let_def str_assign_def sso_entry_def sso_capacity_def)
qed

lemma set_fnames_map_index [simp]: "set (fnames (map_index k g m)) = insert k (set (fnames m))"
  by (induction m) auto

lemma map_index_sorted:
  "sorted (fnames m) \<Longrightarrow> distinct (fnames m) \<Longrightarrow>
   sorted (fnames (map_index k g m)) \<and> distinct (fnames (map_index k g m))"
  by (induction m) auto

lemma map_index_lookup:
  assumes "sorted (fnames m)" "distinct (fnames m)" "\<And>d. chars (g d) = val"
  shows "map_of (plain (map_index k g m)) = (map_of (plain m))(k \<mapsto> val)"
  using assms(1,2)
proof (induction m)
  case Nil
  then show ?case by (simp add: assms(3))
next
  case (Cons p m)
  then show ?case
    by (auto simp: fun_eq_iff assms(3))
qed

lemma map_index_length:
  "sorted (fnames m) \<Longrightarrow> length (map_index k g m) = (if k \<in> set (fnames m) then length m else Suc (length m))"
  by (induction m) auto

lemma map_index_bytes_new:
  "k \<notin> set (fnames m) \<Longrightarrow>
   sum_list (map (entry_bytes ov) (map_index k g m)) =
     sum_list (map (entry_bytes ov) m) + copy_capacity k + capacity (g (CStr [] sso_capacity)) + ov"
  by (induction m) (auto simp: entry_bytes_def)

lemma map_index_bytes_old:
  "find_entry k m = Some p \<Longrightarrow> sorted (fnames m) \<Longrightarrow>
   sum_list (map (entry_bytes ov) (map_index k g m)) + capacity (snd p) =
     sum_list (map (entry_bytes ov) m) + capacity (g (snd p))"
proof (induction m)
  case Nil
  then show ?case by simp
next
  case (Cons q m)
  show ?case
  proof (cases "chars (fst q) = k")
    case True
    with Cons.prems show ?thesis by (simp add: entry_bytes_def)
  next
    case False
    then have f: "find_entry k m = Some p" using Cons.prems by simp
    then have "k \<in> set (fnames m)" using find_entry_None [of k m] by auto
    then have "chars (fst q) \<le> k" using Cons.prems by auto
    with False have "\<not> k < chars (fst q)" by auto
    with False f Cons show ?thesis by simp
  qed
qed

lemma map_index_set:
  "p \<in> set (map_index k g m) \<Longrightarrow>
   p \<in> set m \<or> fst p = str_copy k \<and> snd p = g (CStr [] sso_capacity) \<or>
   (\<exists>q\<in>set m. fst p = fst q \<and> snd p = g (snd q))"
  by (induction m) (auto split: if_splits)

lemma vec_shift_plain [simp]: "plain (vec_shift d ss) = plain ss"
  by (induction d ss rule: vec_shift.induct) (auto simp: pair_move_assign_def Let_def split: prod.splits)

lemma vec_erase_None: "vec_erase f v = None \<longleftrightarrow> f \<notin> set (fnames v)"
  by (induction v) auto

lemma vec_erase_Some:
  "vec_erase f v = Some (p, v') \<Longrightarrow> distinct (fnames v) \<Longrightarrow>
   find_entry f v = Some p \<and> plain v' = filter (\<lambda>x. fst x \<noteq> f) (plain v) \<and> f \<in> set (fnames v)"
proof (induction v arbitrary: v')
  case Nil
  then show ?case by simp
next
  case (Cons q v)
  have flt: "filter (\<lambda>x. fst x \<noteq> f) (plain v) = plain v" if "f \<notin> set (fnames v)"
    using that by (induction v) auto
  from Cons show ?case by (auto simp: flt split: if_splits)
qed

lemma vec_shift_local:
  assumes "sso_entry d" "list_all sso_entry ss"
  shows "list_all sso_entry (vec_shift d ss) \<and> length (vec_shift d ss) = length ss"
  using assms
  by (induction d ss rule: vec_shift.induct)
     (auto simp: pair_move_assign_def Let_def str_move_assign_def is_local_def sso_entry_def)

lemma sso_bytes: "list_all sso_entry v \<Longrightarrow> sum_list (map (entry_bytes ov) v) = length v * (30 + ov)"
  by (induction v) (auto simp: sso_entry_def entry_bytes_def sso_capacity_def)

lemma vec_erase_sso:
  assumes "vec_erase f v = Some (p, v')" "list_all sso_entry v"
  shows "list_all sso_entry v' \<and> length v = Suc (length v') \<and> sso_entry p"
  using assms
proof (induction v arbitrary: v')
  case Nil
  then show ?case by simp
next
  case (Cons q v)
  then show ?case
    using vec_shift_local [of q v] by (cases "chars (fst q) = f") auto
qed

lemma plain_map_erase: "plain (map_erase f m) = filter (\<lambda>x. fst x \<noteq> f) (plain m)"
  by (induction m) (auto simp: map_erase_def)

lemma fnames_map_erase: "fnames (map_erase f m) = filter (\<lambda>x. x \<noteq> f) (fnames m)"
  by (induction m) (auto simp: map_erase_def)

lemma map_erase_bytes:
  "find_entry f m = Some p \<Longrightarrow> distinct (fnames m) \<Longrightarrow>
   sum_list (map (entry_bytes ov) m) = entry_bytes ov p + sum_list (map (entry_bytes ov) (map_erase f m))"
proof (induction m)
  case Nil
  then show ?case by simp
next
  case (Cons q m)
  have none: "map_erase f m = m" if "f \<notin> set (fnames m)"
    using that by (induction m) (auto simp: map_erase_def)
  show ?case
  proof (cases "chars (fst q) = f")
    case True
    then have "map_erase f (q # m) = map_erase f m" by (simp add: map_erase_def)
    with True Cons.prems none show ?thesis by simp
  next
    case False
    then have "map_erase f (q # m) = q # map_erase f m" by (simp add: map_erase_def)
    with False Cons show ?thesis by simp
  qed
qed

lemma map_of_filter_neq: "map_of (filter (\<lambda>x. fst x \<noteq> f) xs) = (map_of xs)(f := None)"
  by (induction xs) (auto simp: fun_eq_iff)

section \<open>The operations against the field map\<close>

lemma get_hash_ok: "hash_wf h \<Longrightarrow> get_hash h f = Inr (hash_map h f)"
  by (cases h rule: hash_wf_cases) (auto simp: get_hash_def hash_map_def find_entry_lookup)

lemma hash_size_ok: "hash_wf h \<Longrightarrow> hash_size h = Inr (card (dom (hash_map h)))"
proof -
  assume wf: "hash_wf h"
  have "card (dom (hash_map h)) = length (entries h)"
    using wf by (simp add: hash_wf_def hash_map_def dom_map_of_conv_image_fst
        distinct_card flip: set_map)
  with wf show ?thesis
    by (cases h rule: hash_wf_cases) (auto simp: hash_size_def)
qed

lemma convert_fold:
  assumes "sorted (fnames m)" "distinct (fnames m)" "set (fnames m) \<inter> set (fnames v) = {}"
    "distinct (fnames v)"
  defines "m' \<equiv> fold (\<lambda>p. map_index (chars (fst p)) (\<lambda>d. fst (str_move_assign d (snd p)))) v m"
  shows "sorted (fnames m') \<and> distinct (fnames m') \<and> length m' = length m + length v \<and>
         map_of (plain m') = map_of (plain m) ++ map_of (plain v)"
  using assms(1-4) unfolding m'_def
proof (induction v arbitrary: m)
  case Nil
  then show ?case by simp
next
  case (Cons p v)
  let ?m1 = "map_index (chars (fst p)) (\<lambda>d. fst (str_move_assign d (snd p))) m"
  have s1: "sorted (fnames ?m1)" "distinct (fnames ?m1)"
    using map_index_sorted [OF Cons.prems(1,2)] by auto
  have l1: "length ?m1 = Suc (length m)"
    using Cons.prems by (simp add: map_index_length)
  have lk: "map_of (plain ?m1) = (map_of (plain m))(chars (fst p) \<mapsto> chars (snd p))"
    using Cons.prems by (intro map_index_lookup) auto
  have nin: "map_of (plain v) (chars (fst p)) = None"
    using Cons.prems by (simp add: map_of_plain_None)
  have upd: "(map_of (plain m))(chars (fst p) \<mapsto> chars (snd p)) ++ map_of (plain v) =
             map_of (plain m) ++ map_of (plain (p # v))"
    using nin by (auto simp: fun_eq_iff map_add_def split: option.splits)
  have "set (fnames ?m1) \<inter> set (fnames v) = {}" "distinct (fnames v)"
    using Cons.prems by auto
  from Cons.IH [OF s1 this, unfolded lk upd l1] show ?case
    by (simp del: plain_simps(2))
qed

lemma convert_to_map_ok:
  assumes "get_vec h = Inr v" "htype h = VECTOR" "distinct (fnames v)"
  shows "\<exists>h'. convert_to_map h = Inr h' \<and> hash_wf h' \<and> htype h' = MAP \<and>
    hash_map h' = map_of (plain v) \<and> length (entries h') = length v \<and>
    hmemory_usage h' = hmemory_usage h + of_nat (length v * MAP_NODE_OVERHEAD)"
  using convert_fold [of "[]" v] assms
  by (auto simp: convert_to_map_def Let_def hash_wf_def entries_def hash_map_def)

lemma set_hash_ok:
  assumes "hash_wf h"
  shows "\<exists>h'. set_hash f v h = Inr (h', f \<notin> dom (hash_map h)) \<and> hash_wf h' \<and>
    hash_map h' = (hash_map h)(f \<mapsto> v)"
  using assms
proof (cases h rule: hash_wf_cases)
  case (VEC vec)
  show ?thesis
  proof (cases "vec_assign f v vec (hmemory_usage h)")
    case None
    let ?vec = "vec @ [(str_copy f, str_copy v)]"
    let ?h = "h\<lparr>hdata := HVec ?vec, hmemory_usage := hmemory_usage h + of_nat (copy_capacity f)
        + of_nat (copy_capacity v) + of_nat HASH_ENTRY_OVERHEAD_VECTOR\<rparr>"
    from None have nin: "f \<notin> set (fnames vec)" by (simp add: vec_assign_None)
    have hm: "map_of (plain ?vec) = (map_of (plain vec))(f \<mapsto> v)"
      using nin map_of_plain_None [of vec f] by (auto simp: fun_eq_iff map_add_def split: option.splits)
    have nd: "f \<notin> dom (hash_map h)"
      using nin VEC by (auto simp: hash_map_def dom_def simp flip: map_of_plain_None)
    have cv: "\<exists>h'. convert_to_map ?h = Inr h' \<and> hash_wf h' \<and> hash_map h' = map_of (plain ?vec)"
      using convert_to_map_ok [of ?h ?vec] VEC nin by (auto simp: get_vec_def)
    show ?thesis
      using VEC None nin nd hm cv
      by (auto simp: set_hash_def Let_def hash_wf_def hash_map_def entries_def)
  next
    case (Some r)
    then obtain vec' mem' where r: "vec_assign f v vec (hmemory_usage h) = Some (vec', mem')"
      by (cases r) auto
    from vec_assign_Some [OF r] VEC have a: "fnames vec' = fnames vec"
      "map_of (plain vec') = (map_of (plain vec))(f \<mapsto> v)" "f \<in> set (fnames vec)" by auto
    then have "f \<in> dom (hash_map h)"
      using VEC map_of_plain_None [of vec f] by (auto simp: hash_map_def)
    moreover have "length vec' = length vec"
      using arg_cong [OF a(1), of length] by (simp only: fnames_simps)
    ultimately show ?thesis
      using VEC r a by (auto simp: set_hash_def hash_wf_def hash_map_def entries_def)
  qed
next
  case (MAP m)
  let ?m = "map_index f (\<lambda>d. str_assign d v) m"
  have m: "sorted (fnames ?m)" "distinct (fnames ?m)" "map_of (plain ?m) = (map_of (plain m))(f \<mapsto> v)"
    using MAP map_index_sorted [of m f] map_index_lookup [of m _ v f] by auto
  have "f \<in> dom (hash_map h) \<longleftrightarrow> find_entry f m \<noteq> None"
    using MAP map_of_plain_None [of m f] find_entry_None [of f m] by (auto simp: hash_map_def)
  with MAP m show ?thesis
    by (auto simp: set_hash_def Let_def hash_wf_def hash_map_def entries_def split: option.splits)
qed

lemma del_hash_ok:
  assumes "hash_wf h"
  shows "\<exists>h'. del_hash f h = Inr (h', f \<in> dom (hash_map h)) \<and> hash_wf h' \<and>
    hash_map h' = (hash_map h)(f := None)"
  using assms
proof (cases h rule: hash_wf_cases)
  case (VEC v)
  show ?thesis
  proof (cases "vec_erase f v")
    case None
    then have "f \<notin> dom (hash_map h)"
      using VEC map_of_plain_None [of v f] by (auto simp: hash_map_def vec_erase_None)
    with None VEC assms show ?thesis by (auto simp: del_hash_def fun_eq_iff)
  next
    case (Some r)
    then obtain p v' where r: "vec_erase f v = Some (p, v')" by (cases r) auto
    from vec_erase_Some [OF r] VEC have a: "plain v' = filter (\<lambda>x. fst x \<noteq> f) (plain v)"
      "f \<in> set (fnames v)" by auto
    have fn: "fnames v' = filter (\<lambda>x. x \<noteq> f) (fnames v)"
      using arg_cong [OF a(1), of "map fst"] by (simp add: filter_map comp_def flip: map_fst_plain)
    have len: "length v' \<le> length v"
      using arg_cong [OF fn, of length] by (metis fnames_simps(4) length_filter_le)
    have "f \<in> dom (hash_map h)"
      using VEC a map_of_plain_None [of v f] by (auto simp: hash_map_def)
    with VEC r a fn len show ?thesis
      by (auto simp: del_hash_def hash_wf_def hash_map_def entries_def map_of_filter_neq)
  qed
next
  case (MAP m)
  have "f \<in> dom (hash_map h) \<longleftrightarrow> find_entry f m \<noteq> None"
    using MAP map_of_plain_None [of m f] find_entry_None [of f m] by (auto simp: hash_map_def)
  with MAP assms show ?thesis
    by (auto simp: del_hash_def hash_wf_def hash_map_def entries_def plain_map_erase
        fnames_map_erase map_of_filter_neq sorted_wrt_filter fun_eq_iff split: option.splits)
qed

interpretation druta_hash: field_map get_hash del_hash hash_map hash_wf set_hash
  by unfold_locales (rule get_hash_ok set_hash_ok del_hash_ok; assumption)+

section \<open>Memory accounting\<close>

text \<open>\<open>set_hash\<close> only ever adds to \<open>memory_usage\<close>: an assignment never shrinks a buffer.\<close>

lemma set_vec_grows:
  assumes set: "set_hash f v h = Inr (h', b)"
    and VEC: "htype h = VECTOR" "hdata h = HVec vec" "entries h = vec" "distinct (fnames vec)"
      "length vec \<le> DRUTA_MAX_KEY" "get_vec h = Inr vec"
  shows "\<exists>d. d \<le> length f + 2 * length v + 4500 \<and> hmemory_usage h' = hmemory_usage h + of_nat d"
proof (cases "vec_assign f v vec (hmemory_usage h)")
  case None
  let ?vec = "vec @ [(str_copy f, str_copy v)]"
  let ?h = "h\<lparr>hdata := HVec ?vec, hmemory_usage := hmemory_usage h + of_nat (copy_capacity f)
      + of_nat (copy_capacity v) + of_nat HASH_ENTRY_OVERHEAD_VECTOR\<rparr>"
  let ?d = "copy_capacity f + copy_capacity v + HASH_ENTRY_OVERHEAD_VECTOR"
  from None have nin: "f \<notin> set (fnames vec)" by (simp add: vec_assign_None)
  obtain hc where hc: "convert_to_map ?h = Inr hc"
    "hmemory_usage hc = hmemory_usage ?h + of_nat (length ?vec * MAP_NODE_OVERHEAD)"
    using convert_to_map_ok [of ?h ?vec] VEC nin by (auto simp: get_vec_def)
  have b: "?d \<le> length f + length v + 94"
    using copy_capacity_bound [of f] copy_capacity_bound [of v] by (simp add: overhead_defs)
  show ?thesis
  proof (cases "length ?vec > DRUTA_MAX_KEY")
    case True
    then have "hmemory_usage h' = hmemory_usage h + of_nat (?d + length ?vec * MAP_NODE_OVERHEAD)"
      using VEC None hc set by (auto simp: set_hash_def Let_def algebra_simps)
    moreover have "length ?vec * MAP_NODE_OVERHEAD \<le> 65 * 64"
      using VEC by (intro mult_le_mono) (simp_all add: DRUTA_MAX_KEY_def MAP_NODE_OVERHEAD_def)
    ultimately show ?thesis
      using b by (intro exI [of _ "?d + length ?vec * MAP_NODE_OVERHEAD"]) simp
  next
    case False
    then have "hmemory_usage h' = hmemory_usage h + of_nat ?d"
      using VEC None set by (auto simp: set_hash_def Let_def algebra_simps)
    then show ?thesis using b by (intro exI [of _ ?d]) simp
  qed
next
  case (Some r)
  then obtain vec' mem' where r: "vec_assign f v vec (hmemory_usage h) = Some (vec', mem')"
    by (cases r) auto
  with VEC set have "hmemory_usage h' = mem'" by (auto simp: set_hash_def)
  with vec_assign_grows [OF r] obtain d where "d \<le> 2 * length v"
    "hmemory_usage h' = hmemory_usage h + of_nat d" by blast
  then show ?thesis by (intro exI [of _ d]) simp
qed

lemma set_map_grows:
  assumes set: "set_hash f v h = Inr (h', b)"
    and MAP: "htype h = MAP" "hdata h = HMap m" "entries h = m" "distinct (fnames m)"
      "sorted (fnames m)" "get_map h = Inr m"
  shows "\<exists>d. d \<le> length f + 2 * length v + 4500 \<and> hmemory_usage h' = hmemory_usage h + of_nat d"
proof (cases "find_entry f m")
  case None
  let ?d = "copy_capacity f + copy_capacity v + HASH_ENTRY_OVERHEAD_MAP"
  have "hmemory_usage h' = hmemory_usage h + of_nat ?d"
    using MAP None set by (auto simp: set_hash_def algebra_simps)
  moreover have "?d \<le> length f + length v + 158"
    using copy_capacity_bound [of f] copy_capacity_bound [of v] by (simp add: overhead_defs)
  ultimately show ?thesis by (intro exI [of _ ?d]) simp
next
  case (Some p)
  let ?d = "capacity (str_assign (snd p) v) - capacity (snd p)"
  have "hmemory_usage h' = hmemory_usage h + of_nat ?d"
    using MAP Some set capacity_assign_mono [of "snd p" v]
    by (auto simp: set_hash_def Let_def)
  moreover have "?d \<le> 2 * length v" using capacity_assign_bound [of "snd p" v] by simp
  ultimately show ?thesis by (intro exI [of _ ?d]) simp
qed

lemma set_hash_grows:
  assumes "hash_wf h" "set_hash f v h = Inr (h', b)"
  shows "\<exists>d. d \<le> length f + 2 * length v + 4500 \<and> hmemory_usage h' = hmemory_usage h + of_nat d"
  using assms(1) by (cases h rule: hash_wf_cases) (rule set_vec_grows [OF assms(2)] set_map_grows [OF assms(2)]; assumption)+

lemma sso_copy: "length s \<le> 15 \<Longrightarrow> copy_capacity s = sso_capacity"
  by (simp add: copy_capacity_def sso_capacity_def)

lemma sso_exact_iff:
  "sso_hash h \<Longrightarrow> hash_exact h \<longleftrightarrow> hmemory_usage h = of_nat (length (entries h) * (30 + hash_overhead h))"
  by (simp add: hash_exact_def hash_bytes_def sso_hash_def sso_bytes)

lemma map_index_sso:
  "list_all sso_entry m \<Longrightarrow> length k \<le> 15 \<Longrightarrow> (\<And>d. capacity d = 15 \<Longrightarrow> capacity (g d) = 15) \<Longrightarrow>
   list_all sso_entry (map_index k g m)"
  by (induction m) (auto simp: sso_entry_def sso_copy sso_capacity_def)

lemma convert_fold_sso:
  assumes "list_all sso_entry m" "list_all sso_entry v"
  shows "list_all sso_entry (fold (\<lambda>p. map_index (chars (fst p)) (\<lambda>d. fst (str_move_assign d (snd p)))) v m)"
  using assms
proof (induction v arbitrary: m)
  case Nil
  then show ?case by simp
next
  case (Cons p v)
  have "list_all sso_entry (map_index (chars (fst p)) (\<lambda>d. fst (str_move_assign d (snd p))) m)"
    using Cons.prems(1,2)
    by (intro map_index_sso) (simp_all add: str_move_assign_def is_local_def sso_capacity_def
        sso_entry_def [of p])
  with Cons show ?case by simp
qed

text \<open>A hash whose strings all fit the local buffer is accounted exactly: \<open>set_hash\<close> and
  \<open>del_hash\<close> keep \<open>memory_usage\<close> equal to the sum over the stored entries.\<close>

lemma set_vec_sso_exact:
  assumes sso: "sso_hash h" and ex: "hash_exact h"
    and len: "length f \<le> 15" "length v \<le> 15" and set: "set_hash f v h = Inr (h', b)"
    and VEC: "htype h = VECTOR" "hdata h = HVec vec" "entries h = vec" "distinct (fnames vec)"
      "length vec \<le> DRUTA_MAX_KEY" "get_vec h = Inr vec"
  shows "sso_hash h' \<and> hash_exact h'"
proof -
  have all: "list_all sso_entry vec" using sso VEC by (simp add: sso_hash_def)
  have mem: "hmemory_usage h = of_nat (length vec * (30 + HASH_ENTRY_OVERHEAD_VECTOR))"
    using ex sso_exact_iff [OF sso] VEC by (simp add: hash_overhead_def)
  show ?thesis
  proof (cases "vec_assign f v vec (hmemory_usage h)")
    case None
    let ?vec = "vec @ [(str_copy f, str_copy v)]"
    let ?h = "h\<lparr>hdata := HVec ?vec, hmemory_usage := hmemory_usage h + of_nat (copy_capacity f)
        + of_nat (copy_capacity v) + of_nat HASH_ENTRY_OVERHEAD_VECTOR\<rparr>"
    from None have nin: "f \<notin> set (fnames vec)" by (simp add: vec_assign_None)
    have all': "list_all sso_entry ?vec"
      using all len by (simp add: sso_entry_def sso_copy sso_capacity_def)
    have mem': "hmemory_usage ?h = of_nat (length ?vec * (30 + HASH_ENTRY_OVERHEAD_VECTOR))"
      using mem len by (simp add: sso_copy sso_capacity_def algebra_simps)
    obtain hc where hc: "convert_to_map ?h = Inr hc" "htype hc = MAP"
      "length (entries hc) = length ?vec"
      "hmemory_usage hc = hmemory_usage ?h + of_nat (length ?vec * MAP_NODE_OVERHEAD)"
      using convert_to_map_ok [of ?h ?vec] VEC nin by (auto simp: get_vec_def)
    have "sso_hash hc"
      using hc(1) VEC convert_fold_sso [OF _ all', of "[]"]
      by (auto simp: convert_to_map_def Let_def get_vec_def sso_hash_def entries_def)
    moreover from this have "hash_exact hc"
      by (simp only: sso_exact_iff hc mem' hash_overhead_def)
         (simp add: overhead_defs algebra_simps)
    moreover have "sso_hash ?h"
      using all' VEC by (simp add: sso_hash_def entries_def)
    moreover from this have "hash_exact ?h"
      using mem' VEC by (simp add: sso_exact_iff hash_overhead_def entries_def)
    ultimately show ?thesis
      using set VEC None hc(1) by (auto simp: set_hash_def Let_def split: if_splits)
  next
    case (Some r)
    then obtain vec' mem' where r: "vec_assign f v vec (hmemory_usage h) = Some (vec', mem')"
      by (cases r) auto
    have "list_all sso_entry vec'" using vec_assign_sso [OF r len(2) all] .
    moreover have "hash_exact h'"
      using set VEC r ex vec_assign_mem [OF r, of HASH_ENTRY_OVERHEAD_VECTOR]
      by (auto simp: set_hash_def hash_exact_def hash_bytes_def hash_overhead_def entries_def)
    ultimately show ?thesis
      using set VEC r by (auto simp: set_hash_def sso_hash_def entries_def)
  qed
qed

lemma set_map_sso_exact:
  assumes sso: "sso_hash h" and ex: "hash_exact h"
    and len: "length f \<le> 15" "length v \<le> 15" and set: "set_hash f v h = Inr (h', b)"
    and MAP: "htype h = MAP" "hdata h = HMap m" "entries h = m" "distinct (fnames m)"
      "sorted (fnames m)" "get_map h = Inr m"
  shows "sso_hash h' \<and> hash_exact h'"
proof -
  have all: "list_all sso_entry m" using sso MAP by (simp add: sso_hash_def)
  let ?m = "map_index f (\<lambda>d. str_assign d v) m"
  have all': "list_all sso_entry ?m"
    using all len by (intro map_index_sso) (auto simp: str_assign_def)
  have mem: "hmemory_usage h = of_nat (length m * (30 + HASH_ENTRY_OVERHEAD_MAP))"
    using ex sso_exact_iff [OF sso] MAP by (simp add: hash_overhead_def)
  have cap: "capacity (str_assign (snd p) v) = capacity (snd p)" if "find_entry f m = Some p" for p
    using that all len find_entry_Some [OF that]
    by (auto simp: list_all_iff sso_entry_def str_assign_def sso_capacity_def)
  have len': "length ?m = (if find_entry f m = None then Suc (length m) else length m)"
    using MAP by (simp add: map_index_length find_entry_None)
  have "hmemory_usage h' = of_nat (length ?m * (30 + HASH_ENTRY_OVERHEAD_MAP))"
    using set MAP mem len' len
    by (auto simp: set_hash_def Let_def cap sso_copy sso_capacity_def algebra_simps split: option.splits)
  moreover have "sso_hash h'" "htype h' = MAP" "entries h' = ?m"
    using set MAP all' by (auto simp: set_hash_def Let_def sso_hash_def entries_def split: option.splits)
  ultimately show ?thesis by (simp add: sso_exact_iff hash_overhead_def)
qed

lemma set_hash_sso_exact:
  assumes "hash_wf h" "sso_hash h" "hash_exact h" "length f \<le> 15" "length v \<le> 15" "set_hash f v h = Inr (h', b)"
  shows "sso_hash h' \<and> hash_exact h'"
  using assms(1) by (cases h rule: hash_wf_cases) (rule set_vec_sso_exact [OF assms(2-6)] set_map_sso_exact [OF assms(2-6)]; assumption)+

lemma del_hash_sso_exact:
  assumes wf: "hash_wf h" and sso: "sso_hash h" and ex: "hash_exact h"
    and del: "del_hash f h = Inr (h', b)"
  shows "sso_hash h' \<and> hash_exact h'"
  using wf
proof (cases h rule: hash_wf_cases)
  case (VEC v)
  have all: "list_all sso_entry v" using sso VEC by (simp add: sso_hash_def)
  show ?thesis
  proof (cases "vec_erase f v")
    case None
    with del VEC sso ex show ?thesis by (auto simp: del_hash_def)
  next
    case (Some r)
    then obtain p v' where r: "vec_erase f v = Some (p, v')" by (cases r) auto
    note e = vec_erase_sso [OF r all]
    have "hmemory_usage h = of_nat (length v * (30 + HASH_ENTRY_OVERHEAD_VECTOR))"
      using ex sso_exact_iff [OF sso] VEC by (simp add: hash_overhead_def)
    moreover have "entry_bytes HASH_ENTRY_OVERHEAD_VECTOR p = 30 + HASH_ENTRY_OVERHEAD_VECTOR"
      using e by (simp add: entry_bytes_def sso_entry_def sso_capacity_def)
    ultimately have "hmemory_usage h' = of_nat (length v' * (30 + HASH_ENTRY_OVERHEAD_VECTOR))"
      using del VEC r e by (auto simp: del_hash_def algebra_simps)
    moreover have "sso_hash h'" "htype h' = VECTOR" "entries h' = v'"
      using del VEC r e by (auto simp: del_hash_def sso_hash_def entries_def)
    ultimately show ?thesis by (simp add: sso_exact_iff hash_overhead_def)
  qed
next
  case (MAP m)
  show ?thesis
  proof (cases "find_entry f m")
    case None
    with del MAP sso ex show ?thesis by (auto simp: del_hash_def)
  next
    case (Some p)
    have "hash_exact h'"
      using del MAP Some ex map_erase_bytes [OF Some, of HASH_ENTRY_OVERHEAD_MAP]
      by (auto simp: del_hash_def hash_exact_def hash_bytes_def hash_overhead_def entries_def)
    moreover have "sso_hash h'"
      using del MAP Some sso
      by (auto simp: del_hash_def sso_hash_def entries_def map_erase_def list_all_iff)
    ultimately show ?thesis by simp
  qed
qed

lemma hash_wf_new [simp]: "hash_wf (new_hash_vec [] e)"
  by (simp add: hash_wf_def new_hash_vec_def entries_def)

section \<open>What an erase from the vector leaves\<close>

text \<open>The capacity beyond the small-string buffer that a deleted string leaves to a later one.\<close>

definition inherited :: "cstr \<Rightarrow> cstr list \<Rightarrow> nat" where
  "inherited d later = (if list_ex is_local later then capacity d - sso_capacity else 0)"

lemma move_capacity:
  assumes "cstr_ok d" "cstr_ok s"
  shows "capacity (fst (str_move_assign d s)) + inherited (snd (str_move_assign d s)) later = capacity s + inherited d (s # later)"
    "cstr_ok (snd (str_move_assign d s))"
  using assms by (auto simp: str_move_assign_def inherited_def is_local_def cstr_ok_def)

lemma size_t_zero: "n < 2 ^ 64 \<Longrightarrow> (of_nat n :: size_t) = 0 \<longleftrightarrow> n = 0"
  using nat_dvd_not_less [of n "2 ^ 64"] by (auto simp: word_of_nat_eq_0_iff)

lemma diff_eq_self: "(a :: 'a :: group_add) - b = a \<longleftrightarrow> b = 0"
  using diff_left_imp_eq [of a b 0] by auto

lemma vec_shift_bytes:
  assumes "cstr_ok (fst d)" "cstr_ok (snd d)" "\<forall>p\<in>set ss. cstr_ok (fst p) \<and> cstr_ok (snd p)"
  shows "sum_list (map (entry_bytes ov) (vec_shift d ss)) =
    sum_list (map (entry_bytes ov) ss) + inherited (fst d) (map fst ss) + inherited (snd d) (map snd ss)"
  using assms
proof (induction d ss rule: vec_shift.induct)
  case (2 d s ss)
  let ?a = "str_move_assign (fst d) (fst s)" and ?b = "str_move_assign (snd d) (snd s)"
  have ok: "cstr_ok (fst s)" "cstr_ok (snd s)" using 2(4) by simp_all
  have "sum_list (map (entry_bytes ov) (vec_shift (snd ?a, snd ?b) ss)) =
      sum_list (map (entry_bytes ov) ss) + inherited (snd ?a) (map fst ss) + inherited (snd ?b) (map snd ss)"
    using 2(1) [of "(fst ?a, fst ?b)" "(snd ?a, snd ?b)"] 2(4) move_capacity(2) [OF 2(2) ok(1)] move_capacity(2) [OF 2(3) ok(2)]
    by (simp add: pair_move_assign_def Let_def)
  then show ?case
    using move_capacity(1) [OF 2(2) ok(1), of "map fst ss"] move_capacity(1) [OF 2(3) ok(2), of "map snd ss"]
    by (simp add: pair_move_assign_def Let_def entry_bytes_def [of ov s] entry_bytes_def [of ov "(fst ?a, fst ?b)"])
qed (simp add: inherited_def)

lemma vec_erase_at:
  "chars (fst p) \<notin> set (fnames before) \<Longrightarrow> vec_erase (chars (fst p)) (before @ p # after) = Some (p, before @ vec_shift p after)"
  by (induction before) auto

section \<open>Properties\<close>

text \<open>
  \<^bold>\<open>C28\<close>. Setting a field never fails on a well-formed hash, keeps it well formed
  (the tag matches the variant, the vector holds at most 64 fields, fields are distinct and the map is
  sorted), maps the field to the new value and nothing else, and reports whether the field is new; this
  includes the call that converts the vector to a map.
\<close>

theorem set_hash_updates:
  assumes "hash_wf h"
  shows "\<exists>h'. set_hash f v h = Inr (h', get_hash h f = Inr None) \<and> hash_wf h' \<and>
    (\<forall>g. get_hash h' g = (if g = f then Inr (Some v) else get_hash h g))"
proof -
  obtain h' where h': "set_hash f v h = Inr (h', f \<notin> dom (hash_map h))" "hash_wf h'"
    "hash_map h' = (hash_map h)(f \<mapsto> v)" using set_hash_ok [OF assms] by blast
  moreover have "get_hash h f = Inr None \<longleftrightarrow> f \<notin> dom (hash_map h)" using get_hash_ok [OF assms] by auto
  ultimately show ?thesis using get_hash_ok [OF assms] get_hash_ok [OF h'(2)] by auto
qed

theorem set_hash_updates_witness:
  "\<exists>h'. set_hash ''f'' ''v'' (new_hash_vec [] 0) = Inr (h', True) \<and> hash_wf h' \<and> get_hash h' ''f'' = Inr (Some ''v'')"
proof -
  have "hash_wf (new_hash_vec [] 0)" "get_hash (new_hash_vec [] 0) ''f'' = Inr None" by code_simp+
  with set_hash_updates [of "new_hash_vec [] 0" "''f''" "''v''"] show ?thesis by auto
qed

lemma put_loop_sso:
  assumes "hash_wf h" "sso_hash h" "hash_exact h" "list_all (\<lambda>(f, v). length f \<le> 15 \<and> length v \<le> 15) xs"
  shows "\<exists>h' n. put_loop set_hash xs h = Inr (h', n) \<and> hash_wf h' \<and> sso_hash h' \<and> hash_exact h'"
  using assms
proof (induction xs arbitrary: h)
  case (Cons x xs)
  obtain f v where x: "x = (f, v)" by (cases x)
  obtain h1 b where h1: "set_hash f v h = Inr (h1, b)" "hash_wf h1" using set_hash_ok [OF Cons.prems(1)] by blast
  have "length f \<le> 15" "length v \<le> 15" using Cons.prems(4) by (simp_all add: x)
  then have "sso_hash h1 \<and> hash_exact h1" using h1(1) by (rule set_hash_sso_exact [OF Cons.prems(1-3)])
  then obtain h2 n where h2: "put_loop set_hash xs h1 = Inr (h2, n)" "hash_wf h2 \<and> sso_hash h2 \<and> hash_exact h2"
    using Cons.IH [OF h1(2)] Cons.prems(4) by fastforce
  then have "put_loop set_hash (x # xs) h = Inr (h2, if b then Suc n else n)" by (simp add: x h1(1))
  with h2(2) show ?case by blast
qed simp

lemma del_loop_exact:
  assumes "hash_wf h" "sso_hash h" "hash_exact h"
  shows "\<exists>h' n. del_loop del_hash fs h = Inr (h', n) \<and> hash_exact h'"
  using assms
proof (induction fs arbitrary: h)
  case (Cons f fs)
  obtain h1 b where h1: "del_hash f h = Inr (h1, b)" "hash_wf h1" using del_hash_ok [OF Cons.prems(1)] by blast
  then have "sso_hash h1 \<and> hash_exact h1" using del_hash_sso_exact Cons.prems by blast
  then obtain h2 n where h2: "del_loop del_hash fs h1 = Inr (h2, n)" "hash_exact h2" using Cons.IH [OF h1(2)] by blast
  then have "del_loop del_hash (f # fs) h = Inr (h2, if b then Suc n else n)" by (simp add: h1(1))
  with h2(2) show ?case by blast
qed simp

text \<open>
  \<^bold>\<open>C39\<close>. Exactly when a delete from the vector miscounts: the erase moves the later
  entries down by one, and a string that fits the small-string buffer takes over the heap buffer it is moved
  into. So if the deleted field (or value) has a heap buffer and some later field (or value) is in its
  small-string buffer, the first such string keeps the buffer's excess capacity, which the counter no longer
  contains; it is then below the sum over the stored entries by that excess, and a later delete subtracts
  more than was ever added. In all other cases the counter stays exact.
\<close>

theorem long_strings_miscounted:
  assumes "hash_wf h" "htype h = VECTOR" "hash_exact h" "hash_bytes h < 2 ^ 64" "entries h = before @ p # after"
    "\<forall>(field, val)\<in>set (entries h). cstr_ok field \<and> cstr_ok val"
  shows "\<exists>h'. del_hash (chars (fst p)) h = Inr (h', True) \<and> plain (entries h') = plain (before @ after) \<and>
    hmemory_usage h' = of_nat (hash_bytes h') - of_nat (inherited (fst p) (map fst after) + inherited (snd p) (map snd after)) \<and>
    (hash_exact h' \<longleftrightarrow> inherited (fst p) (map fst after) = 0 \<and> inherited (snd p) (map snd after) = 0)"
proof -
  let ?e = "inherited (fst p) (map fst after) + inherited (snd p) (map snd after)"
  let ?v = "before @ vec_shift p after" and ?m = "hmemory_usage h - of_nat (entry_bytes HASH_ENTRY_OVERHEAD_VECTOR p)"
  let ?h = "h\<lparr>hdata := HVec ?v, hmemory_usage := ?m\<rparr>"
  have vec: "get_vec h = Inr (before @ p # after)" "distinct (fnames (before @ p # after))"
    using assms(1,2,5) by (cases h rule: hash_wf_cases; simp)+
  have ok: "cstr_ok (fst p)" "cstr_ok (snd p)" "\<forall>q\<in>set after. cstr_ok (fst q) \<and> cstr_ok (snd q)"
    using assms(6) by (auto simp: assms(5) split_beta)
  have del: "del_hash (chars (fst p)) h = Inr (?h, True)"
    using vec assms(2) by (simp add: del_hash_def vec_erase_at)
  have bytes: "hash_bytes h + ?e = hash_bytes ?h + entry_bytes HASH_ENTRY_OVERHEAD_VECTOR p"
    using vec_shift_bytes [OF ok, of HASH_ENTRY_OVERHEAD_VECTOR] assms(2,5)
    by (simp add: hash_bytes_def hash_overhead_def entries_def [of ?h])
  have sum: "(of_nat (hash_bytes h) :: size_t) + of_nat ?e = of_nat (hash_bytes ?h) + of_nat (entry_bytes HASH_ENTRY_OVERHEAD_VECTOR p)"
    unfolding of_nat_add [symmetric] bytes ..
  have "hmemory_usage h = of_nat (hash_bytes h)" using assms(3) by (simp add: hash_exact_def)
  then have "hmemory_usage ?h = of_nat (hash_bytes h) - of_nat (entry_bytes HASH_ENTRY_OVERHEAD_VECTOR p)" by simp
  also have "\<dots> = of_nat (hash_bytes ?h) - of_nat ?e"
    unfolding diff_eq_eq diff_add_eq [symmetric] using sum by (simp only: algebra_simps)
  finally have mem: "hmemory_usage ?h = of_nat (hash_bytes ?h) - of_nat ?e" .
  have "?e \<le> entry_bytes HASH_ENTRY_OVERHEAD_VECTOR p" by (auto simp: inherited_def entry_bytes_def)
  also have "\<dots> \<le> hash_bytes h" using assms(2,5) by (simp add: hash_bytes_def hash_overhead_def)
  finally have "?e < 2 ^ 64" using assms(4) by (rule le_less_trans)
  then have zero: "(of_nat ?e :: size_t) = 0 \<longleftrightarrow> ?e = 0" by (rule size_t_zero)
  have exact: "hash_exact ?h \<longleftrightarrow> ?e = 0" unfolding hash_exact_def mem zero [symmetric] by (rule diff_eq_self)
  have "plain (entries ?h) = plain (before @ after)" by (simp add: entries_def)
  with del mem exact show ?thesis by (intro exI [of _ ?h] conjI) (assumption | simp only: add_is_0)+
qed

theorem long_strings_miscounted_witness:
  "\<exists>h h'. put_loop set_hash [(replicate 40 (CHR ''a''), ''v''), (''b'', ''w'')] (new_hash_vec [] 0) = Inr (h, 2) \<and>
     del_hash (replicate 40 (CHR ''a'')) h = Inr (h', True) \<and> hmemory_usage h' = of_nat (hash_bytes h') - 25 \<and> \<not> hash_exact h'"
proof -
  let ?p = "(CStr (replicate 40 (CHR ''a'')) 40, CStr ''v'' 15)" and ?q = "(CStr ''b'' 15, CStr ''w'' 15)"
  let ?h = "\<lparr>htype = VECTOR, hdata = HVec [?p, ?q], hexpiry_time = 0, hmemory_usage = 213\<rparr>"
  have run: "put_loop set_hash [(replicate 40 (CHR ''a''), ''v''), (''b'', ''w'')] (new_hash_vec [] 0) = Inr (?h, 2)" by code_simp
  have "hash_wf ?h" "hash_exact ?h" "inherited (fst ?p) (map fst [?q]) = 25" "inherited (snd ?p) (map snd [?q]) = 0" by code_simp+
  moreover have "hash_bytes ?h = 213" by code_simp
  moreover have "\<forall>(field, val)\<in>set [?p, ?q]. cstr_ok field \<and> cstr_ok val" by (simp add: cstr_ok_def sso_capacity_def)
  ultimately obtain h' where "del_hash (chars (fst ?p)) ?h = Inr (h', True)" "hmemory_usage h' = of_nat (hash_bytes h') - 25" "\<not> hash_exact h'"
    using long_strings_miscounted [of ?h "[]" ?p "[?q]"] by (auto simp: entries_def)
  with run show ?thesis by (metis cstr.sel(1) fst_conv)
qed

end
