(* ===== verification/Druta_Store.thy ===== *)
theory Druta_Store
  imports Druta_Hash
begin

text \<open>
  The stored values of store.hpp: the type tag with the variant, the constructors with their memory
  estimates, and the node that the store owns and the LRU list links. Sizes of objects are those of
  the x86-64 libstdc++ ABI (\<open>sizeof(std::string) = 32\<close>, \<open>sizeof(void*) = 8\<close>,
  \<open>sizeof(DrutaNode) = 160\<close>).
\<close>

section \<open>Values\<close>

datatype ValueType = STRING | LIST | HASH | SET

datatype value_data =
    DString string
  | DList "string list"
  | DHash DrutaHash
  | DSet "string list"

record DrutaValue =
  vtype :: ValueType
  data :: value_data
  expiry_time :: int
  memory_usage :: size_t

definition calc_string_usage :: "string \<Rightarrow> nat" where
  "calc_string_usage s = copy_capacity s"

definition list_elem_bytes :: "string \<Rightarrow> nat" where
  "list_elem_bytes s = calc_string_usage s + 32 + 8"

definition set_elem_bytes :: "string \<Rightarrow> nat" where
  "set_elem_bytes s = copy_capacity s + 32 + 8 * 8"

definition new_string :: "string \<Rightarrow> int \<Rightarrow> DrutaValue" where
  "new_string d e = \<lparr>vtype = STRING, data = DString d, expiry_time = e,
     memory_usage = 32 + of_nat (calc_string_usage d)\<rparr>"

definition new_list :: "string list \<Rightarrow> int \<Rightarrow> DrutaValue" where
  "new_list l e = \<lparr>vtype = LIST, data = DList l, expiry_time = e,
     memory_usage = of_nat (sum_list (map list_elem_bytes l))\<rparr>"

definition new_hash :: "DrutaHash \<Rightarrow> int \<Rightarrow> DrutaValue" where
  "new_hash h e = \<lparr>vtype = HASH, data = DHash h, expiry_time = e, memory_usage = hmemory_usage h\<rparr>"

definition new_set :: "string list \<Rightarrow> int \<Rightarrow> DrutaValue" where
  "new_set s e = \<lparr>vtype = SET, data = DSet s, expiry_time = e,
     memory_usage = of_nat (sum_list (map set_elem_bytes s))\<rparr>"

definition new_empty :: "ValueType \<Rightarrow> DrutaValue" where
  "new_empty t = \<lparr>vtype = t,
     data = (case t of STRING \<Rightarrow> DString [] | LIST \<Rightarrow> DList []
             | HASH \<Rightarrow> DHash (new_hash_vec [] 0) | SET \<Rightarrow> DSet []),
     expiry_time = 0, memory_usage = 0\<rparr>"

definition get_string :: "DrutaValue \<Rightarrow> string res" where
  "get_string v = (case data v of DString s \<Rightarrow> Inr s | _ \<Rightarrow> Inl Bad_variant_access)"

definition get_list :: "DrutaValue \<Rightarrow> string list res" where
  "get_list v = (case data v of DList l \<Rightarrow> Inr l | _ \<Rightarrow> Inl Bad_variant_access)"

definition get_dhash :: "DrutaValue \<Rightarrow> DrutaHash res" where
  "get_dhash v = (case data v of DHash h \<Rightarrow> Inr h | _ \<Rightarrow> Inl Bad_variant_access)"

definition get_set :: "DrutaValue \<Rightarrow> string list res" where
  "get_set v = (case data v of DSet s \<Rightarrow> Inr s | _ \<Rightarrow> Inl Bad_variant_access)"

section \<open>Nodes\<close>

record DrutaNode =
  node_key :: string
  next_ptr :: "addr option"
  prev_ptr :: "addr option"
  node_value :: DrutaValue

definition sizeof_DrutaNode :: nat where
  "sizeof_DrutaNode = 160"

definition new_node :: "string \<Rightarrow> DrutaValue \<Rightarrow> DrutaNode" where
  "new_node k v = \<lparr>node_key = k, next_ptr = None, prev_ptr = None, node_value = v\<rparr>"

lemma new_node_sel [simp]:
  "node_key (new_node k v) = k" "node_value (new_node k v) = v"
  "next_ptr (new_node k v) = None" "prev_ptr (new_node k v) = None"
  by (simp_all add: new_node_def)

definition get_memory_usage :: "DrutaNode \<Rightarrow> size_t" where
  "get_memory_usage n = of_nat sizeof_DrutaNode + of_nat (copy_capacity (node_key n))
     + memory_usage (node_value n)"

section \<open>Well-formed values\<close>

text \<open>\<open>value_bytes\<close> is what \<open>memory_usage\<close> should hold: for strings, lists and sets it is
  computed from the contents; a hash brings its own counter.\<close>

definition value_bytes :: "DrutaValue \<Rightarrow> nat" where
  "value_bytes v = (case data v of
     DString s \<Rightarrow> 32 + calc_string_usage s
   | DList l \<Rightarrow> sum_list (map list_elem_bytes l)
   | DHash h \<Rightarrow> unat (hmemory_usage h)
   | DSet s \<Rightarrow> sum_list (map set_elem_bytes s))"

definition value_wf :: "DrutaValue \<Rightarrow> bool" where
  "value_wf v = (case data v of
     DString s \<Rightarrow> vtype v = STRING
   | DList l \<Rightarrow> vtype v = LIST
   | DHash h \<Rightarrow> vtype v = HASH \<and> hash_wf h
   | DSet s \<Rightarrow> vtype v = SET \<and> oset s)"

definition value_ok :: "DrutaValue \<Rightarrow> bool" where
  "value_ok v = (value_wf v \<and> unat (memory_usage v) = value_bytes v)"

lemma value_wf_getters:
  "value_wf v \<Longrightarrow> vtype v = STRING \<Longrightarrow> \<exists>s. data v = DString s \<and> get_string v = Inr s"
  "value_wf v \<Longrightarrow> vtype v = LIST \<Longrightarrow> \<exists>l. data v = DList l \<and> get_list v = Inr l"
  "value_wf v \<Longrightarrow> vtype v = HASH \<Longrightarrow> \<exists>h. data v = DHash h \<and> get_dhash v = Inr h \<and> hash_wf h"
  "value_wf v \<Longrightarrow> vtype v = SET \<Longrightarrow> \<exists>s. data v = DSet s \<and> get_set v = Inr s \<and> oset s"
  by (auto simp: value_wf_def get_string_def get_list_def get_dhash_def get_set_def
      split: value_data.splits)

lemma value_wf_data:
  "value_wf v \<Longrightarrow> data v = DString s \<Longrightarrow> vtype v = STRING"
  "value_wf v \<Longrightarrow> data v = DList l \<Longrightarrow> vtype v = LIST"
  "value_wf v \<Longrightarrow> data v = DHash h \<Longrightarrow> vtype v = HASH \<and> hash_wf h"
  "value_wf v \<Longrightarrow> data v = DSet t \<Longrightarrow> vtype v = SET \<and> oset t"
  by (simp_all add: value_wf_def)

lemma elem_bytes_bound:
  "list_elem_bytes s \<le> length s + 55" "set_elem_bytes s \<le> length s + 111"
  using copy_capacity_bound [of s] by (simp_all add: list_elem_bytes_def set_elem_bytes_def calc_string_usage_def)

text \<open>The size of a request, an upper bound on what its arguments can add to the accounting.\<close>

definition request_bytes :: "string list \<Rightarrow> nat" where
  "request_bytes args = sum_list (map (\<lambda>s. 2 * length s + 5000) args)"

lemma request_bytes_Cons [simp]: "request_bytes (s # args) = 2 * length s + 5000 + request_bytes args"
  by (simp add: request_bytes_def)

lemma request_bytes_Nil [simp]: "request_bytes [] = 0"
  by (simp add: request_bytes_def)

lemma request_bytes_append [simp]: "request_bytes (xs @ ys) = request_bytes xs + request_bytes ys"
  by (simp add: request_bytes_def)

lemma request_bytes_drop: "request_bytes (drop n args) \<le> request_bytes args"
  using request_bytes_append [of "take n args" "drop n args"] by simp

lemma request_bytes_mem: "s \<in> set args \<Longrightarrow> 2 * length s + 5000 \<le> request_bytes args"
  by (auto simp: request_bytes_def intro: member_le_sum_list)

lemma elems_bound:
  "sum_list (map list_elem_bytes l) \<le> request_bytes l"
  "sum_list (map set_elem_bytes l) \<le> request_bytes l"
proof (induction l)
  case (Cons s l)
  with elem_bytes_bound [of s] show
    "sum_list (map list_elem_bytes (s # l)) \<le> request_bytes (s # l)"
    "sum_list (map set_elem_bytes (s # l)) \<le> request_bytes (s # l)" by simp_all
qed simp_all

lemma value_ok_new_string:
  assumes "length s < 2 ^ 62"
  shows "value_ok (new_string s e)"
proof -
  have "32 + calc_string_usage s < 2 ^ 64"
    using assms copy_capacity_bound [of s] by (simp add: calc_string_usage_def)
  then have "unat (of_nat (32 + calc_string_usage s) :: size_t) = 32 + calc_string_usage s"
    by (rule unat_of_nat_size)
  then show ?thesis
    by (simp add: value_ok_def value_wf_def value_bytes_def new_string_def)
qed

lemma value_ok_new_list:
  assumes "request_bytes l < 2 ^ 64"
  shows "value_ok (new_list l e)"
proof -
  have "sum_list (map list_elem_bytes l) < 2 ^ 64"
    using assms elems_bound(1) [of l] by simp
  then show ?thesis
    by (simp add: value_ok_def value_wf_def value_bytes_def new_list_def unat_of_nat_size)
qed

lemma value_ok_new_set:
  assumes "sum_list (map set_elem_bytes s) < 2 ^ 64" "oset s"
  shows "value_ok (new_set s e)"
  using assms by (simp add: value_ok_def value_wf_def value_bytes_def new_set_def unat_of_nat_size)

lemma value_ok_empty: "t \<noteq> STRING \<Longrightarrow> value_ok (new_empty t)"
  by (cases t) (simp_all add: value_ok_def value_wf_def value_bytes_def new_empty_def new_hash_vec_def
      hash_wf_def entries_def)

end
