(* ===== verification/Druta_Lru.thy ===== *)
theory Druta_Lru
  imports Druta_Store
begin

text \<open>
  The key-value store with its LRU list (store.cpp, lru.hpp, lru.cpp). Nodes live on an explicit
  heap: \<open>kv_store\<close> owns them by address, \<open>HEAD\<close>, \<open>TAIL\<close> and the links inside the nodes alias
  the same addresses, erasing a key frees its node, and reading a freed address is the fault
  \<open>Use_after_free\<close>. The eviction loop is a \<open>while_option\<close>; a run that does not end is
  \<open>Divergence\<close>.

  The specification is a list of key/value pairs, least recently used first (\<open>cache\<close>); the
  invariant \<open>lru_repr\<close> ties the doubly linked list, the map and the heap to it.
\<close>

section \<open>State\<close>

record lru_state =
  kv_store :: "string \<rightharpoonup> addr"
  heap :: "addr \<rightharpoonup> DrutaNode"
  next_addr :: addr
  HEAD :: "addr option"
  TAIL :: "addr option"
  lru_size :: size_t
  current_memory_usage :: size_t

definition LRU_MAX_MEMORY :: nat where
  "LRU_MAX_MEMORY = 64 * 1024 * 1024"

definition init_lru :: lru_state where
  "init_lru = \<lparr>kv_store = Map.empty, heap = Map.empty, next_addr = 0, HEAD = None, TAIL = None,
     lru_size = 0, current_memory_usage = 0\<rparr>"

definition deref :: "addr \<Rightarrow> ('z) lru_state_scheme \<Rightarrow> DrutaNode res" where
  "deref a s = (case heap s a of None \<Rightarrow> Inl Use_after_free | Some n \<Rightarrow> Inr n)"

definition upd_node :: "addr \<Rightarrow> (DrutaNode \<Rightarrow> DrutaNode) \<Rightarrow> ('z) lru_state_scheme \<Rightarrow> ('z) lru_state_scheme res" where
  "upd_node a f s = rbind (deref a s) (\<lambda>n. Inr (s\<lparr>heap := (heap s)(a \<mapsto> f n)\<rparr>))"

text \<open>\<open>std::make_unique<DrutaNode>\<close> followed by \<open>kv_store[key] = std::move(new_node)\<close>: a fresh
  address; the node a key owned before is destroyed.\<close>

definition insert_node :: "string \<Rightarrow> DrutaValue \<Rightarrow> ('z) lru_state_scheme \<Rightarrow> ('z) lru_state_scheme \<times> addr" where
  "insert_node k v s =
     (let a = next_addr s;
          h = (case kv_store s k of None \<Rightarrow> heap s | Some old \<Rightarrow> (heap s)(old := None))
      in (s\<lparr>heap := h(a \<mapsto> new_node k v), kv_store := (kv_store s)(k \<mapsto> a), next_addr := Suc a\<rparr>, a))"

definition kv_erase :: "string \<Rightarrow> ('z) lru_state_scheme \<Rightarrow> ('z) lru_state_scheme" where
  "kv_erase k s = (case kv_store s k of
     None \<Rightarrow> s
   | Some a \<Rightarrow> s\<lparr>kv_store := (kv_store s)(k := None), heap := (heap s)(a := None)\<rparr>)"

definition kv_clear :: "('z) lru_state_scheme \<Rightarrow> ('z) lru_state_scheme" where
  "kv_clear s = s\<lparr>kv_store := Map.empty, heap := Map.empty\<rparr>"

section \<open>Operations\<close>

definition detach :: "addr \<Rightarrow> ('z) lru_state_scheme \<Rightarrow> ('z) lru_state_scheme res" where
  "detach a s =
     rbind (deref a s) (\<lambda>node.
     let prev_node = prev_ptr node; next_node = next_ptr node in
     rbind (case prev_node of
         Some p \<Rightarrow> upd_node p (\<lambda>n. n\<lparr>next_ptr := next_node\<rparr>) s
       | None \<Rightarrow> Inr (s\<lparr>TAIL := next_node\<rparr>)) (\<lambda>s1.
     rbind (case next_node of
         Some q \<Rightarrow> upd_node q (\<lambda>n. n\<lparr>prev_ptr := prev_node\<rparr>) s1
       | None \<Rightarrow> Inr (s1\<lparr>HEAD := prev_node\<rparr>)) (\<lambda>s2.
     upd_node a (\<lambda>n. n\<lparr>prev_ptr := None, next_ptr := None\<rparr>) s2)))"

definition attach_head :: "addr \<Rightarrow> ('z) lru_state_scheme \<Rightarrow> ('z) lru_state_scheme res" where
  "attach_head a s = (case HEAD s of
     None \<Rightarrow> Inr (s\<lparr>HEAD := Some a, TAIL := Some a\<rparr>)
   | Some h \<Rightarrow>
       rbind (upd_node a (\<lambda>n. n\<lparr>prev_ptr := Some h\<rparr>) s) (\<lambda>s1.
       rbind (upd_node h (\<lambda>n. n\<lparr>next_ptr := Some a\<rparr>) s1) (\<lambda>s2.
       Inr (s2\<lparr>HEAD := Some a\<rparr>))))"

definition evict_lru :: "('z) lru_state_scheme \<Rightarrow> ('z) lru_state_scheme res" where
  "evict_lru s = (case TAIL s of
     None \<Rightarrow> Inr s
   | Some a \<Rightarrow>
       rbind (deref a s) (\<lambda>node.
       rbind (detach a (s\<lparr>current_memory_usage := current_memory_usage s - get_memory_usage node\<rparr>)) (\<lambda>s1.
       rbind (deref a s1) (\<lambda>node1.
       let s2 = kv_erase (node_key node1) s1
       in Inr (s2\<lparr>lru_size := lru_size s2 - 1\<rparr>)))))"

text \<open>\<open>while (current_memory_usage > LRU_MAX_MEMORY && TAIL) evict_lru();\<close>\<close>

definition over_limit :: "('z) lru_state_scheme \<Rightarrow> bool" where
  "over_limit s = (of_nat LRU_MAX_MEMORY < current_memory_usage s \<and> TAIL s \<noteq> None)"

definition evict_loop :: "('z) lru_state_scheme \<Rightarrow> ('z) lru_state_scheme res" where
  "evict_loop s =
     (case while_option (\<lambda>r. case r of Inl e \<Rightarrow> False | Inr t \<Rightarrow> over_limit t)
                        (\<lambda>r. rbind r evict_lru) (Inr s) of
        None \<Rightarrow> Inl Divergence
      | Some r \<Rightarrow> r)"

definition add_lru :: "addr \<Rightarrow> ('z) lru_state_scheme \<Rightarrow> ('z) lru_state_scheme res" where
  "add_lru a s =
     rbind (deref a s) (\<lambda>node.
     rbind (attach_head a (s\<lparr>current_memory_usage := current_memory_usage s + get_memory_usage node\<rparr>)) (\<lambda>s1.
     evict_loop (s1\<lparr>lru_size := lru_size s1 + 1\<rparr>)))"

definition notify_memory_change :: "size_t \<Rightarrow> size_t \<Rightarrow> ('z) lru_state_scheme \<Rightarrow> ('z) lru_state_scheme res" where
  "notify_memory_change old_size new_size s =
     evict_loop
       (if old_size < new_size
        then s\<lparr>current_memory_usage := current_memory_usage s + (new_size - old_size)\<rparr>
        else let diff = old_size - new_size in
             if diff < current_memory_usage s
             then s\<lparr>current_memory_usage := current_memory_usage s - diff\<rparr>
             else s\<lparr>current_memory_usage := 0\<rparr>)"

definition touch_lru :: "addr \<Rightarrow> ('z) lru_state_scheme \<Rightarrow> ('z) lru_state_scheme res" where
  "touch_lru a s = (if HEAD s = Some a then Inr s else rbind (detach a s) (attach_head a))"

definition update_lru :: "addr \<Rightarrow> DrutaValue \<Rightarrow> ('z) lru_state_scheme \<Rightarrow> ('z) lru_state_scheme res" where
  "update_lru a v s =
     rbind (deref a s) (\<lambda>node.
     let old_size = get_memory_usage node in
     rbind (upd_node a (\<lambda>n. n\<lparr>node_value := v\<rparr>) s) (\<lambda>s1.
     rbind (deref a s1) (\<lambda>node1.
     let new_size = get_memory_usage node1 in
     rbind (notify_memory_change old_size new_size s1) (touch_lru a))))"

definition remove_from_lru :: "addr \<Rightarrow> ('z) lru_state_scheme \<Rightarrow> ('z) lru_state_scheme res" where
  "remove_from_lru a s =
     rbind (deref a s) (\<lambda>node.
     rbind (detach a (s\<lparr>current_memory_usage := current_memory_usage s - get_memory_usage node\<rparr>)) (\<lambda>s1.
     Inr (s1\<lparr>lru_size := lru_size s1 - 1\<rparr>)))"

definition clear_lru :: "('z) lru_state_scheme \<Rightarrow> ('z) lru_state_scheme" where
  "clear_lru s = s\<lparr>HEAD := None, TAIL := None, lru_size := 0, current_memory_usage := 0\<rparr>"

section \<open>Doubly linked segments\<close>

definition first_or :: "addr option \<Rightarrow> addr list \<Rightarrow> addr option" where
  "first_or q xs = (case xs of [] \<Rightarrow> q | x # _ \<Rightarrow> Some x)"

definition last_or :: "addr option \<Rightarrow> addr list \<Rightarrow> addr option" where
  "last_or p xs = (if xs = [] then p else Some (last xs))"

fun dll :: "(addr \<rightharpoonup> DrutaNode) \<Rightarrow> addr option \<Rightarrow> addr list \<Rightarrow> addr option \<Rightarrow> bool" where
  "dll h p [] q = True"
| "dll h p (a # as) q = (case h a of None \<Rightarrow> False
     | Some n \<Rightarrow> prev_ptr n = p \<and> next_ptr n = first_or q as \<and> dll h (Some a) as q)"

lemma first_or_simps [simp]:
  "first_or q [] = q" "first_or q (x # xs) = Some x"
  "first_or q (xs @ ys) = first_or (first_or q ys) xs"
  by (simp_all add: first_or_def split: list.split)

lemma last_or_simps [simp]:
  "last_or p [] = p" "last_or p (x # xs) = last_or (Some x) xs"
  "last_or p (xs @ ys) = last_or (last_or p xs) ys"
  by (simp_all add: last_or_def)

lemma dll_append [simp]:
  "dll h p (xs @ ys) q \<longleftrightarrow> dll h p xs (first_or q ys) \<and> dll h (last_or p xs) ys q"
  by (induction xs arbitrary: p) (auto split: option.splits)

lemma dll_frame [simp]: "a \<notin> set xs \<Longrightarrow> dll (h(a := z)) p xs q = dll h p xs q"
  by (induction xs arbitrary: p) (auto split: option.splits)

lemma dll_dom: "dll h p xs q \<Longrightarrow> a \<in> set xs \<Longrightarrow> a \<in> dom h"
  by (induction xs arbitrary: p) (auto split: option.splits)

lemma dll_snocE: "xs \<noteq> [] \<Longrightarrow> \<exists>ys y. xs = ys @ [y]"
  by (cases xs rule: rev_cases) auto

text \<open>The values in the nodes are irrelevant to the links.\<close>

lemma dll_value_upd:
  "h a = Some n \<Longrightarrow> dll (h(a \<mapsto> n\<lparr>node_value := v\<rparr>)) p xs q = dll h p xs q"
  by (induction xs arbitrary: p) (auto split: option.splits)

section \<open>Abstraction of the heap\<close>

text \<open>What a heap says about keys and values, with the links forgotten.\<close>

definition kvs :: "(addr \<rightharpoonup> DrutaNode) \<Rightarrow> addr \<rightharpoonup> (string \<times> DrutaValue)" where
  "kvs h a = map_option (\<lambda>n. (node_key n, node_value n)) (h a)"

lemma kvs_upd [simp]:
  "kvs (h(a \<mapsto> n)) = (kvs h)(a \<mapsto> (node_key n, node_value n))"
  "kvs (h(a := None)) = (kvs h)(a := None)"
  by (simp_all add: kvs_def fun_eq_iff)

lemma kvs_triv: "h a = Some n \<Longrightarrow> (kvs h)(a \<mapsto> (node_key n, node_value n)) = kvs h"
  by (auto simp: kvs_def fun_eq_iff)

lemma dom_kvs [simp]: "dom (kvs h) = dom h"
  by (auto simp: kvs_def)

lemma kvs_Some: "kvs h a = Some (k, v) \<longleftrightarrow> (\<exists>n. h a = Some n \<and> node_key n = k \<and> node_value n = v)"
  by (auto simp: kvs_def)

definition linked :: "('z) lru_state_scheme \<Rightarrow> addr list \<Rightarrow> bool" where
  "linked s as = (dll (heap s) None as None \<and> distinct as \<and>
     TAIL s = first_or None as \<and> HEAD s = last_or None as)"

lemma linked_node:
  assumes "linked s (xs @ a # ys)"
  obtains n where "heap s a = Some n" "prev_ptr n = last_or None xs" "next_ptr n = first_or None ys"
  using assms by (auto simp: linked_def split: option.splits)

definition links_only :: "('z) lru_state_scheme \<Rightarrow> ('z) lru_state_scheme \<Rightarrow> bool" where
  "links_only s s' = (kv_store s' = kv_store s \<and> kvs (heap s') = kvs (heap s) \<and>
     next_addr s' = next_addr s \<and> lru_size s' = lru_size s \<and>
     current_memory_usage s' = current_memory_usage s \<and> lru_state.more s' = lru_state.more s)"

lemma detach_ok:
  assumes "linked s (xs @ a # ys)"
  shows "\<exists>s' n. detach a s = Inr s' \<and> linked s' (xs @ ys) \<and> links_only s s' \<and>
    heap s' a = Some n \<and> prev_ptr n = None \<and> next_ptr n = None"
proof -
  from assms obtain n where n: "heap s a = Some n" "prev_ptr n = last_or None xs"
    "next_ptr n = first_or None ys" by (rule linked_node)
  note l = assms [unfolded linked_def]
  show ?thesis
  proof (cases xs rule: rev_cases)
    case Nil
    show ?thesis
    proof (cases ys)
      case Nil
      with \<open>xs = []\<close> n l show ?thesis
        by (auto simp: detach_def deref_def upd_node_def links_only_def linked_def kvs_triv)
    next
      case (Cons c cs)
      with l obtain m where m: "heap s c = Some m" by (auto split: option.splits)
      with \<open>xs = []\<close> Cons n l show ?thesis
        by (auto simp: detach_def deref_def upd_node_def links_only_def linked_def kvs_def fun_eq_iff)
    qed
  next
    case (snoc bs b)
    with l obtain k where k: "heap s b = Some k" by (auto split: option.splits)
    show ?thesis
    proof (cases ys)
      case Nil
      with snoc n k l show ?thesis
        by (auto simp: detach_def deref_def upd_node_def links_only_def linked_def kvs_def fun_eq_iff)
    next
      case (Cons c cs)
      with l obtain m where m: "heap s c = Some m" by (auto split: option.splits)
      with snoc Cons n k l show ?thesis
        by (auto simp: detach_def deref_def upd_node_def links_only_def linked_def kvs_def fun_eq_iff)
    qed
  qed
qed

lemma attach_head_ok:
  assumes "linked s as" "a \<notin> set as" "heap s a = Some n" "prev_ptr n = None" "next_ptr n = None"
  shows "\<exists>s'. attach_head a s = Inr s' \<and> linked s' (as @ [a]) \<and> links_only s s'"
proof (cases as rule: rev_cases)
  case Nil
  with assms show ?thesis by (auto simp: attach_head_def linked_def links_only_def)
next
  case (snoc bs b)
  with assms obtain k where k: "heap s b = Some k"
    by (auto simp: linked_def split: option.splits)
  have "HEAD s = Some b" "a \<noteq> b" "a \<notin> set bs" "b \<notin> set bs" using assms snoc by (auto simp: linked_def)
  with assms snoc k show ?thesis
    by (auto simp: attach_head_def linked_def deref_def upd_node_def links_only_def kvs_def fun_eq_iff)
qed

section \<open>The specification: a list of entries, least recently used first\<close>

type_synonym cache = "(string \<times> DrutaValue) list"

definition entry_size :: "string \<times> DrutaValue \<Rightarrow> nat" where
  "entry_size e = sizeof_DrutaNode + copy_capacity (fst e) + unat (memory_usage (snd e))"

definition cache_bytes :: "cache \<Rightarrow> nat" where
  "cache_bytes c = sum_list (map entry_size c)"

fun evict_spec :: "cache \<Rightarrow> cache" where
  "evict_spec [] = []"
| "evict_spec (e # c) = (if LRU_MAX_MEMORY < cache_bytes (e # c) then evict_spec c else e # c)"

definition cache_del :: "string \<Rightarrow> cache \<Rightarrow> cache" where
  "cache_del k c = filter (\<lambda>e. fst e \<noteq> k) c"

definition cache_upd :: "string \<Rightarrow> DrutaValue \<Rightarrow> cache \<Rightarrow> cache" where
  "cache_upd k v c = map (\<lambda>e. if fst e = k then (k, v) else e) c"

definition cache_touch :: "string \<Rightarrow> cache \<Rightarrow> cache" where
  "cache_touch k c = cache_del k c @ filter (\<lambda>e. fst e = k) c"

lemma cache_bytes_simps [simp]:
  "cache_bytes [] = 0" "cache_bytes (e # c) = entry_size e + cache_bytes c"
  "cache_bytes (c @ c') = cache_bytes c + cache_bytes c'"
  by (simp_all add: cache_bytes_def)

lemma evict_spec_bound: "cache_bytes (evict_spec c) \<le> LRU_MAX_MEMORY"
  by (induction c) auto

lemma evict_spec_id: "cache_bytes c \<le> LRU_MAX_MEMORY \<Longrightarrow> evict_spec c = c"
  by (cases c) auto

lemma evict_spec_suffix: "\<exists>n. evict_spec c = drop n c"
proof (induction c)
  case Nil
  then show ?case by simp
next
  case (Cons e c)
  then obtain n where "evict_spec c = drop n c" by blast
  then show ?case
    by (cases "LRU_MAX_MEMORY < cache_bytes (e # c)") (auto intro: exI [of _ "Suc n"] exI [of _ 0])
qed

text \<open>The eviction is minimal: it stops at the longest suffix that fits.\<close>

lemma evict_spec_longest:
  assumes "cache_bytes (drop n c) \<le> LRU_MAX_MEMORY"
  shows "length (drop n c) \<le> length (evict_spec c)"
  using assms
proof (induction c arbitrary: n)
  case Nil
  then show ?case by simp
next
  case (Cons e c)
  then show ?case by (cases n) auto
qed

definition contents :: "(addr \<rightharpoonup> DrutaNode) \<Rightarrow> addr list \<Rightarrow> cache" where
  "contents h as = map (\<lambda>a. the (kvs h a)) as"

lemma contents_simps [simp]:
  "contents h [] = []" "contents h (a # as) = the (kvs h a) # contents h as"
  "contents h (xs @ ys) = contents h xs @ contents h ys" "length (contents h as) = length as"
  by (simp_all add: contents_def)

definition lru_repr :: "('z) lru_state_scheme \<Rightarrow> addr list \<Rightarrow> cache \<Rightarrow> bool" where
  "lru_repr s as c = (linked s as \<and> set as = dom (heap s) \<and>
     (\<forall>k a. kv_store s k = Some a \<longleftrightarrow> (\<exists>v. kvs (heap s) a = Some (k, v))) \<and>
     c = contents (heap s) as \<and> lru_size s = of_nat (length as) \<and>
     (\<forall>a\<in>set as. a < next_addr s))"

definition lru_inv :: "('z) lru_state_scheme \<Rightarrow> addr list \<Rightarrow> cache \<Rightarrow> bool" where
  "lru_inv s as c = (lru_repr s as c \<and> current_memory_usage s = of_nat (cache_bytes c))"

lemma lru_reprD:
  assumes "lru_repr s as c"
  shows "linked s as" "set as = dom (heap s)"
    "kv_store s k = Some a \<longleftrightarrow> (\<exists>v. kvs (heap s) a = Some (k, v))"
    "c = contents (heap s) as" "lru_size s = of_nat (length as)" "b \<in> set as \<Longrightarrow> b < next_addr s"
  using assms by (auto simp: lru_repr_def)

lemma lru_reprI:
  assumes "linked s as" "set as = dom (heap s)"
    "\<And>k a. kv_store s k = Some a \<longleftrightarrow> (\<exists>v. kvs (heap s) a = Some (k, v))"
    "c = contents (heap s) as" "lru_size s = of_nat (length as)" "\<And>b. b \<in> set as \<Longrightarrow> b < next_addr s"
  shows "lru_repr s as c"
  using assms by (simp add: lru_repr_def)

lemma lru_repr_node:
  assumes "lru_repr s as c" "a \<in> set as"
  obtains k v n where "heap s a = Some n" "node_key n = k" "node_value n = v" "kvs (heap s) a = Some (k, v)"
    "kv_store s k = Some a" "(k, v) \<in> set c"
proof -
  from assms obtain n where n: "heap s a = Some n" by (auto simp: lru_repr_def)
  then have "kvs (heap s) a = Some (node_key n, node_value n)" by (simp add: kvs_def)
  moreover have "the (kvs (heap s) a) \<in> set c" using assms by (auto simp: lru_repr_def contents_def)
  ultimately show thesis using n assms(1) that by (auto simp: lru_repr_def)
qed

lemma lru_repr_keys:
  assumes "lru_repr s as c"
  shows "distinct (map fst c)" "k \<in> fst ` set c \<longleftrightarrow> k \<in> dom (kv_store s)"
proof -
  have inj: "inj_on (\<lambda>a. fst (the (kvs (heap s) a))) (set as)"
  proof (rule inj_onI)
    fix a b assume ab: "a \<in> set as" "b \<in> set as" "fst (the (kvs (heap s) a)) = fst (the (kvs (heap s) b))"
    obtain k v where "kvs (heap s) a = Some (k, v)" "kv_store s k = Some a"
      using lru_repr_node [OF assms ab(1)] by metis
    moreover obtain k' v' where "kvs (heap s) b = Some (k', v')" "kv_store s k' = Some b"
      using lru_repr_node [OF assms ab(2)] by metis
    ultimately show "a = b" using ab(3) by simp
  qed
  have c: "map fst c = map (\<lambda>a. fst (the (kvs (heap s) a))) as"
    using assms by (simp add: lru_repr_def contents_def)
  show "distinct (map fst c)"
    using inj assms unfolding c by (simp add: distinct_map lru_repr_def linked_def)
  show "k \<in> fst ` set c \<longleftrightarrow> k \<in> dom (kv_store s)"
  proof
    assume "k \<in> fst ` set c"
    moreover have "set c = (\<lambda>a. the (kvs (heap s) a)) ` set as"
      using assms by (simp add: lru_repr_def contents_def)
    ultimately obtain a where "a \<in> set as" "k = fst (the (kvs (heap s) a))" by auto
    then show "k \<in> dom (kv_store s)" using lru_repr_node [OF assms, of a] by (metis domI fst_conv option.sel)
  next
    assume "k \<in> dom (kv_store s)"
    then obtain a v where "kvs (heap s) a = Some (k, v)" using assms by (auto simp: lru_repr_def)
    moreover from this have "a \<in> set as" using assms by (auto simp: lru_repr_def kvs_def)
    ultimately show "k \<in> fst ` set c"
      using assms by (force simp: lru_repr_def contents_def)
  qed
qed

text \<open>Looking a key up in the store agrees with looking it up in the cache.\<close>

lemma lru_repr_find:
  assumes "lru_repr s as c" "kv_store s k = Some a"
  obtains n xs ys cs ds where "heap s a = Some n" "node_key n = k" "map_of c k = Some (node_value n)"
    "as = xs @ a # ys" "c = cs @ (k, node_value n) # ds" "length cs = length xs"
    "k \<notin> fst ` set cs" "k \<notin> fst ` set ds"
    "cs = contents (heap s) xs" "ds = contents (heap s) ys"
proof -
  from assms obtain v where v: "kvs (heap s) a = Some (k, v)" by (auto simp: lru_repr_def)
  then obtain n where n: "heap s a = Some n" "node_key n = k" "node_value n = v" by (auto simp: kvs_Some)
  then have "a \<in> set as" using assms by (auto simp: lru_repr_def)
  then obtain xs ys where as: "as = xs @ a # ys" by (meson split_list)
  let ?cs = "contents (heap s) xs" and ?ds = "contents (heap s) ys"
  have c: "c = ?cs @ (k, v) # ?ds"
    using assms(1) as v by (simp add: lru_repr_def contents_def)
  have d: "distinct (map fst c)" using lru_repr_keys [OF assms(1)] by simp
  then have nk: "k \<notin> fst ` set ?cs" "k \<notin> fst ` set ?ds" unfolding c by auto
  moreover have "map_of c k = Some v" using d unfolding c by (intro map_of_is_SomeI) auto
  ultimately show thesis
    using n as c by (intro that [of n xs ys ?cs ?ds]) (auto simp: contents_def)
qed

lemma lru_repr_lookup_None: "lru_repr s as c \<Longrightarrow> map_of c k = None \<longleftrightarrow> kv_store s k = None"
  using lru_repr_keys(2) [of s as c k] by (auto simp: map_of_eq_None_iff)

section \<open>The operations refine the specification\<close>

lemma links_only_simps:
  assumes "links_only s s'"
  shows "kv_store s' = kv_store s" "kvs (heap s') = kvs (heap s)" "next_addr s' = next_addr s"
    "lru_size s' = lru_size s" "current_memory_usage s' = current_memory_usage s"
    "lru_state.more s' = lru_state.more s" "dom (heap s') = dom (heap s)"
    "contents (heap s') = contents (heap s)"
  using assms arg_cong [of "kvs (heap s')" "kvs (heap s)" dom]
  by (auto simp: links_only_def contents_def fun_eq_iff)

lemma deref_Some [simp]: "heap s a = Some n \<Longrightarrow> deref a s = Inr n"
  by (simp add: deref_def)

lemma deref_freed [simp]: "heap s a = None \<Longrightarrow> deref a s = Inl Use_after_free"
  by (simp add: deref_def)

lemma get_memory_usage_entry: "get_memory_usage n = of_nat (entry_size (node_key n, node_value n))"
  by (simp add: get_memory_usage_def entry_size_def)

lemma linked_HEAD: "linked s as \<Longrightarrow> HEAD s = Some a \<Longrightarrow> a \<in> set as"
  by (cases as rule: rev_cases) (auto simp: linked_def)

lemma linked_cong:
  "heap s' = heap s \<Longrightarrow> HEAD s' = HEAD s \<Longrightarrow> TAIL s' = TAIL s \<Longrightarrow> linked s' as = linked s as"
  by (simp add: linked_def)

lemma kv_upd_repr:
  assumes "\<forall>k a. kv k = Some a \<longleftrightarrow> (\<exists>v. m a = Some (k, v))" "m a = Some (k, v)"
  shows "\<forall>j b. (kv(k := None)) j = Some b \<longleftrightarrow> (\<exists>v. (m(a := None)) b = Some (j, v))"
proof (intro allI)
  fix j b
  show "(kv(k := None)) j = Some b \<longleftrightarrow> (\<exists>v. (m(a := None)) b = Some (j, v))"
    using assms(1) [THEN spec, THEN spec, of j b] assms(1) [THEN spec, THEN spec, of k b]
      assms(1) [THEN spec, THEN spec, of k a] assms(2)
    by (cases "j = k"; cases "b = a") auto
qed

text \<open>Unlinking a node and erasing its key, the common tail of eviction and deletion.\<close>

lemma detach_erase_ok:
  assumes repr: "lru_repr s (xs @ a # ys) c" and n: "heap s a = Some n"
  shows "\<exists>s1. detach a s = Inr s1 \<and> links_only s s1 \<and>
    (\<exists>m. heap s1 a = Some m \<and> node_key m = node_key n \<and> node_value m = node_value n) \<and>
    lru_repr ((kv_erase (node_key n) s1)\<lparr>lru_size := lru_size s - 1\<rparr>) (xs @ ys)
      (contents (heap s) xs @ contents (heap s) ys)"
proof -
  have l: "linked s (xs @ a # ys)" using repr by (simp add: lru_repr_def)
  obtain s1 m where s1: "detach a s = Inr s1" "linked s1 (xs @ ys)" "links_only s s1"
    "heap s1 a = Some m" using detach_ok [OF l] by blast
  note lo = links_only_simps [OF s1(3)]
  have dist: "a \<notin> set xs" "a \<notin> set ys" using l by (auto simp: linked_def)
  have ka: "kvs (heap s) a = Some (node_key n, node_value n)" using n by (simp add: kvs_def)
  have m: "node_key m = node_key n" "node_value m = node_value n"
    using s1(4) ka lo(2) by (auto simp: kvs_def fun_eq_iff dest: spec [of _ a])
  have kv: "kv_store s (node_key n) = Some a" using repr ka by (auto simp: lru_repr_def)
  let ?s = "(kv_erase (node_key n) s1)\<lparr>lru_size := lru_size s - 1\<rparr>"
  let ?e = "kv_erase (node_key n) s1"
  have heap: "heap ?e = (heap s1)(a := None)" "kv_store ?e = (kv_store s)(node_key n := None)"
    "HEAD ?e = HEAD s1" "TAIL ?e = TAIL s1" "next_addr ?e = next_addr s"
    using kv lo by (simp_all add: kv_erase_def)
  have kvs: "kvs (heap ?e) = (kvs (heap s))(a := None)" using heap lo by simp
  have "linked ?s (xs @ ys)" using s1(2) dist by (simp add: linked_def heap)
  moreover have "set (xs @ ys) = dom (heap ?s)"
    using repr dist lo(7) by (auto simp: lru_repr_def heap)
  moreover have "\<forall>k b. kv_store ?s k = Some b \<longleftrightarrow> (\<exists>v. kvs (heap ?s) b = Some (k, v))"
    using kv_upd_repr [of "kv_store s" "kvs (heap s)" a "node_key n"] ka repr
    by (simp add: kvs heap lo(2) lru_repr_def)
  moreover have "contents (heap s) xs @ contents (heap s) ys = contents (heap ?s) (xs @ ys)"
    using dist by (auto simp: contents_def kvs)
  moreover have "\<forall>b\<in>set (xs @ ys). b < next_addr ?s" using repr by (simp add: lru_repr_def heap)
  moreover have "lru_size ?s = of_nat (length (xs @ ys))" using repr by (simp add: lru_repr_def)
  ultimately have "lru_repr ?s (xs @ ys) (contents (heap s) xs @ contents (heap s) ys)"
    by (simp only: lru_repr_def) blast
  with s1 m show ?thesis by blast
qed

lemma lru_repr_mem_upd [simp]:
  "lru_repr (s\<lparr>current_memory_usage := m\<rparr>) as c = lru_repr s as c"
  by (simp add: lru_repr_def linked_def)

lemma kv_erase_simps [simp]:
  "current_memory_usage (kv_erase k s) = current_memory_usage s"
  "lru_size (kv_erase k s) = lru_size s"
  "lru_state.more (kv_erase k s) = lru_state.more s"
  by (simp_all add: kv_erase_def split: option.splits)

lemma evict_lru_repr:
  assumes repr: "lru_repr s (a # as) ((k, v) # c)"
  shows "\<exists>s'. evict_lru s = Inr s' \<and> lru_repr s' as c \<and> lru_state.more s' = lru_state.more s \<and>
    current_memory_usage s' = current_memory_usage s - of_nat (entry_size (k, v))"
proof -
  have tl: "TAIL s = Some a" using repr by (simp add: lru_repr_def linked_def)
  obtain n where n: "heap s a = Some n" "node_key n = k" "node_value n = v"
    using repr by (auto simp: lru_repr_def contents_def kvs_def linked_def split: option.splits)
  let ?s = "s\<lparr>current_memory_usage := current_memory_usage s - get_memory_usage n\<rparr>"
  have repr': "lru_repr ?s ([] @ a # as) ((k, v) # c)" using repr by simp
  obtain s1 m where s1: "detach a ?s = Inr s1" "links_only ?s s1" "heap s1 a = Some m"
    "node_key m = k" "lru_repr ((kv_erase k s1)\<lparr>lru_size := lru_size ?s - 1\<rparr>) as (contents (heap ?s) as)"
    using detach_erase_ok [OF repr'] n by auto
  have c: "contents (heap s) as = c" using repr by (simp add: lru_repr_def contents_def)
  show ?thesis
    using tl n s1 c links_only_simps [OF s1(2)]
    by (auto simp: evict_lru_def Let_def get_memory_usage_entry)
qed

lemma evict_lru_ok:
  assumes inv: "lru_inv s (a # as) ((k, v) # c)"
  shows "\<exists>s'. evict_lru s = Inr s' \<and> lru_inv s' as c \<and> lru_state.more s' = lru_state.more s"
  using evict_lru_repr [of s a as k v c] inv by (auto simp: lru_inv_def)

lemma evict_loop_unfold:
  fixes s :: "('z) lru_state_scheme"
  shows "evict_loop s = (if over_limit s then rbind (evict_lru s) evict_loop else Inr s)"
proof (cases "over_limit s")
  case False
  then show ?thesis by (simp add: evict_loop_def while_option_unfold)
next
  case True
  have stop: "while_option (case_sum (\<lambda>e. False) over_limit) (\<lambda>r. rbind r evict_lru)
      (Inl e :: ('z) lru_state_scheme res) = Some (Inl e)" for e
    by (subst while_option_unfold) simp
  show ?thesis
    using True stop
    by (cases "evict_lru s") (simp_all add: evict_loop_def while_option_unfold [of _ _ "Inr s"])
qed

lemma evict_loop_ok:
  assumes "lru_inv s as c" "cache_bytes c < 2 ^ 64"
  shows "\<exists>s' n. evict_loop s = Inr s' \<and> lru_inv s' (drop n as) (evict_spec c) \<and>
    evict_spec c = drop n c \<and> lru_state.more s' = lru_state.more s"
  using assms
proof (induction c arbitrary: s as)
  case Nil
  then have "as = []" by (simp add: lru_inv_def lru_repr_def contents_def)
  then have "\<not> over_limit s" using Nil by (simp add: over_limit_def lru_inv_def lru_repr_def linked_def)
  with Nil \<open>as = []\<close> show ?case by (simp add: evict_loop_unfold)
next
  case (Cons e c)
  obtain a as' where as: "as = a # as'"
    using Cons.prems by (cases as) (auto simp: lru_inv_def lru_repr_def contents_def)
  obtain k v where e: "e = (k, v)" by (cases e)
  have cm: "current_memory_usage s = of_nat (cache_bytes (e # c))"
    using Cons.prems(1) by (simp only: lru_inv_def)
  have "TAIL s = Some a" using Cons.prems(1) as by (simp add: lru_inv_def lru_repr_def linked_def)
  then have over: "over_limit s \<longleftrightarrow> LRU_MAX_MEMORY < cache_bytes (e # c)"
    unfolding over_limit_def cm using Cons.prems(2)
    by (subst of_nat_size_less_iff) (simp_all add: LRU_MAX_MEMORY_def)
  show ?case
  proof (cases "over_limit s")
    case False
    with over Cons.prems show ?thesis
      by (intro exI [of _ s] exI [of _ 0]) (simp add: evict_loop_unfold)
  next
    case True
    obtain s1 where s1: "evict_lru s = Inr s1" "lru_inv s1 as' c" "lru_state.more s1 = lru_state.more s"
      using evict_lru_ok [of s a as' k v c] Cons.prems as e by blast
    have "cache_bytes c < 2 ^ 64" using Cons.prems by simp
    from Cons.IH [OF s1(2) this] obtain s' n where "evict_loop s1 = Inr s'"
      "lru_inv s' (drop n as') (evict_spec c)" "evict_spec c = drop n c"
      "lru_state.more s' = lru_state.more s1" by blast
    with True over s1 as show ?thesis
      by (intro exI [of _ s'] exI [of _ "Suc n"]) (simp add: evict_loop_unfold [of s])
  qed
qed

text \<open>Whatever the counter says, the loop ends and leaves a suffix of the list.\<close>

lemma evict_loop_repr:
  assumes "lru_repr s as c"
  shows "\<exists>s' n. evict_loop s = Inr s' \<and> lru_repr s' (drop n as) (drop n c) \<and>
    lru_state.more s' = lru_state.more s"
  using assms
proof (induction c arbitrary: s as)
  case Nil
  then have "as = []" by (simp add: lru_repr_def contents_def)
  then have "\<not> over_limit s" using Nil by (simp add: over_limit_def lru_repr_def linked_def)
  with Nil \<open>as = []\<close> show ?case by (simp add: evict_loop_unfold)
next
  case (Cons e c)
  obtain a as' where as: "as = a # as'"
    using Cons.prems by (cases as) (auto simp: lru_repr_def contents_def)
  obtain k v where e: "e = (k, v)" by (cases e)
  show ?case
  proof (cases "over_limit s")
    case False
    with Cons.prems show ?thesis
      by (intro exI [of _ s] exI [of _ 0]) (simp add: evict_loop_unfold)
  next
    case True
    obtain s1 where s1: "evict_lru s = Inr s1" "lru_repr s1 as' c" "lru_state.more s1 = lru_state.more s"
      using evict_lru_repr [of s a as' k v c] Cons.prems as e by blast
    from Cons.IH [OF s1(2)] obtain s' n where "evict_loop s1 = Inr s'"
      "lru_repr s' (drop n as') (drop n c)" "lru_state.more s' = lru_state.more s1" by blast
    with True s1 as show ?thesis
      by (intro exI [of _ s'] exI [of _ "Suc n"]) (simp add: evict_loop_unfold [of s])
  qed
qed

lemma cache_split_ops:
  assumes "k \<notin> fst ` set cs" "k \<notin> fst ` set ds"
  shows "cache_del k (cs @ (k, v) # ds) = cs @ ds"
    "cache_upd k w (cs @ (k, v) # ds) = cs @ (k, w) # ds"
    "cache_touch k (cs @ (k, v) # ds) = cs @ ds @ [(k, v)]"
proof -
  have f: "filter (\<lambda>e. fst e \<noteq> k) es = es" "filter (\<lambda>e. fst e = k) es = []"
    "map (\<lambda>e. if fst e = k then (k, w) else e) es = es" if "k \<notin> fst ` set es" for es :: cache
    using that by (induction es) auto
  show "cache_del k (cs @ (k, v) # ds) = cs @ ds"
    "cache_upd k w (cs @ (k, v) # ds) = cs @ (k, w) # ds"
    "cache_touch k (cs @ (k, v) # ds) = cs @ ds @ [(k, v)]"
    using f [OF assms(1)] f [OF assms(2)] by (simp_all add: cache_del_def cache_upd_def cache_touch_def)
qed

lemma touch_lru_repr:
  assumes repr: "lru_repr s as c" and kv: "kv_store s k = Some a"
  shows "\<exists>s' as'. touch_lru a s = Inr s' \<and> lru_repr s' as' (cache_touch k c) \<and> links_only s s'"
proof -
  obtain n xs ys cs ds where f: "heap s a = Some n" "node_key n = k" "as = xs @ a # ys"
    "c = cs @ (k, node_value n) # ds" "k \<notin> fst ` set cs" "k \<notin> fst ` set ds"
    "cs = contents (heap s) xs" "ds = contents (heap s) ys"
    using lru_repr_find [OF repr kv] by metis
  note repr = repr [unfolded f(3)]
  then have l: "linked s (xs @ a # ys)" by (simp only: lru_repr_def)
  note ct = cache_split_ops(3) [OF f(5,6), of "node_value n", folded f(4)]
  show ?thesis
  proof (cases "HEAD s = Some a")
    case True
    have "ys = []"
    proof (rule ccontr)
      assume "ys \<noteq> []"
      then have "last ys = a" using True l by (simp add: linked_def last_or_def)
      with \<open>ys \<noteq> []\<close> l show False by (auto simp: linked_def dest: last_in_set)
    qed
    then have "cache_touch k c = c" using ct f by simp
    with True repr show ?thesis by (auto simp: touch_lru_def links_only_def)
  next
    case False
    obtain s1 m where s1: "detach a s = Inr s1" "linked s1 (xs @ ys)" "links_only s s1"
      "heap s1 a = Some m" "prev_ptr m = None" "next_ptr m = None"
      using detach_ok [OF l] by blast
    have "a \<notin> set (xs @ ys)" using l by (auto simp: linked_def)
    from attach_head_ok [OF s1(2) this s1(4-6)] obtain s2 where
      s2: "attach_head a s1 = Inr s2" "linked s2 ((xs @ ys) @ [a])" "links_only s1 s2" by blast
    have lo: "links_only s s2" using s1(3) s2(3) by (simp add: links_only_def)
    note los = links_only_simps [OF lo]
    have cont: "cache_touch k c = contents (heap s2) (xs @ ys @ [a])"
      using ct f by (simp add: los kvs_def [of "heap s" a])
    have "lru_repr s2 (xs @ ys @ [a]) (cache_touch k c)"
    proof (rule lru_reprI)
      show "linked s2 (xs @ ys @ [a])" using s2(2) by simp
      show "set (xs @ ys @ [a]) = dom (heap s2)" using lru_reprD(2) [OF repr] los(7) by auto
      show "kv_store s2 j = Some b \<longleftrightarrow> (\<exists>v. kvs (heap s2) b = Some (j, v))" for j b
        using lru_reprD(3) [OF repr] by (simp add: los)
      show "lru_size s2 = of_nat (length (xs @ ys @ [a]))" using lru_reprD(5) [OF repr] by (simp add: los)
      show "b < next_addr s2" if "b \<in> set (xs @ ys @ [a])" for b
        using lru_reprD(6) [OF repr, of b] that by (auto simp: los)
    qed (rule cont)
    with False s1 s2 lo show ?thesis by (auto simp: touch_lru_def)
  qed
qed

lemma cache_bytes_touch: "cache_bytes (cache_touch k c) = cache_bytes c"
  by (induction c) (auto simp: cache_del_def cache_touch_def)

lemma touch_lru_ok:
  assumes inv: "lru_inv s as c" and kv: "kv_store s k = Some a"
  shows "\<exists>s' as'. touch_lru a s = Inr s' \<and> lru_inv s' as' (cache_touch k c) \<and>
    links_only s s'"
  using touch_lru_repr [of s as c k a] assms
  by (auto simp: lru_inv_def cache_bytes_touch links_only_def)

lemma touch_lru_freed: "heap s a = None \<Longrightarrow> HEAD s \<noteq> Some a \<Longrightarrow> touch_lru a s = Inl Use_after_free"
  by (simp add: touch_lru_def detach_def)

lemma remove_repr:
  assumes repr: "lru_repr s as c" and kv: "kv_store s k = Some a"
  shows "\<exists>s1 as' v. remove_from_lru a s = Inr s1 \<and> lru_repr (kv_erase k s1) as' (cache_del k c) \<and>
    lru_state.more s1 = lru_state.more s \<and> cache_bytes c = entry_size (k, v) + cache_bytes (cache_del k c) \<and>
    current_memory_usage s1 = current_memory_usage s - of_nat (entry_size (k, v))"
proof -
  obtain n xs ys cs ds where f: "heap s a = Some n" "node_key n = k" "as = xs @ a # ys"
    "c = cs @ (k, node_value n) # ds" "k \<notin> fst ` set cs" "k \<notin> fst ` set ds"
    "cs = contents (heap s) xs" "ds = contents (heap s) ys"
    using lru_repr_find [OF repr kv] by metis
  let ?s = "s\<lparr>current_memory_usage := current_memory_usage s - get_memory_usage n\<rparr>"
  have repr: "lru_repr ?s (xs @ a # ys) c" using repr f by simp
  obtain s1 where s1: "detach a ?s = Inr s1" "links_only ?s s1"
    "lru_repr ((kv_erase k s1)\<lparr>lru_size := lru_size s - 1\<rparr>) (xs @ ys) (cs @ ds)"
    using detach_erase_ok [OF repr, of n] f by auto
  have swap: "kv_erase k (s1\<lparr>lru_size := z\<rparr>) = (kv_erase k s1)\<lparr>lru_size := z\<rparr>" for z
    by (simp add: kv_erase_def split: option.splits)
  have r: "remove_from_lru a s = Inr (s1\<lparr>lru_size := lru_size s - 1\<rparr>)"
    using s1(1) f(1) links_only_simps(4) [OF s1(2)] by (simp add: remove_from_lru_def)
  have bytes: "cache_bytes c = entry_size (k, node_value n) + cache_bytes (cs @ ds)" by (simp add: f(4))
  show ?thesis
    using r s1(3) f(2) bytes links_only_simps(5,6) [OF s1(2)] cache_split_ops(1) [OF f(5,6), of "node_value n"]
    by (intro exI [of _ "s1\<lparr>lru_size := lru_size s - 1\<rparr>"] exI [of _ "xs @ ys"] exI [of _ "node_value n"])
       (simp add: swap get_memory_usage_entry f(4))
qed

lemma remove_ok:
  assumes inv: "lru_inv s as c" and kv: "kv_store s k = Some a"
  shows "\<exists>s' as'. rbind (remove_from_lru a s) (\<lambda>s1. Inr (kv_erase k s1)) = Inr s' \<and>
    lru_inv s' as' (cache_del k c) \<and> lru_state.more s' = lru_state.more s"
  using remove_repr [of s as c k a] assms by (auto simp: lru_inv_def)

lemma lru_repr_nth:
  assumes "lru_repr s as c" "i < length c"
  shows "kvs (heap s) (as ! i) = Some (c ! i)" "kv_store s (fst (c ! i)) = Some (as ! i)"
proof -
  have c: "c = contents (heap s) as" and len: "i < length as"
    using assms by (auto simp: lru_repr_def)
  have "as ! i \<in> set as" using len by simp
  then obtain k v where kv: "kvs (heap s) (as ! i) = Some (k, v)" "kv_store s k = Some (as ! i)"
    using lru_repr_node [OF assms(1)] by metis
  have "c ! i = (k, v)" using c len kv by (simp add: contents_def)
  with kv show "kvs (heap s) (as ! i) = Some (c ! i)" "kv_store s (fst (c ! i)) = Some (as ! i)"
    by simp_all
qed

lemma insert_node_fields:
  assumes "kv_store s k = None" "insert_node k v s = (s1, a)"
  shows "a = next_addr s" "heap s1 = (heap s)(a \<mapsto> new_node k v)"
    "kv_store s1 = (kv_store s)(k \<mapsto> a)" "next_addr s1 = Suc a" "HEAD s1 = HEAD s" "TAIL s1 = TAIL s"
    "lru_size s1 = lru_size s" "current_memory_usage s1 = current_memory_usage s"
    "lru_state.more s1 = lru_state.more s"
  using assms by (auto simp: insert_node_def Let_def)

text \<open>Inserting a fresh node for a missing key and adding it to the list, up to the eviction loop.\<close>

lemma insert_attach_repr:
  assumes repr: "lru_repr s as c" and new: "kv_store s k = None" and ins: "insert_node k v s = (s1, a)"
  shows "\<exists>s2. attach_head a (s1\<lparr>current_memory_usage := current_memory_usage s1 + get_memory_usage (new_node k v)\<rparr>)
      = Inr s2 \<and> lru_repr (s2\<lparr>lru_size := lru_size s2 + 1\<rparr>) (as @ [a]) (c @ [(k, v)]) \<and>
    lru_state.more s2 = lru_state.more s \<and>
    current_memory_usage s2 = current_memory_usage s + of_nat (entry_size (k, v))"
proof -
  note i = insert_node_fields [OF new ins]
  let ?s = "s1\<lparr>current_memory_usage := current_memory_usage s1 + get_memory_usage (new_node k v)\<rparr>"
  have nin: "a \<notin> set as" using repr i(1) by (auto simp: lru_repr_def)
  have l: "linked ?s as" using repr nin by (simp add: lru_repr_def linked_def i)
  have n: "heap ?s a = Some (new_node k v)" by (simp add: i)
  from attach_head_ok [OF l nin n] obtain s2 where s2: "attach_head a ?s = Inr s2"
    "linked s2 (as @ [a])" "links_only ?s s2" by (auto simp: new_node_def)
  note lo = links_only_simps [OF s2(3)]
  let ?t = "s2\<lparr>lru_size := lru_size s2 + 1\<rparr>"
  have kvs: "kvs (heap s2) = (kvs (heap s))(a \<mapsto> (k, v))"
    using lo(2) by (simp add: i new_node_def)
  have kvs_new: "kvs (heap s) b \<noteq> Some (k, w)" for b w
    using lru_reprD(3) [OF repr, of k b] new by auto
  have "kv_store ?t j = Some b \<longleftrightarrow> (\<exists>v. kvs (heap ?t) b = Some (j, v))" for j b
  proof -
    have "kvs (heap s) a = None" using repr nin by (auto simp: lru_repr_def kvs_def)
    moreover have "kv_store s j = Some b \<longleftrightarrow> (\<exists>v. kvs (heap s) b = Some (j, v))"
      using repr by (simp add: lru_repr_def)
    ultimately show "kv_store ?t j = Some b \<longleftrightarrow> (\<exists>v. kvs (heap ?t) b = Some (j, v))"
      using kvs_new [of b] by (cases "j = k"; cases "b = a") (auto simp: lo(1) kvs i)
  qed
  moreover have "contents (heap s2) as = c"
    using repr nin by (auto simp: lru_repr_def contents_def kvs)
  moreover have "set (as @ [a]) = dom (heap s2)"
    using lru_reprD(2) [OF repr] by (auto simp: lo(7) i)
  moreover have "b < next_addr ?t" if "b \<in> set (as @ [a])" for b
    using lru_reprD(6) [OF repr, of b] that by (auto simp: lo i)
  moreover have "linked ?t (as @ [a])" using s2(2) by (simp add: linked_def)
  ultimately have "lru_repr ?t (as @ [a]) (c @ [(k, v)])"
    using lru_reprD(5) [OF repr] by (intro lru_reprI) (simp_all add: lo i kvs)
  moreover have "current_memory_usage s2 = current_memory_usage s + of_nat (entry_size (k, v))"
    by (simp add: lo i get_memory_usage_entry new_node_def)
  ultimately show ?thesis using s2 lo i by auto
qed

lemma insert_attach_ok:
  assumes inv: "lru_inv s as c" and new: "kv_store s k = None" and ins: "insert_node k v s = (s1, a)"
  shows "\<exists>s2. attach_head a (s1\<lparr>current_memory_usage := current_memory_usage s1 + get_memory_usage (new_node k v)\<rparr>)
      = Inr s2 \<and> lru_inv (s2\<lparr>lru_size := lru_size s2 + 1\<rparr>) (as @ [a]) (c @ [(k, v)]) \<and>
    lru_state.more s2 = lru_state.more s"
proof -
  have "lru_repr s as c" using inv by (simp add: lru_inv_def)
  from insert_attach_repr [OF this new ins] inv show ?thesis by (auto simp: lru_inv_def)
qed

lemma add_lru_repr:
  assumes repr: "lru_repr s as c" and new: "kv_store s k = None" and ins: "insert_node k v s = (s1, a)"
  shows "\<exists>s' n. add_lru a s1 = Inr s' \<and> lru_repr s' (drop n (as @ [a])) (drop n (c @ [(k, v)])) \<and>
    lru_state.more s' = lru_state.more s"
proof -
  note i = insert_node_fields [OF new ins]
  obtain s2 where s2: "attach_head a (s1\<lparr>current_memory_usage := current_memory_usage s1 + get_memory_usage (new_node k v)\<rparr>)
      = Inr s2" "lru_repr (s2\<lparr>lru_size := lru_size s2 + 1\<rparr>) (as @ [a]) (c @ [(k, v)])"
    "lru_state.more s2 = lru_state.more s" using insert_attach_repr [OF repr new ins] by blast
  from evict_loop_repr [OF s2(2)] s2 show ?thesis by (auto simp: add_lru_def i)
qed

lemma add_lru_ok:
  assumes inv: "lru_inv s as c" and new: "kv_store s k = None" and ins: "insert_node k v s = (s1, a)"
    and bnd: "cache_bytes c + entry_size (k, v) < 2 ^ 64"
  shows "\<exists>s' n. add_lru a s1 = Inr s' \<and> lru_inv s' (drop n (as @ [a])) (evict_spec (c @ [(k, v)])) \<and>
    evict_spec (c @ [(k, v)]) = drop n (c @ [(k, v)]) \<and> lru_state.more s' = lru_state.more s"
proof -
  note i = insert_node_fields [OF new ins]
  obtain s2 where s2: "attach_head a (s1\<lparr>current_memory_usage := current_memory_usage s1 + get_memory_usage (new_node k v)\<rparr>)
      = Inr s2" "lru_inv (s2\<lparr>lru_size := lru_size s2 + 1\<rparr>) (as @ [a]) (c @ [(k, v)])"
    "lru_state.more s2 = lru_state.more s" using insert_attach_ok [OF inv new ins] by blast
  have "cache_bytes (c @ [(k, v)]) < 2 ^ 64" using bnd by simp
  from evict_loop_ok [OF s2(2) this] s2 show ?thesis
    by (auto simp: add_lru_def i)
qed

lemma upd_value_ok:
  assumes repr: "lru_repr s as c" and kv: "kv_store s k = Some a" and n: "heap s a = Some n"
  shows "lru_repr (s\<lparr>heap := (heap s)(a \<mapsto> n\<lparr>node_value := w\<rparr>)\<rparr>) as (cache_upd k w c)"
proof -
  let ?h = "(heap s)(a \<mapsto> n\<lparr>node_value := w\<rparr>)"
  obtain n' xs ys cs ds where f': "heap s a = Some n'" "node_key n' = k" "as = xs @ a # ys"
    "c = cs @ (k, node_value n') # ds" "k \<notin> fst ` set cs" "k \<notin> fst ` set ds"
    "cs = contents (heap s) xs" "ds = contents (heap s) ys"
    by (rule lru_repr_find [OF repr kv])
  have "n' = n" using f'(1) n by simp
  note f = f'(2-8) [unfolded this]
  have dist: "a \<notin> set xs" "a \<notin> set ys" using repr f(2) by (auto simp: lru_repr_def linked_def)
  have kvs: "kvs ?h = (kvs (heap s))(a \<mapsto> (k, w))" using f by simp
  have cont: "contents ?h xs = cs" "contents ?h ys = ds"
    using dist f by (auto simp: contents_def kvs)
  have ka: "kvs (heap s) a = Some (k, node_value n)" using n f(1) by (simp add: kvs_def)
  have upd: "cache_upd k w c = contents ?h as"
    unfolding f(3) cache_split_ops(2) [OF f(4,5)] by (simp add: f(1,2) cont kvs)
  have lk: "linked (s\<lparr>heap := ?h\<rparr>) as"
    using repr n by (simp add: lru_repr_def linked_def dll_value_upd)
  have own: "kv_store s j = Some b \<longleftrightarrow> (\<exists>v. kvs ?h b = Some (j, v))" for j b
    using lru_reprD(3) [OF repr, of j b] ka f(1) by (auto simp: kvs)
  have dm: "set as = dom ?h" using lru_reprD(2) [OF repr] n by auto
  show ?thesis
    using own dm lk upd lru_reprD(5,6) [OF repr] by (intro lru_reprI) simp_all
qed

lemma unat_minus_le: "b \<le> a \<Longrightarrow> unat (a - b) = unat a - unat b" for a b :: size_t
  by (simp add: unat_sub)

text \<open>\<open>notify_memory_change\<close> after a value changed from \<open>old\<close> to \<open>new\<close> bytes: the counter is brought
  in line with the contents (the branch that resets it to zero is taken only when that is the
  right value), then entries are evicted.\<close>

lemma notify_ok:
  assumes repr: "lru_repr s as c" and cur: "current_memory_usage s = of_nat b"
    and bal: "b + unat new = cache_bytes c + unat old" and bnd: "b < 2 ^ 64" "cache_bytes c < 2 ^ 64"
  shows "\<exists>s' n. notify_memory_change old new s = Inr s' \<and> lru_inv s' (drop n as) (evict_spec c) \<and>
    evict_spec c = drop n c \<and> lru_state.more s' = lru_state.more s"
proof -
  have step: "\<exists>s' n. evict_loop (s\<lparr>current_memory_usage := of_nat (cache_bytes c)\<rparr>) = Inr s' \<and>
      lru_inv s' (drop n as) (evict_spec c) \<and> evict_spec c = drop n c \<and>
      lru_state.more s' = lru_state.more s"
    using evict_loop_ok [of "s\<lparr>current_memory_usage := of_nat (cache_bytes c)\<rparr>" as c] repr bnd(2)
    by (simp add: lru_inv_def)
  show ?thesis
  proof (cases "old < new")
    case True
    have "of_nat b + (new - old) = (of_nat (cache_bytes c) :: size_t)"
      using arg_cong [OF bal, of "of_nat :: nat \<Rightarrow> size_t"] by (simp add: algebra_simps)
    then show ?thesis using True step cur by (simp add: notify_memory_change_def)
  next
    case False
    then have le: "new \<le> old" by simp
    have sub: "of_nat b - (old - new) = (of_nat (cache_bytes c) :: size_t)"
      using arg_cong [OF bal, of "of_nat :: nat \<Rightarrow> size_t"] by (simp add: algebra_simps)
    have d: "unat (old - new) = unat old - unat new" using le by (rule unat_minus_le)
    have ub: "unat (of_nat b :: size_t) = b" using bnd(1) by (rule unat_of_nat_size)
    show ?thesis
    proof (cases "old - new < current_memory_usage s")
      case True
      then show ?thesis using False step cur sub by (simp add: notify_memory_change_def Let_def)
    next
      case clamp: False
      then have "b \<le> unat old - unat new" using d ub cur by (simp add: word_less_nat_alt)
      then have "cache_bytes c = 0" using bal le by (simp add: word_le_nat_alt)
      then show ?thesis using False clamp step by (simp add: notify_memory_change_def Let_def)
    qed
  qed
qed

lemma distinct_drop_mem:
  assumes "distinct xs" "i < length xs"
  shows "xs ! i \<in> set (drop n xs) \<longleftrightarrow> n \<le> i"
  using assms by (auto simp: in_set_conv_nth nth_eq_iff_index_eq intro!: exI [of _ "i - n"])

text \<open>The tail shared by every command that changes a stored value: adjust the counter, evict, then
  touch the node. If the node's own key was evicted the touch reads freed memory.\<close>

lemma notify_touch_ok:
  assumes repr: "lru_repr s as c" and cur: "current_memory_usage s = of_nat b"
    and bal: "b + unat new = cache_bytes c + unat old" and bnd: "b < 2 ^ 64" "cache_bytes c < 2 ^ 64"
    and kv: "kv_store s k = Some a"
  shows "if k \<in> fst ` set (evict_spec c)
    then \<exists>s' as'. rbind (notify_memory_change old new s) (touch_lru a) = Inr s' \<and>
      lru_inv s' as' (cache_touch k (evict_spec c)) \<and> lru_state.more s' = lru_state.more s \<and>
      kv_store s' k = Some a \<and> kvs (heap s') a = map_option (Pair k) (map_of c k)
    else rbind (notify_memory_change old new s) (touch_lru a) = Inl Use_after_free"
proof -
  obtain s1 n where s1: "notify_memory_change old new s = Inr s1" "lru_inv s1 (drop n as) (evict_spec c)"
    "evict_spec c = drop n c" "lru_state.more s1 = lru_state.more s"
    using notify_ok [OF repr cur bal bnd] by blast
  have r1: "lru_repr s1 (drop n as) (evict_spec c)" using s1(2) by (simp add: lru_inv_def)
  obtain i where i: "i < length c" "c ! i = (k, the (map_of c k))" "as ! i = a" "map_of c k \<noteq> None"
  proof -
    obtain m :: DrutaNode and xs ys cs ds where f: "map_of c k = Some (node_value m)" "as = xs @ a # ys"
      "c = cs @ (k, node_value m) # ds" "length cs = length xs"
      by (rule lru_repr_find [OF repr kv]) blast
    then show thesis by (intro that [of "length xs"]) (auto simp: nth_append)
  qed
  have dist: "distinct (map fst c)" "distinct as" "length as = length c"
    using lru_repr_keys(1) [OF repr] lru_reprD(1,4) [OF repr] by (simp_all add: linked_def)
  have mem: "k \<in> fst ` set (evict_spec c) \<longleftrightarrow> n \<le> i"
    using distinct_drop_mem [OF dist(1), of i n] i(1,2) unfolding s1(3) by (simp flip: drop_map set_map)
  show ?thesis
  proof (cases "n \<le> i")
    case True
    have l: "i - n < length (evict_spec c)" "evict_spec c ! (i - n) = c ! i" "drop n as ! (i - n) = a"
      using True i dist(3) s1(3) by (auto simp: nth_drop)
    have kv1: "kv_store s1 k = Some a" "kvs (heap s1) a = Some (c ! i)"
      using lru_repr_nth [OF r1 l(1)] l i by simp_all
    from touch_lru_ok [OF s1(2) kv1(1)] obtain s2 as' where "touch_lru a s1 = Inr s2"
      "lru_inv s2 as' (cache_touch k (evict_spec c))" "links_only s1 s2" by blast
    then show ?thesis using True mem s1 kv1 i by (auto simp: links_only_def)
  next
    case False
    have nin: "a \<notin> set (drop n as)" using distinct_drop_mem [OF dist(2), of i n] i(1,3) dist(3) False by simp
    then have "heap s1 a = None" using lru_reprD(2) [OF r1] by auto
    moreover have "HEAD s1 \<noteq> Some a"
      using linked_HEAD [OF lru_reprD(1) [OF r1]] nin by blast
    ultimately show ?thesis using False mem s1 touch_lru_freed [of s1 a] by simp
  qed
qed

text \<open>The same tail with no assumption about the counter.\<close>

lemma notify_repr:
  assumes "lru_repr s as c"
  shows "\<exists>s' n. notify_memory_change old new s = Inr s' \<and> lru_repr s' (drop n as) (drop n c) \<and>
    lru_state.more s' = lru_state.more s"
  using assms evict_loop_repr [of "s\<lparr>current_memory_usage := m\<rparr>" as c for m]
  by (simp add: notify_memory_change_def Let_def)

lemma notify_touch_repr:
  assumes repr: "lru_repr s as c" and kv: "kv_store s k = Some a"
  shows "rbind (notify_memory_change old new s) (touch_lru a) = Inl Use_after_free \<or>
    (\<exists>s' as' c'. rbind (notify_memory_change old new s) (touch_lru a) = Inr s' \<and> lru_repr s' as' c' \<and>
      set c' \<subseteq> set c \<and> lru_state.more s' = lru_state.more s \<and> kv_store s' k = Some a)"
proof -
  obtain s1 n where s1: "notify_memory_change old new s = Inr s1" "lru_repr s1 (drop n as) (drop n c)"
    "lru_state.more s1 = lru_state.more s" using notify_repr [OF repr] by blast
  have mem: "a \<in> set (drop n as) \<Longrightarrow> kv_store s1 k = Some a"
  proof -
    assume "a \<in> set (drop n as)"
    then obtain i where "i < length (drop n as)" "drop n as ! i = a" by (metis in_set_conv_nth)
    then have i: "n + i < length as" "as ! (n + i) = a" by simp_all
    have len: "length as = length c" using lru_reprD(4) [OF repr] by simp
    have "kvs (heap s) a = Some (c ! (n + i))" using lru_repr_nth(1) [OF repr, of "n + i"] i len by simp
    moreover have "\<exists>v. kvs (heap s) a = Some (k, v)" using lru_reprD(3) [OF repr] kv by simp
    ultimately have "fst (c ! (n + i)) = k" by auto
    then show ?thesis using lru_repr_nth(2) [OF s1(2), of i] i len by simp
  qed
  show ?thesis
  proof (cases "a \<in> set (drop n as)")
    case True
    from touch_lru_repr [OF s1(2) mem [OF True]] obtain s2 as' where s2: "touch_lru a s1 = Inr s2"
      "lru_repr s2 as' (cache_touch k (drop n c))" "links_only s1 s2" by blast
    have "set (cache_touch k (drop n c)) \<subseteq> set c"
      by (auto simp: cache_touch_def cache_del_def dest: in_set_dropD)
    then show ?thesis using s1 s2 mem [OF True] links_only_simps [OF s2(3)] by auto
  next
    case False
    then have "heap s1 a = None" "HEAD s1 \<noteq> Some a"
      using lru_reprD(1,2) [OF s1(2)] linked_HEAD [of s1 "drop n as" a] by auto
    then show ?thesis using s1 touch_lru_freed [of s1 a] by simp
  qed
qed

section \<open>The store as an erasable map\<close>

text \<open>What a client sees of the store: lookups and deletions (GET, DEL) as an \<open>erasable_map\<close>.\<close>

definition kv_get :: "('z) lru_state_scheme \<Rightarrow> string \<Rightarrow> DrutaValue option res" where
  "kv_get s k = (case kv_store s k of None \<Rightarrow> Inr None
     | Some a \<Rightarrow> rbind (deref a s) (\<lambda>n. Inr (Some (node_value n))))"

definition kv_del :: "string \<Rightarrow> ('z) lru_state_scheme \<Rightarrow> (('z) lru_state_scheme \<times> bool) res" where
  "kv_del k s = (case kv_store s k of
     None \<Rightarrow> Inr (s, False)
   | Some a \<Rightarrow> rbind (remove_from_lru a s) (\<lambda>s1. Inr (kv_erase k s1, True)))"

definition kv_view :: "('z) lru_state_scheme \<Rightarrow> string \<rightharpoonup> DrutaValue" where
  "kv_view s k = (case kv_store s k of None \<Rightarrow> None | Some a \<Rightarrow> map_option node_value (heap s a))"

definition lru_ok :: "('z) lru_state_scheme \<Rightarrow> bool" where
  "lru_ok s = (\<exists>as c. lru_inv s as c)"

lemma kv_view_cache: "lru_repr s as c \<Longrightarrow> kv_view s = map_of c"
proof
  fix k assume r: "lru_repr s as c"
  show "kv_view s k = map_of c k"
  proof (cases "kv_store s k")
    case None
    then show ?thesis using lru_repr_lookup_None [OF r, of k] by (simp add: kv_view_def)
  next
    case (Some a)
    obtain n :: DrutaNode where "heap s a = Some n" "map_of c k = Some (node_value n)"
      by (rule lru_repr_find [OF r Some]) blast
    with Some show ?thesis by (simp add: kv_view_def)
  qed
qed

lemma map_of_cache_del: "map_of (cache_del k c) = (map_of c)(k := None)"
  by (simp add: cache_del_def map_of_filter_neq)

lemma kv_del_cache:
  assumes "lru_inv s as c"
  shows "\<exists>s' as'. kv_del k s = Inr (s', k \<in> dom (kv_store s)) \<and> lru_inv s' as' (cache_del k c) \<and>
    lru_state.more s' = lru_state.more s"
proof (cases "kv_store s k")
  case None
  have "lru_repr s as c" using assms by (simp add: lru_inv_def)
  from lru_repr_keys(2) [OF this, of k] None have "k \<notin> fst ` set c" by auto
  then have "cache_del k c = c" by (force simp: cache_del_def filter_id_conv)
  with None assms show ?thesis by (auto simp: kv_del_def)
next
  case (Some a)
  from remove_ok [OF assms Some] obtain s' as' where
    "rbind (remove_from_lru a s) (\<lambda>s1. Inr (kv_erase k s1)) = Inr s'" "lru_inv s' as' (cache_del k c)"
    "lru_state.more s' = lru_state.more s" by blast
  with Some show ?thesis by (auto simp: kv_del_def)
qed

interpretation kv_map: erasable_map kv_get kv_del kv_view lru_ok
proof
  fix s :: "('z) lru_state_scheme" and k
  assume "lru_ok s"
  then obtain as c where inv: "lru_inv s as c" by (auto simp: lru_ok_def)
  then have r: "lru_repr s as c" by (simp add: lru_inv_def)
  show "kv_get s k = Inr (kv_view s k)"
  proof (cases "kv_store s k")
    case (Some a)
    obtain n :: DrutaNode where "heap s a = Some n" by (rule lru_repr_find [OF r Some]) blast
    with Some show ?thesis by (simp add: kv_get_def kv_view_def)
  qed (simp add: kv_get_def kv_view_def)
  obtain s' as' where s': "kv_del k s = Inr (s', k \<in> dom (kv_store s))" "lru_inv s' as' (cache_del k c)"
    using kv_del_cache [OF inv] by blast
  have "lru_repr s' as' (cache_del k c)" using s'(2) by (simp add: lru_inv_def)
  then have "kv_view s' = (kv_view s)(k := None)"
    using kv_view_cache [OF r] by (simp add: kv_view_cache map_of_cache_del)
  moreover have "dom (kv_view s) = dom (kv_store s)"
    using lru_repr_keys(2) [OF r] kv_view_cache [OF r] by (auto simp: dom_map_of_conv_image_fst)
  ultimately show "\<exists>s'. kv_del k s = Inr (s', k \<in> dom (kv_view s)) \<and> lru_ok s' \<and>
      kv_view s' = (kv_view s)(k := None)"
    using s' by (auto simp: lru_ok_def)
qed

section \<open>Properties\<close>

lemma evict_spec_minimal: "\<exists>n\<le>length c. evict_spec c = drop n c \<and> (\<forall>m<n. LRU_MAX_MEMORY < cache_bytes (drop m c))"
proof (induction c)
  case (Cons e c)
  then obtain n where n: "n \<le> length c" "evict_spec c = drop n c" "\<forall>m<n. LRU_MAX_MEMORY < cache_bytes (drop m c)" by blast
  show ?case
  proof (cases "LRU_MAX_MEMORY < cache_bytes (e # c)")
    case True
    then have "\<forall>m<Suc n. LRU_MAX_MEMORY < cache_bytes (drop m (e # c))" using n(3) by (auto simp: less_Suc_eq_0_disj)
    then show ?thesis using True n(1,2) by (intro exI [of _ "Suc n"]) simp
  next
    case False
    then show ?thesis by (intro exI [of _ 0]) simp
  qed
qed simp

lemma drop_eq_drop: "drop n xs = drop m xs \<Longrightarrow> length ys = length xs \<Longrightarrow> drop n ys = drop m ys"
proof -
  assume "drop n xs = drop m xs" "length ys = length xs"
  then have "length xs - n = length xs - m" "length ys = length xs" by (metis length_drop)+
  then have "n = m \<or> length ys \<le> n \<and> length ys \<le> m" by linarith
  then show ?thesis by auto
qed

text \<open>
  \<^bold>\<open>C12\<close>. Linking a new node as the most recently used one and evicting keeps the
  structure (list, index, size and byte counter agree), removes the shortest prefix of least recently
  used entries that brings the store within the limit of 64 MiB, and nothing else.
\<close>

theorem add_lru_evicts_minimally:
  assumes "lru_inv s as c" "kv_store s k = None" "insert_node k v s = (s1, a)" "cache_bytes c + entry_size (k, v) < 2 ^ 64"
  shows "\<exists>s' n. add_lru a s1 = Inr s' \<and> lru_inv s' (drop n (as @ [a])) (drop n (c @ [(k, v)])) \<and>
    cache_bytes (drop n (c @ [(k, v)])) \<le> LRU_MAX_MEMORY \<and>
    (\<forall>m<n. LRU_MAX_MEMORY < cache_bytes (drop m (c @ [(k, v)]))) \<and> lru_state.more s' = lru_state.more s"
proof -
  obtain s' n where s': "add_lru a s1 = Inr s'" "lru_inv s' (drop n (as @ [a])) (evict_spec (c @ [(k, v)]))"
    "evict_spec (c @ [(k, v)]) = drop n (c @ [(k, v)])" "lru_state.more s' = lru_state.more s"
    using add_lru_ok [OF assms] by blast
  obtain m where m: "evict_spec (c @ [(k, v)]) = drop m (c @ [(k, v)])"
    "\<forall>i<m. LRU_MAX_MEMORY < cache_bytes (drop i (c @ [(k, v)]))" using evict_spec_minimal by blast
  have "length (as @ [a]) = length (c @ [(k, v)])" using assms(1) by (auto simp: lru_inv_def lru_repr_def)
  then have "drop n (as @ [a]) = drop m (as @ [a])" using s'(3) m(1) by (metis drop_eq_drop)
  then have "lru_inv s' (drop m (as @ [a])) (drop m (c @ [(k, v)]))" using s'(2) unfolding m(1) by metis
  moreover have "cache_bytes (drop m (c @ [(k, v)])) \<le> LRU_MAX_MEMORY" using evict_spec_bound [of "c @ [(k, v)]"] unfolding m(1) .
  ultimately show ?thesis using s'(1,4) m(2) by blast
qed

theorem add_lru_evicts_minimally_witness:
  "\<exists>s' n. add_lru 0 (fst (insert_node ''k'' (new_string ''v'' 0) init_lru)) = Inr s' \<and>
     cache_bytes (drop n [(''k'', new_string ''v'' 0)]) \<le> LRU_MAX_MEMORY \<and>
     lru_inv s' (drop n [0]) (drop n [(''k'', new_string ''v'' 0)])"
proof -
  have "lru_inv init_lru [] []" by (simp add: init_lru_def lru_inv_def lru_repr_def linked_def kvs_def)
  moreover have "insert_node ''k'' (new_string ''v'' 0) init_lru = (fst (insert_node ''k'' (new_string ''v'' 0) init_lru), 0)"
    by (simp add: insert_node_def init_lru_def Let_def)
  moreover have "entry_size (''k'', new_string ''v'' 0) = 222" by code_simp
  ultimately show ?thesis
    using add_lru_evicts_minimally [of init_lru "[]" "[]" "''k''" "new_string ''v'' 0" "fst (insert_node ''k'' (new_string ''v'' 0) init_lru)" 0]
    by (auto simp: init_lru_def)
qed

text \<open>
  \<^bold>\<open>C13\<close>. Touching a stored node relinks it as the most recently used one: the
  entry goes to the end, the order of all others is kept, and no key, value or counter changes.
\<close>

theorem touch_lru_most_recent:
  assumes "lru_inv s as c" "kv_store s k = Some a"
  shows "\<exists>s' as' v. touch_lru a s = Inr s' \<and> map_of c k = Some v \<and>
    lru_inv s' as' (filter (\<lambda>e. fst e \<noteq> k) c @ [(k, v)]) \<and>
    kv_store s' = kv_store s \<and> current_memory_usage s' = current_memory_usage s \<and> lru_state.more s' = lru_state.more s"
proof -
  obtain s' as' where s': "touch_lru a s = Inr s'" "lru_inv s' as' (cache_touch k c)" "links_only s s'"
    using touch_lru_ok [OF assms] by blast
  have repr: "lru_repr s as c" using assms(1) by (simp add: lru_inv_def)
  obtain v cs ds where v: "map_of c k = Some v" "c = cs @ (k, v) # ds" "k \<notin> fst ` set cs" "k \<notin> fst ` set ds"
    by (metis lru_repr_find [OF repr assms(2)])
  have "cache_touch k c = filter (\<lambda>e. fst e \<noteq> k) c @ [(k, v)]"
    unfolding v(2) cache_split_ops(3) [OF v(3,4)] using cache_split_ops(1) [OF v(3,4), of v] by (simp add: cache_del_def)
  then show ?thesis using s' v(1) links_only_simps(1,5,6) [OF s'(3)] by auto
qed

theorem touch_lru_most_recent_witness:
  "\<exists>s as. lru_inv s as [(''a'', new_string ''1'' 0), (''b'', new_string ''2'' 0)] \<and>
     (\<exists>a s' as'. touch_lru a (s :: lru_state) = Inr s' \<and>
       lru_inv s' as' [(''b'', new_string ''2'' 0), (''a'', new_string ''1'' 0)])"
proof -
  let ?v = "new_string ''1'' 0" and ?w = "new_string ''2'' 0"
  let ?s = "\<lparr>kv_store = [''a'' \<mapsto> 0, ''b'' \<mapsto> 1],
     heap = [0 \<mapsto> (new_node ''a'' ?v)\<lparr>next_ptr := Some 1\<rparr>, 1 \<mapsto> (new_node ''b'' ?w)\<lparr>prev_ptr := Some 0\<rparr>],
     next_addr = 2, HEAD = Some 1, TAIL = Some 0, lru_size = 2, current_memory_usage = 444\<rparr>"
  have "entry_size (''a'', ?v) = 222" "entry_size (''b'', ?w) = 222" by code_simp+
  then have "lru_inv ?s [0, 1] [(''a'', ?v), (''b'', ?w)]"
    by (auto simp: lru_inv_def lru_repr_def linked_def kvs_def split: if_splits)
  with touch_lru_most_recent [OF this, of "''a''" 0] show ?thesis by auto
qed

text \<open>
  \<^bold>\<open>C14\<close>. The eviction loop ends without a fault whatever the byte counter holds, also
  one that has been corrupted or has wrapped around: it stops at the latest when the list is empty, and
  what it leaves is a suffix of the list with the index still in agreement.
\<close>

theorem eviction_terminates:
  assumes "lru_repr s as c"
  shows "\<exists>s' n. evict_loop s = Inr s' \<and> lru_repr s' (drop n as) (drop n c) \<and> lru_state.more s' = lru_state.more s"
  using assms by (rule evict_loop_repr)

theorem eviction_terminates_witness:
  "\<exists>s' n. evict_loop (init_lru\<lparr>current_memory_usage := - 25\<rparr>) = Inr s' \<and> lru_repr s' (drop n []) (drop n [])"
proof -
  have "lru_repr (init_lru\<lparr>current_memory_usage := - 25\<rparr>) [] []"
    by (simp add: init_lru_def lru_repr_def linked_def kvs_def)
  from eviction_terminates [OF this] show ?thesis by blast
qed

end
