(* ===== verification/Resp.thy ===== *)
theory Resp
  imports Druta_Store
begin

text \<open>
  The RESP protocol: the encoder of parser\_resp.cpp and aof.cpp (\<open>resp_bulk_string\<close>,
  \<open>format_resp_command\<close>) and the incremental parser \<open>RespParser\<close>. The parser is a state machine
  over single bytes; the command handler it calls is an argument \<open>h\<close> of the model, so that the
  same definition serves live clients and the replay of the log. \<open>std::stoi\<close> throws on a
  malformed array length and nothing catches it: that branch is \<open>Uncaught_exception\<close>.

  What a handler may rely on, and what it must keep, is the locale \<open>request_handler\<close>.
\<close>

section \<open>Encoder\<close>

definition LF :: char where "LF = CHR 0x0A"
definition CR :: char where "CR = CHR 0x0D"

definition crlf :: string where
  "crlf = [CR, LF]"

definition resp_bulk_string :: "string \<Rightarrow> string \<Rightarrow> string" where
  "resp_bulk_string res val = res @ ''$'' @ to_string (length val) @ crlf @ val @ crlf"

definition format_resp_command :: "string list \<Rightarrow> string" where
  "format_resp_command args =
     fold (\<lambda>arg res. resp_bulk_string res arg) args (''*'' @ to_string (length args) @ crlf)"

definition bulk :: "string \<Rightarrow> string" where
  "bulk val = resp_bulk_string [] val"

lemma resp_bulk_string_append: "resp_bulk_string res val = res @ bulk val"
  by (simp add: bulk_def resp_bulk_string_def)

lemma fold_bulk: "fold (\<lambda>arg res. resp_bulk_string res arg) args res = res @ concat (map bulk args)"
  by (induction args arbitrary: res) (simp_all add: resp_bulk_string_append)

lemma format_resp_command_eq:
  "format_resp_command args = ''*'' @ to_string (length args) @ crlf @ concat (map bulk args)"
  by (simp add: format_resp_command_def fold_bulk)

section \<open>Parser\<close>

datatype ParserState = IDLE | READING_ARRAY_SIZE | READING_BULK_SIZE | READING_DATA

record RespParser =
  pstate :: ParserState
  pargs :: "string list"
  array_count :: int
  current_bulk_len :: int
  current_buffer :: string
  data_accumulator :: string

definition init_parser :: RespParser where
  "init_parser = \<lparr>pstate = IDLE, pargs = [], array_count = 0, current_bulk_len = 0,
     current_buffer = [], data_accumulator = []\<rparr>"

definition reset :: "RespParser \<Rightarrow> RespParser" where
  "reset p = p\<lparr>pstate := IDLE, pargs := [], array_count := 0, current_bulk_len := 0,
     current_buffer := [], data_accumulator := []\<rparr>"

definition parse_char ::
  "(string list \<Rightarrow> 's \<Rightarrow> 's res) \<Rightarrow> char \<Rightarrow> RespParser \<times> 's \<Rightarrow> (RespParser \<times> 's) res" where
  "parse_char h c = (\<lambda>(p, s). case pstate p of
     IDLE \<Rightarrow>
       if c = CHR ''*'' then Inr (p\<lparr>pstate := READING_ARRAY_SIZE, current_buffer := []\<rparr>, s)
       else Inr (p, s)
   | READING_ARRAY_SIZE \<Rightarrow>
       if c = LF then
         (case stoi (current_buffer p) of
            None \<Rightarrow> Inl Uncaught_exception
          | Some n \<Rightarrow> Inr (p\<lparr>array_count := n, current_buffer := [], pstate := READING_BULK_SIZE\<rparr>, s))
       else if c \<noteq> CR then Inr (p\<lparr>current_buffer := current_buffer p @ [c]\<rparr>, s)
       else Inr (p, s)
   | READING_BULK_SIZE \<Rightarrow>
       if c = CHR ''$'' then Inr (p\<lparr>current_buffer := []\<rparr>, s)
       else if c = LF then
         (if current_buffer p \<noteq> [] then
            (case stoi (current_buffer p) of
               Some n \<Rightarrow> Inr (p\<lparr>current_bulk_len := n, current_buffer := [], data_accumulator := [],
                             pstate := READING_DATA\<rparr>, s)
             | None \<Rightarrow> Inr (reset p, s))
          else Inr (p, s))
       else if c \<noteq> CR then Inr (p\<lparr>current_buffer := current_buffer p @ [c]\<rparr>, s)
       else Inr (p, s)
   | READING_DATA \<Rightarrow>
       if to_int32 (length (data_accumulator p)) < current_bulk_len p
       then Inr (p\<lparr>data_accumulator := data_accumulator p @ [c]\<rparr>, s)
       else if c = LF then
         (let p1 = p\<lparr>pargs := pargs p @ [data_accumulator p]\<rparr>
          in if to_int32 (length (pargs p1)) = array_count p1
             then rbind (h (pargs p1) s) (\<lambda>s'. Inr (reset p1, s'))
             else Inr (p1\<lparr>current_buffer := [], pstate := READING_BULK_SIZE\<rparr>, s))
       else Inr (p, s))"

fun parse_and_execute ::
  "(string list \<Rightarrow> 's \<Rightarrow> 's res) \<Rightarrow> string \<Rightarrow> RespParser \<times> 's \<Rightarrow> (RespParser \<times> 's) res" where
  "parse_and_execute h [] ps = Inr ps"
| "parse_and_execute h (c # cs) ps = rbind (parse_char h c ps) (parse_and_execute h cs)"

lemma reset_init [simp]: "reset p = init_parser"
  by (simp add: reset_def init_parser_def)

text \<open>Where the network cuts the byte stream does not matter.\<close>

lemma parse_append:
  "parse_and_execute h (xs @ ys) ps = rbind (parse_and_execute h xs ps) (parse_and_execute h ys)"
proof (induction xs arbitrary: ps)
  case (Cons c xs)
  then show ?case by (cases "parse_char h c ps") simp_all
qed simp

fun parse_chunks ::
  "(string list \<Rightarrow> 's \<Rightarrow> 's res) \<Rightarrow> string list \<Rightarrow> RespParser \<times> 's \<Rightarrow> (RespParser \<times> 's) res" where
  "parse_chunks h [] ps = Inr ps"
| "parse_chunks h (b # bs) ps = rbind (parse_and_execute h b ps) (parse_chunks h bs)"

lemma parse_chunks_concat: "parse_chunks h bs ps = parse_and_execute h (concat bs) ps"
  by (induction bs arbitrary: ps) (simp_all add: parse_append, metis rbind_cong)

section \<open>Arguments as the parser delivers them\<close>

definition args_ok :: "string list \<Rightarrow> bool" where
  "args_ok args = (args \<noteq> [] \<and> length args < 2 ^ 31 \<and> (\<forall>a\<in>set args. length a < 2 ^ 31))"

lemma args_ok_bytes: "args_ok args \<Longrightarrow> request_bytes args + 2 ^ 60 < 2 ^ 64"
proof -
  assume ok: "args_ok args"
  have "request_bytes args \<le> length args * (2 * 2 ^ 31 + 5000)"
    using ok unfolding args_ok_def
  proof (induction args)
    case (Cons a args)
    then show ?case by (cases "args = []") auto
  qed simp
  also have "\<dots> \<le> 2 ^ 31 * (2 * 2 ^ 31 + 5000)"
    using ok by (intro mult_le_mono1) (simp add: args_ok_def)
  finally show ?thesis by simp
qed

text \<open>Executing a list of commands in order.\<close>

fun run_commands :: "(string list \<Rightarrow> 's \<Rightarrow> 's res) \<Rightarrow> string list list \<Rightarrow> 's \<Rightarrow> 's res" where
  "run_commands h [] s = Inr s"
| "run_commands h (args # cmds) s = rbind (h args s) (run_commands h cmds)"

section \<open>Decoding what the encoder wrote\<close>

lemma LF_CR_props [simp]: "LF \<noteq> CR" "CR \<noteq> LF" "LF \<noteq> CHR ''$''" "CR \<noteq> CHR ''$''"
  by (simp_all add: LF_def CR_def)

lemma digit_plain: "is_digit c \<Longrightarrow> c \<noteq> LF \<and> c \<noteq> CR \<and> c \<noteq> CHR ''$''"
  using digit_not_sign [of c] by (auto simp: LF_def CR_def)

lemma parse_array_digits:
  assumes "\<forall>c\<in>set ds. is_digit c" "pstate p = READING_ARRAY_SIZE"
  shows "parse_and_execute h ds (p, s) = Inr (p\<lparr>current_buffer := current_buffer p @ ds\<rparr>, s)"
  using assms
proof (induction ds arbitrary: p)
  case (Cons c ds)
  then show ?case using digit_plain [of c] by (simp add: parse_char_def)
qed simp

lemma parse_bulk_digits:
  assumes "\<forall>c\<in>set ds. is_digit c" "pstate p = READING_BULK_SIZE"
  shows "parse_and_execute h ds (p, s) = Inr (p\<lparr>current_buffer := current_buffer p @ ds\<rparr>, s)"
  using assms
proof (induction ds arbitrary: p)
  case (Cons c ds)
  then show ?case using digit_plain [of c] by (simp add: parse_char_def)
qed simp

lemma parse_data:
  assumes "pstate p = READING_DATA" "length (data_accumulator p) + length val \<le> nat (current_bulk_len p)"
    "current_bulk_len p < 2 ^ 31"
  shows "parse_and_execute h val (p, s) = Inr (p\<lparr>data_accumulator := data_accumulator p @ val\<rparr>, s)"
  using assms
proof (induction val arbitrary: p)
  case (Cons c val)
  then have "to_int32 (length (data_accumulator p)) < current_bulk_len p"
    by (subst to_int32_small) auto
  with Cons show ?case by (simp add: parse_char_def)
qed simp

lemma parse_bulk:
  assumes "pstate p = READING_BULK_SIZE" "length val < 2 ^ 31" "length (pargs p) < 2 ^ 31 - 1"
  shows "parse_and_execute h (bulk val) (p, s) =
    (if int (Suc (length (pargs p))) = array_count p
     then rbind (h (pargs p @ [val]) s) (\<lambda>s'. Inr (init_parser, s'))
     else Inr (p\<lparr>pargs := pargs p @ [val], current_bulk_len := int (length val),
                 data_accumulator := val, current_buffer := []\<rparr>, s))"
proof -
  let ?p1 = "p\<lparr>current_buffer := to_string (length val)\<rparr>"
  let ?p2 = "p\<lparr>current_bulk_len := int (length val), current_buffer := [], data_accumulator := [],
      pstate := READING_DATA\<rparr>"
  have h1: "parse_and_execute h (''$'' @ to_string (length val)) (p, s) = Inr (?p1, s)"
    using assms(1) parse_bulk_digits [of "to_string (length val)" "p\<lparr>current_buffer := []\<rparr>" h s]
    by (simp add: parse_char_def to_string_digits)
  have h2: "parse_and_execute h crlf (?p1, s) = Inr (?p2, s)"
    using assms by (simp add: crlf_def parse_char_def stoi_to_string)
  have h3: "parse_and_execute h val (?p2, s) = Inr (?p2\<lparr>data_accumulator := val\<rparr>, s)"
    using parse_data [of ?p2 val h s] assms(2) by simp
  have n1: "to_int32 (length val) = int (length val)"
    using assms(2) by (rule to_int32_small)
  have n2: "to_int32 (Suc (length (pargs p))) = int (Suc (length (pargs p)))"
    using assms(3) by (intro to_int32_small) simp
  have h4: "parse_and_execute h crlf (?p2\<lparr>data_accumulator := val\<rparr>, s) =
    (if int (Suc (length (pargs p))) = array_count p
     then rbind (h (pargs p @ [val]) s) (\<lambda>s'. Inr (init_parser, s'))
     else Inr (p\<lparr>pargs := pargs p @ [val], current_bulk_len := int (length val),
                 data_accumulator := val, current_buffer := []\<rparr>, s))"
    using n1 n2 assms(1) by (cases "h (pargs p @ [val]) s") (simp_all add: crlf_def parse_char_def Let_def)
  let ?hd = "''$'' @ to_string (length val)"
  have "bulk val = ?hd @ crlf @ val @ crlf" by (simp add: bulk_def resp_bulk_string_def)
  then show ?thesis
    by (simp only: parse_append [of h ?hd "crlf @ val @ crlf"] parse_append [of h crlf "val @ crlf"]
        parse_append [of h val crlf] h1 h2 h3 h4 rbind_simps)
qed

lemma parse_bulks:
  assumes "vals \<noteq> []" "pstate p = READING_BULK_SIZE" "array_count p = int (length (pargs p) + length vals)"
    "length (pargs p) + length vals < 2 ^ 31" "\<forall>v\<in>set vals. length v < 2 ^ 31"
  shows "parse_and_execute h (concat (map bulk vals)) (p, s) =
    rbind (h (pargs p @ vals) s) (\<lambda>s'. Inr (init_parser, s'))"
  using assms
proof (induction vals arbitrary: p)
  case (Cons v vals)
  show ?case
  proof (cases "vals = []")
    case True
    with Cons.prems show ?thesis by (simp add: parse_bulk)
  next
    case False
    let ?p = "p\<lparr>pargs := pargs p @ [v], current_bulk_len := int (length v),
      data_accumulator := v, current_buffer := []\<rparr>"
    have "parse_and_execute h (bulk v) (p, s) = Inr (?p, s)"
      using Cons.prems False by (subst parse_bulk) auto
    moreover have "parse_and_execute h (concat (map bulk vals)) (?p, s) =
        rbind (h (pargs p @ v # vals) s) (\<lambda>s'. Inr (init_parser, s'))"
      using Cons.IH [of ?p] Cons.prems False by simp
    ultimately show ?thesis by (simp add: parse_append)
  qed
qed simp

lemma parse_command:
  assumes "args_ok args"
  shows "parse_and_execute h (format_resp_command args) (init_parser, s) =
    rbind (h args s) (\<lambda>s'. Inr (init_parser, s'))"
proof -
  let ?n = "to_string (length args)"
  let ?p1 = "init_parser\<lparr>pstate := READING_ARRAY_SIZE, current_buffer := ?n\<rparr>"
  let ?p2 = "init_parser\<lparr>pstate := READING_BULK_SIZE, array_count := int (length args)\<rparr>"
  have h1: "parse_and_execute h (''*'' @ ?n) (init_parser, s) = Inr (?p1, s)"
    using parse_array_digits [of ?n "init_parser\<lparr>pstate := READING_ARRAY_SIZE\<rparr>" h s]
    by (simp add: parse_char_def init_parser_def to_string_digits)
  have h2: "parse_and_execute h crlf (?p1, s) = Inr (?p2, s)"
    using assms by (simp add: crlf_def parse_char_def stoi_to_string init_parser_def args_ok_def)
  have h3: "parse_and_execute h (concat (map bulk args)) (?p2, s) =
      rbind (h args s) (\<lambda>s'. Inr (init_parser, s'))"
    using parse_bulks [of args ?p2 h s] assms by (simp add: args_ok_def init_parser_def)
  have "format_resp_command args = (''*'' @ ?n) @ crlf @ concat (map bulk args)"
    by (simp add: format_resp_command_eq)
  then show ?thesis
    by (simp only: parse_append [of h "''*'' @ ?n"] parse_append [of h crlf] h1 h2 h3 rbind_simps)
qed

lemma parse_commands:
  assumes "\<forall>args\<in>set cmds. args_ok args"
  shows "parse_and_execute h (concat (map format_resp_command cmds)) (init_parser, s) =
    rbind (run_commands h cmds s) (\<lambda>s'. Inr (init_parser, s'))"
  using assms
proof (induction cmds arbitrary: s)
  case (Cons args cmds)
  then show ?case by (cases "h args s") (simp_all add: parse_append parse_command)
qed simp

section \<open>What a handler relies on and keeps\<close>

text \<open>A handler that keeps an invariant whatever (nonempty) arguments it is given, or ends in one of the
  faults \<open>E\<close>. The parser passes nothing else to it, so the same holds for any bytes from a client;
  only the unchecked array size of the protocol adds a fault of its own.\<close>

locale request_handler =
  fixes h :: "string list \<Rightarrow> 's \<Rightarrow> 's res"
    and I :: "'s \<Rightarrow> bool"
    and E :: "fault set"
  assumes keeps: "I s \<Longrightarrow> args \<noteq> [] \<Longrightarrow> guarded E I (h args s)"
    and array_size: "Uncaught_exception \<in> E"
begin

lemma parse_char_keeps:
  assumes "I s"
  shows "guarded E (\<lambda>(p', s'). I s') (parse_char h c (p, s))"
proof (cases "pstate p")
  case READING_DATA
  have "guarded E I (h (pargs p @ [data_accumulator p]) s)" by (rule keeps [OF assms]) simp
  then show ?thesis
    using READING_DATA assms
    by (cases "h (pargs p @ [data_accumulator p]) s") (auto simp: parse_char_def Let_def)
qed (use assms array_size in \<open>auto simp: parse_char_def split: option.splits\<close>)

lemma parse_keeps: "I s \<Longrightarrow> guarded E (\<lambda>(p', s'). I s') (parse_and_execute h buf (p, s))"
proof (induction buf arbitrary: p s)
  case (Cons c buf)
  from parse_char_keeps [OF Cons.prems, of c p] Cons.IH show ?case
    by (cases "parse_char h c (p, s)") auto
qed simp

lemma run_keeps: "I s \<Longrightarrow> [] \<notin> set cmds \<Longrightarrow> guarded E I (run_commands h cmds s)"
proof (induction cmds arbitrary: s)
  case (Cons args cmds)
  then show ?case using keeps [of s args] by (cases "h args s") auto
qed simp

end

section \<open>Properties\<close>

text \<open>
  \<^bold>\<open>C20\<close>. Whatever the handler and its state, feeding the RESP encoding of a
  sequence of requests to a fresh parser is the same as calling the handler on those requests in order,
  and leaves the parser as fresh as it was: arguments may hold any bytes, line ends included.
\<close>

theorem requests_parsed_back:
  assumes "\<forall>args\<in>set cmds. args_ok args"
  shows "parse_and_execute h (concat (map format_resp_command cmds)) (init_parser, s) =
    rbind (run_commands h cmds s) (\<lambda>s'. Inr (init_parser, s'))"
  using assms by (rule parse_commands)

theorem requests_parsed_back_witness:
  "parse_and_execute (\<lambda>args s. Inr (s @ [args])) (concat (map format_resp_command [[''SET'', ''k'', crlf], [''PING'']]))
     (init_parser, []) = Inr (init_parser, [[''SET'', ''k'', crlf], [''PING'']])"
  using requests_parsed_back [of "[[''SET'', ''k'', crlf], [''PING'']]" "\<lambda>args s. Inr (s @ [args])" "[]"]
  by (simp add: args_ok_def crlf_def)

text \<open>
  \<^bold>\<open>C40\<close>. The array size of a request is converted without a handler for the
  exception of \<open>std::stoi\<close>: a client that sends a request whose size is not a number in the range of an
  \<open>int\<close> ends the process, before any command is looked at.
\<close>

theorem array_size_not_checked:
  assumes "stoi n = None" "LF \<notin> set n" "CR \<notin> set n"
  shows "parse_and_execute h (''*'' @ n @ crlf @ rest) (init_parser, s) = Inl Uncaught_exception"
proof -
  have "parse_and_execute h n (p, s) = Inr (p\<lparr>current_buffer := current_buffer p @ n\<rparr>, s)"
    if "pstate p = READING_ARRAY_SIZE" for p
    using that assms(2,3) by (induction n arbitrary: p) (auto simp: parse_char_def)
  from this [of "init_parser\<lparr>pstate := READING_ARRAY_SIZE\<rparr>"] show ?thesis
    using assms(1) by (simp add: parse_append parse_char_def init_parser_def crlf_def)
qed

theorem array_size_not_checked_witness:
  "parse_and_execute (\<lambda>args s. Inr s) (''*'' @ ''x'' @ crlf @ []) (init_parser, ()) = Inl Uncaught_exception"
proof -
  have "stoi ''x'' = None" by code_simp
  then show ?thesis by (intro array_size_not_checked) (simp_all add: LF_def CR_def)
qed

end
