(* ===== verification/Server_State.thy ===== *)
theory Server_State
  imports Druta_Lru Resp
begin

text \<open>
  The global state of the server as a chain of records, each extending the previous one, so that an
  operation's type shows which part of the state it can reach:
  \<open>lru_state\<close> (store and LRU list), \<open>io_state\<close> (replies sent, clock), \<open>pubsub_state\<close> (clients and
  channels), \<open>server\<close> (the append-only file). Clock readings are an arbitrary function of the
  number of readings taken so far. \<open>send\<close> is the guarded macro of commands.cpp; the log
  \<open>out\<close> holds the calls of the system's \<open>send\<close> in order.
\<close>

section \<open>Replies and time\<close>

record io_state = lru_state +
  out :: "(int \<times> string) list"
  clock :: "nat \<Rightarrow> int"
  ticks :: nat

definition sys_send :: "int \<Rightarrow> string \<Rightarrow> ('z) io_state_scheme \<Rightarrow> ('z) io_state_scheme" where
  "sys_send fd msg s = s\<lparr>out := out s @ [(fd, msg)]\<rparr>"

definition send :: "int \<Rightarrow> string \<Rightarrow> ('z) io_state_scheme \<Rightarrow> ('z) io_state_scheme" where
  "send fd msg s = (if fd \<noteq> -1 then sys_send fd msg s else s)"

definition get_current_time_ms :: "('z) io_state_scheme \<Rightarrow> int \<times> ('z) io_state_scheme" where
  "get_current_time_ms s = (clock s (ticks s), s\<lparr>ticks := Suc (ticks s)\<rparr>)"

definition send_integer :: "int \<Rightarrow> int \<Rightarrow> ('z) io_state_scheme \<Rightarrow> ('z) io_state_scheme" where
  "send_integer fd n s = send fd ('':'' @ to_string_int n @ crlf) s"

definition arg :: "string list \<Rightarrow> nat \<Rightarrow> string res" where
  "arg args i = (if i < length args then Inr (args ! i) else Inl Out_of_bounds)"

section \<open>Clients and channels\<close>

record Client =
  parser :: RespParser
  is_subscriber :: bool
  subscribed_channels :: "string list"

definition new_client :: Client where
  "new_client = \<lparr>parser = init_parser, is_subscriber = False, subscribed_channels = []\<rparr>"

record pubsub_state = io_state +
  clients_map :: "int \<rightharpoonup> Client"
  channels_subscribers :: "string \<rightharpoonup> int list"

section \<open>The append-only file\<close>

record server = pubsub_state +
  aof_open :: bool
  aof_disk :: string
  aof_pending :: string
  last_rewrite_size :: nat
  last_size_check :: "int option"
  last_flush :: "int option"
  steady :: "nat \<Rightarrow> int"
  steady_ticks :: nat
  spill :: "nat \<Rightarrow> nat"
  spill_ticks :: nat
  fs_ok :: "nat \<Rightarrow> bool"
  fs_ticks :: nat

section \<open>Frames\<close>

lemma io_frame:
  fixes s s' :: "('z) io_state_scheme"
  assumes "lru_state.more s' = lru_state.more s"
  shows "out s' = out s" "clock s' = clock s" "ticks s' = ticks s" "io_state.more s' = io_state.more s"
  using assms by (cases s; cases s'; simp)+

lemma arg_in [simp]: "i < length args \<Longrightarrow> arg args i = Inr (args ! i)"
  by (simp add: arg_def)

lemma arg_out [simp]: "length args \<le> i \<Longrightarrow> arg args i = Inl Out_of_bounds"
  by (simp add: arg_def)

text \<open>The store part of the state is untouched by sending and by reading the clock.\<close>

lemma lru_inv_io [simp]:
  "lru_inv (s\<lparr>out := x\<rparr>) as c = lru_inv s as c"
  "lru_inv (s\<lparr>ticks := t\<rparr>) as c = lru_inv s as c"
  "lru_inv (send fd msg s) as c = lru_inv s as c"
  "lru_inv (send_integer fd n s) as c = lru_inv s as c"
  by (simp_all add: lru_inv_def lru_repr_def linked_def send_def sys_send_def send_integer_def)

lemma send_fields [simp]:
  "kv_store (send fd msg s) = kv_store s" "heap (send fd msg s) = heap s"
  "out (send fd msg s) = (if fd = -1 then out s else out s @ [(fd, msg)])"
  "clock (send fd msg s) = clock s" "ticks (send fd msg s) = ticks s"
  "io_state.more (send fd msg s) = io_state.more s"
  by (simp_all add: send_def sys_send_def)

text \<open>What a handler appends to the reply log.\<close>

definition reply :: "int \<Rightarrow> string \<Rightarrow> (int \<times> string) list" where
  "reply fd msg = (if fd = -1 then [] else [(fd, msg)])"

lemma out_send: "out (send fd msg s) = out s @ reply fd msg"
  by (simp add: reply_def)

definition integer_reply :: "int \<Rightarrow> string" where
  "integer_reply n = '':'' @ to_string_int n @ crlf"

lemma send_integer_eq: "send_integer fd n s = send fd (integer_reply n) s"
  by (simp add: send_integer_def integer_reply_def)

end
