(* ===== verification/Druta_Db.thy ===== *)
theory Druta_Db
  imports Server_State
begin

text \<open>
  The database as the command handlers see it. Two invariants tie the machine state to its contents,
  a list of key/value pairs with the least recently used first:

  \<^item> \<open>db_safe\<close>: list, map and heap agree and every value is well formed;
  \<^item> \<open>db_inv\<close>: in addition the byte counter and every value's size are exact and within the limit.

  A handler is specified by a function from the old contents to the new contents, the reply and the
  boolean result, or to the fault it runs into; \<open>meets\<close> says that a run follows such a
  specification and changes nothing else. What the handlers that only read and touch need of the
  invariant is the locale \<open>db_reader\<close>, interpreted for both.
\<close>

section \<open>The prologue of the handlers\<close>

definition WRONGTYPE :: string where
  "WRONGTYPE = ''-WRONGTYPE Operation against a key holding the wrong kind of value'' @ crlf"

definition nil_reply :: string where
  "nil_reply = ''$-1'' @ crlf"

definition empty_array :: string where
  "empty_array = ''*0'' @ crlf"

text \<open>\<open>res.reserve(n)\<close> throws \<open>std::length_error\<close> above \<open>max_size()\<close>; no handler that calls it with
  a computed size catches it.\<close>

definition reserve :: "size_t \<Rightarrow> unit res" where
  "reserve n = (if unat n < 2 ^ 62 then Inr () else Inl Uncaught_exception)"

text \<open>\<open>it = kv_store.find(key)\<close>, the test of the type tag and the WRONGTYPE reply.\<close>

definition with_type :: "ValueType \<Rightarrow> string \<Rightarrow> int \<Rightarrow> ('z) io_state_scheme \<Rightarrow> (('z) io_state_scheme \<times> bool) res \<Rightarrow>
    (addr \<Rightarrow> DrutaNode \<Rightarrow> (('z) io_state_scheme \<times> bool) res) \<Rightarrow> (('z) io_state_scheme \<times> bool) res" where
  "with_type t key fd s missing found = (case kv_store s key of
     None \<Rightarrow> missing
   | Some a \<Rightarrow> rbind (deref a s) (\<lambda>node.
       if vtype (node_value node) \<noteq> t then Inr (send fd WRONGTYPE s, False) else found a node))"

section \<open>The invariant between commands\<close>

definition db_safe :: "('z) lru_state_scheme \<Rightarrow> cache \<Rightarrow> bool" where
  "db_safe s c = ((\<exists>as. lru_repr s as c) \<and> (\<forall>e\<in>set c. value_wf (snd e)))"

definition db_inv :: "('z) lru_state_scheme \<Rightarrow> cache \<Rightarrow> bool" where
  "db_inv s c = ((\<exists>as. lru_inv s as c) \<and> cache_bytes c \<le> LRU_MAX_MEMORY \<and>
     (\<forall>e\<in>set c. value_ok (snd e)))"

lemma db_invE:
  assumes "db_inv s c"
  obtains as where "lru_inv s as c" "lru_repr s as c" "cache_bytes c < 2 ^ 27" "\<forall>e\<in>set c. value_ok (snd e)"
    "cache_bytes c \<le> LRU_MAX_MEMORY"
  using assms by (auto simp: db_inv_def lru_inv_def LRU_MAX_MEMORY_def)

lemma db_inv_safe: "db_inv s c \<Longrightarrow> db_safe s c"
  by (auto simp: db_inv_def db_safe_def lru_inv_def value_ok_def)

lemma db_safe_io [simp]:
  "db_safe (s\<lparr>out := x\<rparr>) c = db_safe s c"
  "db_safe (s\<lparr>ticks := t\<rparr>) c = db_safe s c"
  "db_safe (send fd msg s) c = db_safe s c"
  "db_safe (send_integer fd n s) c = db_safe s c"
  by (simp_all add: db_safe_def lru_repr_def linked_def send_def sys_send_def send_integer_def)

lemma db_inv_io [simp]:
  "db_inv (s\<lparr>out := x\<rparr>) c = db_inv s c"
  "db_inv (s\<lparr>ticks := t\<rparr>) c = db_inv s c"
  "db_inv (send fd msg s) c = db_inv s c"
  "db_inv (send_integer fd n s) c = db_inv s c"
  by (simp_all add: db_inv_def)

lemma db_inv_init [simp]: "db_inv init_lru []"
  by (auto simp: db_inv_def lru_inv_def lru_repr_def linked_def init_lru_def kvs_def)

lemma db_inv_view: "db_inv s c \<Longrightarrow> kv_view s = map_of c"
  by (auto simp: db_inv_def lru_inv_def kv_view_cache)

lemma db_inv_unique: "db_inv s c \<Longrightarrow> db_inv s c' \<Longrightarrow> c = c'"
proof -
  have uniq: "as = bs" if "dll h p as None" "dll h p' bs None" "first_or None as = first_or None bs"
    for h p p' as bs
    using that
  proof (induction as arbitrary: bs p p')
    case Nil
    then show ?case by (cases bs) auto
  next
    case (Cons a as)
    then show ?case by (cases bs) (auto split: option.splits)
  qed
  assume "db_inv s c" "db_inv s c'"
  then obtain as bs where r: "lru_repr s as c" "lru_repr s bs c'"
    by (auto simp: db_inv_def lru_inv_def)
  have "as = bs" using lru_reprD(1) [OF r(1)] lru_reprD(1) [OF r(2)] uniq [of "heap s" None as None bs]
    by (simp add: linked_def)
  then show "c = c'" using lru_reprD(4) [OF r(1)] lru_reprD(4) [OF r(2)] by simp
qed

lemma cache_op_sets:
  "set (cache_del k c) \<subseteq> set c" "set (cache_touch k c) = set c" "set (evict_spec c) \<subseteq> set c"
  "set (cache_upd k v c) \<subseteq> insert (k, v) (set c)"
proof -
  show "set (cache_del k c) \<subseteq> set c" "set (cache_touch k c) = set c"
    "set (cache_upd k v c) \<subseteq> insert (k, v) (set c)"
    by (auto simp: cache_del_def cache_touch_def cache_upd_def)
  show "set (evict_spec c) \<subseteq> set c" using evict_spec_suffix [of c] by (auto dest: in_set_dropD)
qed

lemma cache_bytes_del: "cache_bytes (cache_del k c) \<le> cache_bytes c"
  by (induction c) (auto simp: cache_del_def)

lemma map_of_cache_touch: "distinct (map fst c) \<Longrightarrow> map_of (cache_touch k c) = map_of c"
proof -
  assume d: "distinct (map fst c)"
  have "distinct (map fst (cache_touch k c))"
    using d by (auto simp: cache_touch_def cache_del_def distinct_map_filter)
  with d show ?thesis using cache_op_sets(2) [of k c] by (metis map_of_inject_set)
qed

section \<open>Lookups and updates under the invariant\<close>

lemma db_find:
  assumes "db_inv s c" "kv_store s k = Some a"
  obtains n where "heap s a = Some n" "node_key n = k" "map_of c k = Some (node_value n)"
    "value_ok (node_value n)" "value_wf (node_value n)" "kvs (heap s) a = Some (k, node_value n)"
proof -
  obtain as where r: "lru_repr s as c" "\<forall>e\<in>set c. value_ok (snd e)" using assms(1) by (rule db_invE)
  obtain n :: DrutaNode where n: "heap s a = Some n" "node_key n = k" "map_of c k = Some (node_value n)"
    by (rule lru_repr_find [OF r(1) assms(2)]) blast
  then have "value_ok (node_value n)" using r(2) by (force dest: map_of_SomeD)
  then show thesis using that n by (auto simp: value_ok_def kvs_def)
qed

lemma db_find_None: "db_inv s c \<Longrightarrow> kv_store s k = None \<longleftrightarrow> map_of c k = None"
  by (metis db_invE lru_repr_lookup_None)

lemma db_keys: "db_inv s c \<Longrightarrow> distinct (map fst c)"
  by (metis db_invE lru_repr_keys(1))

lemma entry_size_ge: "(k, v) \<in> set c \<Longrightarrow> entry_size (k, v) \<le> cache_bytes c"
  by (auto simp: cache_bytes_def intro: member_le_sum_list)

lemma cache_bytes_upd:
  "distinct (map fst c) \<Longrightarrow> map_of c k = Some v \<Longrightarrow>
   cache_bytes (cache_upd k w c) + unat (memory_usage v) = cache_bytes c + unat (memory_usage w)"
proof (induction c)
  case (Cons e c)
  have id: "cache_upd k w c = c" if "k \<notin> fst ` set c"
    using that by (induction c) (auto simp: cache_upd_def)
  show ?case
  proof (cases "fst e = k")
    case True
    then have "cache_upd k w c = c" "e = (k, v)" using Cons.prems id by (auto split: if_splits)
    with True show ?thesis by (simp add: cache_upd_def entry_size_def)
  next
    case False
    then have "cache_upd k w (e # c) = e # cache_upd k w c" by (simp add: cache_upd_def)
    with False Cons show ?thesis by simp
  qed
qed simp

lemma map_of_cache_upd: "map_of c k \<noteq> None \<Longrightarrow> map_of (cache_upd k w c) k = Some w"
  by (induction c) (auto simp: cache_upd_def)

lemma db_touch:
  assumes inv: "db_inv s c" and kv: "kv_store s k = Some a"
  shows "\<exists>s'. touch_lru a s = Inr s' \<and> db_inv s' (cache_touch k c) \<and> links_only s s'"
proof -
  obtain as where "lru_inv s as c" using inv by (auto simp: db_inv_def)
  from touch_lru_ok [OF this kv] obtain s' as' where "touch_lru a s = Inr s'"
    "lru_inv s' as' (cache_touch k c)" "links_only s s'" by blast
  then show ?thesis using inv by (auto simp: db_inv_def cache_op_sets(2) cache_bytes_touch)
qed

lemma db_remove:
  assumes inv: "db_inv s c" and kv: "kv_store s k = Some a"
  shows "\<exists>s1. remove_from_lru a s = Inr s1 \<and> db_inv (kv_erase k s1) (cache_del k c) \<and>
    lru_state.more s1 = lru_state.more s"
proof -
  obtain as where "lru_inv s as c" using inv by (auto simp: db_inv_def)
  from remove_ok [OF this kv] obtain s1 as' where "remove_from_lru a s = Inr s1"
    "lru_inv (kv_erase k s1) as' (cache_del k c)" "lru_state.more s1 = lru_state.more s"
    by (auto simp del: kv_erase_simps(1,2))
  moreover have "cache_bytes (cache_del k c) \<le> LRU_MAX_MEMORY"
    using inv cache_bytes_del [of k c] by (simp add: db_inv_def)
  ultimately show ?thesis using inv cache_op_sets(1) [of k c] by (fastforce simp: db_inv_def)
qed

lemma db_insert:
  assumes inv: "db_inv s c" and new: "kv_store s k = None" and ins: "insert_node k v s = (s1, a)"
    and ok: "value_ok v" and bnd: "cache_bytes c + entry_size (k, v) < 2 ^ 64"
  shows "\<exists>s'. add_lru a s1 = Inr s' \<and> db_inv s' (evict_spec (c @ [(k, v)])) \<and>
    lru_state.more s' = lru_state.more s \<and>
    (k \<in> fst ` set (evict_spec (c @ [(k, v)])) \<longrightarrow> kv_store s' k = Some a) \<and>
    (k \<notin> fst ` set (evict_spec (c @ [(k, v)])) \<longrightarrow> heap s' a = None)"
proof -
  obtain as where as: "lru_inv s as c" "lru_repr s as c" using inv by (rule db_invE)
  obtain s' n where s': "add_lru a s1 = Inr s'" "lru_inv s' (drop n (as @ [a])) (evict_spec (c @ [(k, v)]))"
    "evict_spec (c @ [(k, v)]) = drop n (c @ [(k, v)])" "lru_state.more s' = lru_state.more s"
    using add_lru_ok [OF as(1) new ins bnd] by blast
  have r: "lru_repr s' (drop n (as @ [a])) (drop n (c @ [(k, v)]))"
    using s' by (simp add: lru_inv_def)
  have len: "length as = length c" using lru_reprD(4) [OF as(2)] by simp
  have nk: "k \<notin> fst ` set c" using lru_repr_keys(2) [OF as(2), of k] new by auto
  have fresh: "a \<notin> set as" using lru_reprD(6) [OF as(2)] insert_node_fields(1) [OF new ins] by force
  have "kv_store s' k = Some a" if "n \<le> length c"
    using lru_repr_nth(2) [OF r, of "length c - n"] that len by (simp add: nth_append)
  moreover have "heap s' a = None" if "\<not> n \<le> length c"
    using lru_reprD(2) [OF r] that len by auto
  moreover have "k \<in> fst ` set (evict_spec (c @ [(k, v)])) \<longleftrightarrow> n \<le> length c"
    using nk unfolding s'(3) by (auto dest: in_set_dropD)
  moreover have "db_inv s' (evict_spec (c @ [(k, v)]))"
    using s'(2) inv ok cache_op_sets(3) [of "c @ [(k, v)]"] evict_spec_bound [of "c @ [(k, v)]"]
    by (fastforce simp: db_inv_def)
  ultimately show ?thesis using s' by auto
qed

text \<open>A stored value replaced by \<open>w\<close>, the counter adjusted, the node touched.\<close>

definition set_value :: "addr \<Rightarrow> DrutaValue \<Rightarrow> ('z) lru_state_scheme \<Rightarrow> ('z) lru_state_scheme" where
  "set_value a w s = s\<lparr>heap := (heap s)(a \<mapsto> (the (heap s a))\<lparr>node_value := w\<rparr>)\<rparr>"

lemma db_mutate_repr:
  assumes inv: "db_inv s c" and kv: "kv_store s k = Some a" and lk: "map_of c k = Some v"
    and bal: "unat new + unat (memory_usage v) = unat old + unat (memory_usage w)"
  obtains as where "lru_repr (set_value a w s) as (cache_upd k w c)"
    "current_memory_usage (set_value a w s) = of_nat (cache_bytes c)"
    "cache_bytes c + unat new = cache_bytes (cache_upd k w c) + unat old"
    "cache_bytes c < 2 ^ 64" "kv_store (set_value a w s) k = Some a"
proof -
  obtain as where as: "lru_inv s as c" "lru_repr s as c" "cache_bytes c < 2 ^ 27" using inv by (rule db_invE)
  obtain n where n: "heap s a = Some n" using db_find [OF inv kv] by metis
  have "cache_bytes (cache_upd k w c) + unat (memory_usage v) = cache_bytes c + unat (memory_usage w)"
    using cache_bytes_upd [OF db_keys [OF inv] lk] .
  then have "cache_bytes c + unat new = cache_bytes (cache_upd k w c) + unat old" using bal by linarith
  moreover have "lru_repr (set_value a w s) as (cache_upd k w c)"
    using upd_value_ok [OF as(2) kv n] n by (simp add: set_value_def)
  ultimately show thesis using as kv that by (auto simp: set_value_def lru_inv_def)
qed

lemma db_mutate:
  fixes s :: "('z) lru_state_scheme"
  assumes inv: "db_inv s c" and kv: "kv_store s k = Some a" and lk: "map_of c k = Some v"
    and ok: "value_ok w"
    and bal: "unat new + unat (memory_usage v) = unat old + unat (memory_usage w)"
    and bnd: "cache_bytes (cache_upd k w c) < 2 ^ 64"
  shows "if k \<in> fst ` set (evict_spec (cache_upd k w c))
    then \<exists>s'. rbind (notify_memory_change old new (set_value a w s)) (touch_lru a) = Inr s' \<and>
      db_inv s' (cache_touch k (evict_spec (cache_upd k w c))) \<and>
      lru_state.more s' = lru_state.more s \<and> kvs (heap s') a = Some (k, w)
    else rbind (notify_memory_change old new (set_value a w s)) (touch_lru a) = Inl Use_after_free"
proof -
  let ?c = "cache_upd k w c"
  obtain as where m: "lru_repr (set_value a w s) as ?c"
    "current_memory_usage (set_value a w s) = of_nat (cache_bytes c)"
    "cache_bytes c + unat new = cache_bytes ?c + unat old" "cache_bytes c < 2 ^ 64"
    "kv_store (set_value a w s) k = Some a" using db_mutate_repr [OF inv kv lk bal] by blast
  have more: "lru_state.more (set_value a w s) = lru_state.more s" by (simp add: set_value_def)
  have look: "map_of ?c k = Some w" using lk by (simp add: map_of_cache_upd)
  have oks: "\<forall>e\<in>set (evict_spec ?c). value_ok (snd e)"
  proof
    fix e assume "e \<in> set (evict_spec ?c)"
    then have "e \<in> insert (k, w) (set c)" using cache_op_sets(3) [of ?c] cache_op_sets(4) [of k w c] by blast
    then show "value_ok (snd e)" using inv ok by (auto simp: db_inv_def)
  qed
  have ok': "db_inv s' (cache_touch k (evict_spec ?c))"
    if "lru_inv s' as' (cache_touch k (evict_spec ?c))" for s' :: "('z) lru_state_scheme" and as'
    using that oks evict_spec_bound [of ?c] by (auto simp: db_inv_def cache_op_sets(2) cache_bytes_touch)
  note nt = notify_touch_ok [OF m(1,2,3,4) bnd m(5)]
  show ?thesis
  proof (cases "k \<in> fst ` set (evict_spec ?c)")
    case True
    with nt look more show ?thesis using ok' by auto
  next
    case False
    with nt show ?thesis by simp
  qed
qed

lemma links_only_more: "links_only s s' \<Longrightarrow> lru_state.more s' = lru_state.more s"
  by (simp add: links_only_def)

definition set_spec :: "string \<Rightarrow> DrutaValue \<Rightarrow> cache \<Rightarrow> cache" where
  "set_spec k v c = (if map_of c k = None then evict_spec (c @ [(k, v)])
     else cache_touch k (evict_spec (cache_upd k v c)))"

text \<open>A value written over an existing key survives its own eviction pass.\<close>

definition survives :: "string \<Rightarrow> DrutaValue \<Rightarrow> cache \<Rightarrow> bool" where
  "survives k v c = (map_of c k = None \<or> k \<in> fst ` set (evict_spec (cache_upd k v c)))"

lemma arg_len: "args_ok args \<Longrightarrow> i < length args \<Longrightarrow> length (args ! i) < 2 ^ 31"
  by (simp add: args_ok_def)


section \<open>Specifications of handlers\<close>

type_synonym command_spec = "(cache \<times> string \<times> bool) res"

definition yields :: "(('z) io_state_scheme \<Rightarrow> cache \<Rightarrow> bool) \<Rightarrow> ('z) io_state_scheme \<Rightarrow>
    (('z) io_state_scheme \<times> bool) res \<Rightarrow> int \<Rightarrow> cache \<Rightarrow> string \<Rightarrow> bool \<Rightarrow> bool" where
  "yields I s r fd c msg b = (\<exists>s'. r = Inr (s', b) \<and> I s' c \<and> out s' = out s @ reply fd msg \<and>
     clock s' = clock s \<and> io_state.more s' = io_state.more s)"

definition meets :: "(('z) io_state_scheme \<Rightarrow> cache \<Rightarrow> bool) \<Rightarrow> ('z) io_state_scheme \<Rightarrow>
    (('z) io_state_scheme \<times> bool) res \<Rightarrow> int \<Rightarrow> command_spec \<Rightarrow> bool" where
  "meets I s r fd spec = (case spec of Inl e \<Rightarrow> r = Inl e | Inr (c, msg, b) \<Rightarrow> yields I s r fd c msg b)"

lemma meets_simps [simp]:
  "meets I s r fd (Inl e) \<longleftrightarrow> r = Inl e"
  "meets I s r fd (Inr (c, msg, b)) \<longleftrightarrow> yields I s r fd c msg b"
  by (simp_all add: meets_def)

lemma meets_ticks: "meets I (s\<lparr>ticks := t\<rparr>) r fd spec \<Longrightarrow> meets I s r fd spec"
  by (auto simp: meets_def yields_def split: sum.splits)

text \<open>The contents of a value at the type a handler expects.\<close>

definition as_string :: "value_data \<Rightarrow> string option" where
  "as_string d = (case d of DString x \<Rightarrow> Some x | _ \<Rightarrow> None)"

definition as_list :: "value_data \<Rightarrow> string list option" where
  "as_list d = (case d of DList x \<Rightarrow> Some x | _ \<Rightarrow> None)"

definition as_hash :: "value_data \<Rightarrow> DrutaHash option" where
  "as_hash d = (case d of DHash x \<Rightarrow> Some x | _ \<Rightarrow> None)"

definition as_set :: "value_data \<Rightarrow> string list option" where
  "as_set d = (case d of DSet x \<Rightarrow> Some x | _ \<Rightarrow> None)"

lemma as_data [simp]:
  "as_string d = Some x \<longleftrightarrow> d = DString x" "as_list d = Some l \<longleftrightarrow> d = DList l"
  "as_hash d = Some h \<longleftrightarrow> d = DHash h" "as_set d = Some l \<longleftrightarrow> d = DSet l"
  by (auto simp: as_string_def as_list_def as_hash_def as_set_def split: value_data.splits)

lemma as_self [simp]:
  "as_string (DString x) = Some x" "as_list (DList l) = Some l" "as_hash (DHash h) = Some h"
  "as_set (DSet l) = Some l"
  by simp_all

definition tagged :: "ValueType \<Rightarrow> (value_data \<Rightarrow> 'a option) \<Rightarrow> bool" where
  "tagged t f = (\<forall>v. value_wf v \<longrightarrow> vtype v = t \<longleftrightarrow> f (data v) \<noteq> None)"

lemma tagged [simp]:
  "tagged STRING as_string" "tagged LIST as_list" "tagged HASH as_hash" "tagged SET as_set"
  by (auto simp: tagged_def value_wf_def as_string_def as_list_def as_hash_def as_set_def
      split: value_data.splits)

lemma getters [simp]:
  "data v = DString x \<Longrightarrow> get_string v = Inr x" "data v = DList l \<Longrightarrow> get_list v = Inr l"
  "data v = DHash h \<Longrightarrow> get_dhash v = Inr h" "data v = DSet l \<Longrightarrow> get_set v = Inr l"
  by (simp_all add: get_string_def get_list_def get_dhash_def get_set_def)

definition typed_spec :: "(value_data \<Rightarrow> 'a option) \<Rightarrow> string \<Rightarrow> cache \<Rightarrow> command_spec \<Rightarrow>
    (DrutaValue \<Rightarrow> 'a \<Rightarrow> command_spec) \<Rightarrow> command_spec" where
  "typed_spec f k c missing found = (case map_of c k of
     None \<Rightarrow> missing
   | Some v \<Rightarrow> (case f (data v) of None \<Rightarrow> Inr (c, WRONGTYPE, False) | Some x \<Rightarrow> found v x))"

definition write_spec :: "string \<Rightarrow> DrutaValue \<Rightarrow> cache \<Rightarrow> string \<Rightarrow> bool \<Rightarrow> command_spec" where
  "write_spec k w c msg b = (if survives k w c then Inr (set_spec k w c, msg, b) else Inl Use_after_free)"

lemma db_lookup:
  assumes "db_safe s c"
  obtains (missing) "kv_store s k = None" "map_of c k = None"
  | (found) a n where "kv_store s k = Some a" "heap s a = Some n" "node_key n = k"
      "map_of c k = Some (node_value n)" "value_wf (node_value n)"
proof -
  obtain as where r: "lru_repr s as c" and wf: "\<forall>e\<in>set c. value_wf (snd e)"
    using assms by (auto simp: db_safe_def)
  show thesis
  proof (cases "kv_store s k")
    case None
    with lru_repr_lookup_None [OF r, of k] show thesis by (intro missing) simp_all
  next
    case (Some a)
    obtain n :: DrutaNode where n: "heap s a = Some n" "node_key n = k" "map_of c k = Some (node_value n)"
      by (rule lru_repr_find [OF r Some]) blast
    have "value_wf (node_value n)" using wf map_of_SomeD [OF n(3)] by force
    with n Some show thesis by (intro found)
  qed
qed

section \<open>Handlers that look up and touch\<close>

locale db_reader =
  fixes I :: "('z) io_state_scheme \<Rightarrow> cache \<Rightarrow> bool"
  assumes safe: "I s c \<Longrightarrow> db_safe s c"
    and io: "I s c \<Longrightarrow> I (s\<lparr>out := x, ticks := t\<rparr>) c"
    and touch: "I s c \<Longrightarrow> kv_store s k = Some a \<Longrightarrow> touch_lru a s = Inr s' \<Longrightarrow> I s' (cache_touch k c)"
    and remove: "I s c \<Longrightarrow> kv_store s k = Some a \<Longrightarrow> remove_from_lru a s = Inr s' \<Longrightarrow>
      I (kv_erase k s') (cache_del k c)"
begin

lemma I_ticks: "I s c \<Longrightarrow> I (s\<lparr>ticks := t\<rparr>) c"
  using io [of s c t "out s"] by simp

lemma I_send: "I s c \<Longrightarrow> I (send fd msg s) c"
  using io [of s c "ticks s" "out s @ [(fd, msg)]"] by (simp add: send_def sys_send_def)

lemma meets_send:
  assumes "lru_state.more s' = lru_state.more s" "I s' c"
  shows "meets I s (Inr (send fd msg s', b)) fd (Inr (c, msg, b))"
  using assms io_frame [OF assms(1)] by (auto simp: yields_def reply_def I_send)

lemma meets_touch:
  assumes inv: "I s c" and kv: "kv_store s k = Some a" and n: "heap s a = Some n"
    and f: "\<And>s' n'. heap s' a = Some n' \<Longrightarrow> node_value n' = node_value n \<Longrightarrow> f s' = Inr (send fd msg s', b)"
  shows "meets I s (rbind (touch_lru a s) f) fd (Inr (cache_touch k c, msg, b))"
proof -
  obtain as where r: "lru_repr s as c" using safe [OF inv] by (auto simp: db_safe_def)
  obtain s1 where s1: "touch_lru a s = Inr s1" "links_only s s1" using touch_lru_repr [OF r kv] by blast
  have "kvs (heap s1) a = Some (node_key n, node_value n)"
    using n links_only_simps(2) [OF s1(2)] by (simp add: kvs_def)
  then obtain n' where "heap s1 a = Some n'" "node_value n' = node_value n" by (auto simp: kvs_Some)
  then have "f s1 = Inr (send fd msg s1, b)" by (rule f)
  then show ?thesis
    using s1 meets_send [OF links_only_more [OF s1(2)] touch [OF inv kv s1(1)]] by simp
qed

lemma meets_send_touch:
  assumes inv: "I s c" and kv: "kv_store s k = Some a"
  shows "meets I s (rbind (touch_lru a (send fd msg s)) (\<lambda>s'. Inr (s', b))) fd (Inr (cache_touch k c, msg, b))"
proof -
  have inv': "I (send fd msg s) c" and kv': "kv_store (send fd msg s) k = Some a"
    using inv kv by (simp_all add: I_send)
  obtain as where r: "lru_repr (send fd msg s) as c" using safe [OF inv'] by (auto simp: db_safe_def)
  obtain s1 where s1: "touch_lru a (send fd msg s) = Inr s1" "links_only (send fd msg s) s1"
    using touch_lru_repr [OF r kv'] by blast
  from touch [OF inv' kv' s1(1)] io_frame [OF links_only_more [OF s1(2)]] s1(1) show ?thesis
    by (simp add: yields_def out_send del: send_fields(3))
qed

lemma meets_remove:
  assumes inv: "I s c" and kv: "kv_store s k = Some a"
  shows "meets I s (rbind (remove_from_lru a s) (\<lambda>s1. Inr (send fd msg (kv_erase k s1), b))) fd
    (Inr (cache_del k c, msg, b))"
proof -
  obtain as where r: "lru_repr s as c" using safe [OF inv] by (auto simp: db_safe_def)
  obtain s1 where s1: "remove_from_lru a s = Inr s1" "lru_state.more s1 = lru_state.more s"
    using remove_repr [OF r kv] by blast
  have "lru_state.more (kv_erase k s1) = lru_state.more s" using s1(2) by simp
  from meets_send [OF this remove [OF inv kv s1(1)]] s1(1) show ?thesis by simp
qed

lemma meets_type:
  assumes inv: "I s c" and tag: "tagged t g"
    and missing: "map_of c k = None \<Longrightarrow> kv_store s k = None \<Longrightarrow> meets I s m fd ms"
    and found: "\<And>a n x. kv_store s k = Some a \<Longrightarrow> heap s a = Some n \<Longrightarrow> map_of c k = Some (node_value n) \<Longrightarrow>
      value_wf (node_value n) \<Longrightarrow> g (data (node_value n)) = Some x \<Longrightarrow> meets I s (f a n) fd (fs (node_value n) x)"
  shows "meets I s (with_type t k fd s m f) fd (typed_spec g k c ms fs)"
proof (rule db_lookup [OF safe [OF inv], of k], goal_cases missing found)
  case missing
  then show ?thesis using assms(3) by (simp add: with_type_def typed_spec_def)
next
  case (found a n)
  show ?thesis
  proof (cases "vtype (node_value n) = t")
    case True
    then obtain x where "g (data (node_value n)) = Some x" using tag found(5) by (auto simp: tagged_def)
    then show ?thesis using True found assms(4) by (simp add: with_type_def typed_spec_def)
  next
    case False
    then have "g (data (node_value n)) = None" using tag found(5) by (auto simp: tagged_def)
    then show ?thesis using False found meets_send [OF refl inv]
      by (simp add: with_type_def typed_spec_def)
  qed
qed

end

interpretation exact: db_reader db_inv
proof
  fix s s' :: "('z) io_state_scheme" and c k a x t
  assume inv: "db_inv s c"
  show "db_safe s c" using inv by (rule db_inv_safe)
  show "db_inv (s\<lparr>out := x, ticks := t\<rparr>) c" using inv by simp
  assume kv: "kv_store s k = Some a"
  show "touch_lru a s = Inr s' \<Longrightarrow> db_inv s' (cache_touch k c)" using db_touch [OF inv kv] by auto
  show "remove_from_lru a s = Inr s' \<Longrightarrow> db_inv (kv_erase k s') (cache_del k c)"
    using db_remove [OF inv kv] by auto
qed

interpretation structural: db_reader db_safe
proof
  fix s s' :: "('z) io_state_scheme" and c k a x t
  assume inv: "db_safe s c"
  then obtain as where r: "lru_repr s as c" by (auto simp: db_safe_def)
  show "db_safe s c" by (rule inv)
  show "db_safe (s\<lparr>out := x, ticks := t\<rparr>) c" using inv by simp
  assume kv: "kv_store s k = Some a"
  show "touch_lru a s = Inr s' \<Longrightarrow> db_safe s' (cache_touch k c)"
    using touch_lru_repr [OF r kv] inv by (auto simp: db_safe_def cache_op_sets(2))
  show "remove_from_lru a s = Inr s' \<Longrightarrow> db_safe (kv_erase k s') (cache_del k c)"
    using remove_repr [OF r kv] inv cache_op_sets(1) [of k c] by (fastforce simp: db_safe_def)
qed

section \<open>Handlers that change a value\<close>

lemma upd_node_value:
  "heap s a = Some n \<Longrightarrow> f n = n\<lparr>node_value := w\<rparr> \<Longrightarrow> upd_node a f s = Inr (set_value a w s)"
  by (simp add: upd_node_def set_value_def)

lemma set_value_frame [simp]:
  "kv_store (set_value a w s) = kv_store s" "lru_state.more (set_value a w s) = lru_state.more s"
  by (simp_all add: set_value_def)

lemma meets_mutate:
  assumes inv: "db_inv s c" and kv: "kv_store s k = Some a" and lk: "map_of c k = Some v"
    and ok: "value_ok w"
    and bal: "unat new + unat (memory_usage v) = unat old + unat (memory_usage w)"
    and bnd: "cache_bytes (cache_upd k w c) < 2 ^ 64"
    and f: "\<And>s' n'. heap s' a = Some n' \<Longrightarrow> node_value n' = w \<Longrightarrow> f s' = Inr (send fd msg s', b)"
  shows "meets db_inv s (rbind (rbind (notify_memory_change old new (set_value a w s)) (touch_lru a)) f) fd
    (write_spec k w c msg b)"
proof -
  note mut = db_mutate [OF inv kv lk ok bal bnd]
  have spec: "survives k w c \<longleftrightarrow> k \<in> fst ` set (evict_spec (cache_upd k w c))"
    "set_spec k w c = cache_touch k (evict_spec (cache_upd k w c))"
    using lk by (simp_all add: survives_def set_spec_def)
  show ?thesis
  proof (cases "k \<in> fst ` set (evict_spec (cache_upd k w c))")
    case True
    then obtain s' where s': "rbind (notify_memory_change old new (set_value a w s)) (touch_lru a) = Inr s'"
      "db_inv s' (set_spec k w c)" "lru_state.more s' = lru_state.more s" "kvs (heap s') a = Some (k, w)"
      using mut unfolding spec by (simp only: if_True) blast
    then have "f s' = Inr (send fd msg s', b)" using f by (auto simp: kvs_Some)
    with True show ?thesis unfolding s'(1) using exact.meets_send [OF s'(3,2)]
      by (simp add: write_spec_def spec(1))
  next
    case False
    with mut show ?thesis by (simp add: write_spec_def spec)
  qed
qed

lemma meets_insert:
  assumes inv: "db_inv s c" and new: "kv_store s k = None" and ins: "insert_node k v s = (s1, a)"
    and ok: "value_ok v" and bnd: "cache_bytes c + entry_size (k, v) < 2 ^ 64"
  shows "meets db_inv s (rbind (add_lru a s1) (\<lambda>s'. Inr (send fd msg s', b))) fd (write_spec k v c msg b)"
proof -
  obtain s' where s': "add_lru a s1 = Inr s'" "db_inv s' (evict_spec (c @ [(k, v)]))"
    "lru_state.more s' = lru_state.more s" using db_insert [OF inv new ins ok bnd] by blast
  have "map_of c k = None" using new db_find_None [OF inv] by blast
  then show ?thesis
    using s'(1) exact.meets_send [OF s'(3,2)] by (simp add: write_spec_def survives_def set_spec_def)
qed

lemma value_small:
  assumes "db_inv s c" "map_of c k = Some v"
  shows "unat (memory_usage v) < 2 ^ 27" "value_ok v"
proof -
  have "cache_bytes c < 2 ^ 27" using assms(1) by (rule db_invE)
  then show "unat (memory_usage v) < 2 ^ 27"
    using entry_size_ge [OF map_of_SomeD [OF assms(2)]] by (simp add: entry_size_def)
  show "value_ok v" using assms map_of_SomeD [OF assms(2)] by (force simp: db_inv_def)
qed

text \<open>A value replaced by a smaller one: nothing is evicted.\<close>

lemma db_shrink:
  assumes inv: "db_inv s c" and kv: "kv_store s k = Some a" and lk: "map_of c k = Some v"
    and ok: "value_ok w" and le: "unat (memory_usage w) \<le> unat (memory_usage v)"
    and bal: "unat new + unat (memory_usage v) = unat old + unat (memory_usage w)"
  shows "\<exists>s'. notify_memory_change old new (set_value a w s) = Inr s' \<and> db_inv s' (cache_upd k w c) \<and>
    lru_state.more s' = lru_state.more s \<and> kv_store s' k = Some a \<and> kvs (heap s') a = Some (k, w)"
proof -
  let ?c = "cache_upd k w c"
  obtain as where m: "lru_repr (set_value a w s) as ?c"
    "current_memory_usage (set_value a w s) = of_nat (cache_bytes c)"
    "cache_bytes c + unat new = cache_bytes ?c + unat old" "cache_bytes c < 2 ^ 64"
    "kv_store (set_value a w s) k = Some a" using db_mutate_repr [OF inv kv lk bal] by blast
  have small: "cache_bytes c \<le> LRU_MAX_MEMORY" using inv by (simp add: db_inv_def)
  have le': "cache_bytes ?c \<le> cache_bytes c"
    using cache_bytes_upd [OF db_keys [OF inv] lk, of w] le by linarith
  then have ev: "evict_spec ?c = ?c" using small by (intro evict_spec_id) simp
  have "cache_bytes ?c < 2 ^ 64" using le' m(4) by simp
  from notify_ok [OF m(1-4) this] obtain s' j where s': "notify_memory_change old new (set_value a w s) = Inr s'"
    "lru_inv s' (drop j as) ?c" "?c = drop j ?c" "lru_state.more s' = lru_state.more s"
    unfolding ev by auto
  have r: "lru_repr s' (drop j as) ?c" using s'(2) by (simp add: lru_inv_def)
  have "db_inv s' ?c"
    using s'(2) inv ok small le' cache_op_sets(4) [of k w c] by (fastforce simp: db_inv_def)
  moreover obtain i where i: "i < length ?c" "?c ! i = (k, w)" "as ! i = a"
  proof -
    obtain n :: DrutaNode and xs ys cs ds where f: "map_of ?c k = Some (node_value n)" "as = xs @ a # ys"
      "?c = cs @ (k, node_value n) # ds" "length cs = length xs"
      by (rule lru_repr_find [OF m(1,5)]) blast
    moreover have "map_of ?c k = Some w" using lk by (simp add: map_of_cache_upd)
    ultimately show thesis by (intro that [of "length xs"]) (auto simp: nth_append)
  qed
  moreover have "drop j as = as"
  proof -
    have "length (drop j as) = length ?c" "length as = length ?c"
      using arg_cong [OF lru_reprD(4) [OF r], of length] arg_cong [OF lru_reprD(4) [OF m(1)], of length]
      by (simp_all only: contents_simps)
    then have "j = 0 \<or> as = []" by (cases as) auto
    then show ?thesis by auto
  qed
  ultimately show ?thesis using s' lru_repr_nth [OF r, of i] by simp
qed

text \<open>The size of an entry whose value comes from a request.\<close>

lemma write_bound:
  assumes inv: "db_inv s c" and args: "args_ok args" "i < length args" and k: "k = args ! i"
    and w: "unat (memory_usage w) \<le> 2 ^ 27 + request_bytes args"
  shows "cache_bytes c + entry_size (k, w) < 2 ^ 64"
    "map_of c k = Some v \<Longrightarrow> cache_bytes (cache_upd k w c) < 2 ^ 64"
proof -
  have small: "cache_bytes c < 2 ^ 27" using inv by (rule db_invE)
  have len: "length k < 2 ^ 31" using args k by (simp add: args_ok_def)
  have e: "entry_size (k, w) \<le> 160 + (2 ^ 31 + 15) + (2 ^ 27 + request_bytes args)"
    using len w copy_capacity_bound [of k] by (simp add: entry_size_def sizeof_DrutaNode_def)
  note b = args_ok_bytes [OF args(1)]
  show "cache_bytes c + entry_size (k, w) < 2 ^ 64" using e b small by simp
  show "cache_bytes (cache_upd k w c) < 2 ^ 64" if "map_of c k = Some v"
    using cache_bytes_upd [OF db_keys [OF inv] that, of w] w b small by simp
qed

section \<open>What every handler keeps\<close>

definition command_faults :: "fault set" where
  "command_faults = {Use_after_free, Empty_container, Signed_overflow, Uncaught_exception}"

definition sound :: "('z) io_state_scheme \<Rightarrow> (('z) io_state_scheme \<times> bool) res \<Rightarrow> bool" where
  "sound s r = (case r of Inl e \<Rightarrow> e \<in> command_faults
     | Inr (s', b) \<Rightarrow> (\<exists>c. db_safe s' c) \<and> clock s' = clock s \<and> io_state.more s' = io_state.more s)"

lemma sound_simps [simp]:
  "sound s (Inl e) \<longleftrightarrow> e \<in> command_faults"
  "sound s (Inr (s', b)) \<longleftrightarrow> (\<exists>c. db_safe s' c) \<and> clock s' = clock s \<and> io_state.more s' = io_state.more s"
  by (simp_all add: sound_def)

lemma command_faults_simps [simp]:
  "Use_after_free \<in> command_faults" "Empty_container \<in> command_faults" "Signed_overflow \<in> command_faults"
  "Uncaught_exception \<in> command_faults"
  by (simp_all add: command_faults_def)

lemma meets_sound:
  "meets db_safe s r fd spec \<Longrightarrow> (\<And>e. spec = Inl e \<Longrightarrow> e \<in> command_faults) \<Longrightarrow> sound s r"
  by (auto simp: meets_def yields_def split: sum.splits)

lemma sound_ticks: "sound (s\<lparr>ticks := t\<rparr>) r \<Longrightarrow> sound s r"
  by (auto simp: sound_def split: sum.splits)

lemma sound_send: "lru_state.more s' = lru_state.more s \<Longrightarrow> db_safe s' c \<Longrightarrow> sound s (Inr (send fd msg s', b))"
  using io_frame [of s' s] by auto

lemma sound_type:
  assumes inv: "db_safe s c"
    and missing: "kv_store s k = None \<Longrightarrow> sound s m"
    and found: "\<And>a n. kv_store s k = Some a \<Longrightarrow> heap s a = Some n \<Longrightarrow> value_wf (node_value n) \<Longrightarrow>
      vtype (node_value n) = t \<Longrightarrow> sound s (f a n)"
  shows "sound s (with_type t k fd s m f)"
proof (rule db_lookup [OF inv, of k], goal_cases)
  case 1
  then show ?case using missing by (simp add: with_type_def)
next
  case (2 a n)
  then show ?case using found sound_send [OF refl inv]
    by (simp add: with_type_def del: sound_simps)
qed

lemma set_value_repr:
  assumes "db_safe s c" "kv_store s k = Some a" "value_wf w"
  obtains as where "lru_repr (set_value a w s) as (cache_upd k w c)"
    "\<forall>e\<in>set (cache_upd k w c). value_wf (snd e)" "map_of (cache_upd k w c) k = Some w"
proof -
  obtain as where r: "lru_repr s as c" and wf: "\<forall>e\<in>set c. value_wf (snd e)"
    using assms(1) by (auto simp: db_safe_def)
  obtain n :: DrutaNode where n: "heap s a = Some n" "map_of c k = Some (node_value n)"
    by (rule lru_repr_find [OF r assms(2)]) blast
  have "lru_repr (set_value a w s) as (cache_upd k w c)"
    using upd_value_ok [OF r assms(2) n(1)] n by (simp add: set_value_def)
  then show thesis
    using that wf assms(3) cache_op_sets(4) [of k w c] n(2) by (fastforce simp: map_of_cache_upd)
qed

lemma sound_mutate:
  fixes s :: "('z) io_state_scheme"
  assumes inv: "db_safe s c" and kv: "kv_store s k = Some a" and wf: "value_wf w"
    and f: "\<And>s' n'. heap s' a = Some n' \<Longrightarrow> node_value n' = w \<Longrightarrow> f s' = Inr (send fd msg s', b)"
  shows "sound s (rbind (rbind (notify_memory_change old new (set_value a w s)) (touch_lru a)) f)"
proof -
  obtain as where m: "lru_repr (set_value a w s) as (cache_upd k w c)"
    "\<forall>e\<in>set (cache_upd k w c). value_wf (snd e)" "map_of (cache_upd k w c) k = Some w"
    by (rule set_value_repr [OF inv kv wf])
  have kv': "kv_store (set_value a w s) k = Some a" using kv by simp
  from notify_touch_repr [OF m(1) kv', of old new] show ?thesis
  proof (elim disjE exE conjE)
    fix s' as' c'
    assume s': "rbind (notify_memory_change old new (set_value a w s)) (touch_lru a) = Inr s'"
      "lru_repr s' as' c'" "set c' \<subseteq> set (cache_upd k w c)"
      "lru_state.more s' = lru_state.more (set_value a w s)" "kv_store s' k = Some a"
    obtain n :: DrutaNode where n: "heap s' a = Some n" "map_of c' k = Some (node_value n)"
      by (rule lru_repr_find [OF s'(2,5)]) blast
    have "(k, node_value n) \<in> set (cache_upd k w c)" using map_of_SomeD [OF n(2)] s'(3) by blast
    then have "node_value n = w" using m(3) lru_repr_keys(1) [OF m(1)] by (simp add: map_of_is_SomeI)
    then have "f s' = Inr (send fd msg s', b)" using n(1) f by blast
    moreover have "db_safe s' c'" using s'(2,3) m(2) by (auto simp: db_safe_def)
    moreover have "lru_state.more s' = lru_state.more s" using s'(4) by simp
    ultimately show ?thesis unfolding s'(1) using sound_send [of s' s c' fd msg b] by simp
  qed simp
qed

lemma sound_insert:
  assumes inv: "db_safe s c" and new: "kv_store s k = None" and ins: "insert_node k v s = (s1, a)"
    and wf: "value_wf v"
  shows "\<exists>s' c'. add_lru a s1 = Inr s' \<and> db_safe s' c' \<and> lru_state.more s' = lru_state.more s \<and>
    (\<forall>n. heap s' a = Some n \<longrightarrow> kv_store s' k = Some a \<and> node_value n = v)"
proof -
  obtain as where r: "lru_repr s as c" and w: "\<forall>e\<in>set c. value_wf (snd e)"
    using inv by (auto simp: db_safe_def)
  obtain s' m where s': "add_lru a s1 = Inr s'" "lru_repr s' (drop m (as @ [a])) (drop m (c @ [(k, v)]))"
    "lru_state.more s' = lru_state.more s" using add_lru_repr [OF r new ins] by blast
  have safe: "db_safe s' (drop m (c @ [(k, v)]))"
    using s'(2) w wf by (fastforce simp: db_safe_def dest: in_set_dropD)
  have len: "length as = length c" using lru_reprD(4) [OF r] by simp
  have nin: "a \<notin> set as" using lru_reprD(6) [OF r, of a] insert_node_fields(1) [OF new ins] by auto
  have "kv_store s' k = Some a \<and> node_value n = v" if n: "heap s' a = Some n" for n
  proof -
    have "a \<in> set (drop m (as @ [a]))" using lru_reprD(2) [OF s'(2)] n by auto
    then have "m \<le> length as" using nin by (cases "m \<le> length as") (auto dest: in_set_dropD)
    then show ?thesis
      using lru_repr_nth [OF s'(2), of "length as - m"] len n
      by (simp add: nth_append kvs_def)
  qed
  with s' safe show ?thesis by blast
qed

lemma sound_notify:
  assumes "db_safe s c" "kv_store s k = Some a" "value_wf w"
  shows "\<exists>s' c'. notify_memory_change old new (set_value a w s) = Inr s' \<and> db_safe s' c' \<and>
    lru_state.more s' = lru_state.more s"
proof -
  obtain as where m: "lru_repr (set_value a w s) as (cache_upd k w c)"
    "\<forall>e\<in>set (cache_upd k w c). value_wf (snd e)" by (rule set_value_repr [OF assms])
  from notify_repr [OF m(1), of old new] m(2) show ?thesis
    by (fastforce simp: db_safe_def dest: in_set_dropD)
qed

section \<open>States with given contents\<close>

definition empty_db :: "(nat \<Rightarrow> int) \<Rightarrow> io_state" where
  "empty_db clk = \<lparr>kv_store = Map.empty, heap = Map.empty, next_addr = 0, HEAD = None, TAIL = None, lru_size = 0,
     current_memory_usage = 0, out = [], clock = clk, ticks = 0\<rparr>"

lemma db_inv_empty: "db_inv (empty_db clk) []"
  by (auto simp: empty_db_def db_inv_def lru_inv_def lru_repr_def linked_def kvs_def)

text \<open>Every list of well-formed entries within the limit is the contents of some state.\<close>

definition storable :: "cache \<Rightarrow> bool" where
  "storable c = (distinct (map fst c) \<and> cache_bytes c \<le> LRU_MAX_MEMORY \<and> list_all (\<lambda>e. value_ok (snd e)) c)"

lemma db_inv_inhabited:
  assumes "db_inv (s0 :: ('z) lru_state_scheme) []" "storable c"
  shows "\<exists>s :: ('z) lru_state_scheme. db_inv s c \<and> lru_state.more s = lru_state.more s0"
  using assms(2)
proof (induction c rule: rev_induct)
  case Nil
  then show ?case using assms(1) by blast
next
  case (snoc e c)
  obtain k v where e: "e = (k, v)" by (cases e)
  have "storable c" using snoc.prems by (auto simp: storable_def)
  then obtain s :: "('z) lru_state_scheme" where s: "db_inv s c" "lru_state.more s = lru_state.more s0"
    using snoc.IH by blast
  have "map_of c k = None" using snoc.prems e by (auto simp: storable_def map_of_eq_None_iff)
  then have new: "kv_store s k = None" using db_find_None [OF s(1)] by blast
  obtain s1 a where ins: "insert_node k v s = (s1, a)" by fastforce
  have ok: "value_ok v" and le: "cache_bytes (c @ [(k, v)]) \<le> LRU_MAX_MEMORY"
    using snoc.prems e by (auto simp: storable_def)
  then have bnd: "cache_bytes c + entry_size (k, v) < 2 ^ 64" by (simp add: LRU_MAX_MEMORY_def)
  have "evict_spec (c @ [(k, v)]) = c @ [(k, v)]" using le by (rule evict_spec_id)
  with db_insert [OF s(1) new ins ok bnd] show ?case unfolding e using s(2) by auto
qed

lemma sample_db: "storable c \<Longrightarrow> \<exists>s. db_inv s c \<and> lru_state.more s = lru_state.more (empty_db clk)"
  by (rule db_inv_inhabited [OF db_inv_empty])

section \<open>Writes that fit\<close>

lemma map_of_upd_other: "j \<noteq> k \<Longrightarrow> map_of (cache_upd k w c) j = map_of c j"
  by (induction c) (auto simp: cache_upd_def)

lemma map_of_upd_same: "map_of c k \<noteq> None \<Longrightarrow> map_of (cache_upd k w c) = (map_of c)(k \<mapsto> w)"
  using map_of_cache_upd map_of_upd_other by (fastforce simp: fun_eq_iff)

lemma cache_upd_keys: "map fst (cache_upd k w c) = map fst c"
  by (induction c) (auto simp: cache_upd_def)

text \<open>A value that fits is written without an eviction.\<close>

lemma set_spec_upd:
  assumes "distinct (map fst c)" "map_of c k = Some v" "cache_bytes (cache_upd k w c) \<le> LRU_MAX_MEMORY"
  shows "survives k w c" "map_of (set_spec k w c) = (map_of c)(k \<mapsto> w)"
proof -
  have ev: "evict_spec (cache_upd k w c) = cache_upd k w c" using assms(3) by (rule evict_spec_id)
  have m: "map_of (cache_upd k w c) = (map_of c)(k \<mapsto> w)" using assms(2) by (simp add: map_of_upd_same)
  then have "k \<in> fst ` set (cache_upd k w c)" by (metis fun_upd_same map_of_eq_None_iff option.distinct(1))
  then show "survives k w c" "map_of (set_spec k w c) = (map_of c)(k \<mapsto> w)"
    using assms(1,2) ev m by (simp_all add: survives_def set_spec_def map_of_cache_touch cache_upd_keys)
qed

lemma set_spec_fits:
  assumes "distinct (map fst c)" "cache_bytes c + entry_size (k, w) \<le> LRU_MAX_MEMORY"
  shows "survives k w c" "map_of (set_spec k w c) = (map_of c)(k \<mapsto> w)"
proof -
  have "survives k w c \<and> map_of (set_spec k w c) = (map_of c)(k \<mapsto> w)"
  proof (cases "map_of c k")
    case None
    then have "evict_spec (c @ [(k, w)]) = c @ [(k, w)]" using assms(2) by (intro evict_spec_id) simp
    then show ?thesis using None by (auto simp: survives_def set_spec_def map_add_def fun_eq_iff split: option.split)
  next
    case (Some v)
    have "cache_bytes (cache_upd k w c) + unat (memory_usage v) = cache_bytes c + unat (memory_usage w)"
      by (rule cache_bytes_upd [OF assms(1) Some])
    then have "cache_bytes (cache_upd k w c) \<le> LRU_MAX_MEMORY" using assms(2) by (simp add: entry_size_def)
    then show ?thesis using set_spec_upd [OF assms(1) Some] by simp
  qed
  then show "survives k w c" "map_of (set_spec k w c) = (map_of c)(k \<mapsto> w)" by simp_all
qed

text \<open>A value that is larger than the limit by itself does not survive the eviction that follows it.\<close>

lemma too_large_evicted:
  assumes "LRU_MAX_MEMORY < entry_size (k, w)" "map_of c k \<noteq> None"
  shows "\<not> survives k w c"
proof
  assume "survives k w c"
  then obtain e where e: "e \<in> set (evict_spec (cache_upd k w c))" "fst e = k" using assms(2) by (auto simp: survives_def)
  then have "e \<in> set (cache_upd k w c)" using cache_op_sets(3) by blast
  then have "e = (k, w)" using e(2) by (auto simp: cache_upd_def split: if_splits)
  then have "entry_size (k, w) \<le> cache_bytes (evict_spec (cache_upd k w c))" using e(1) entry_size_ge by blast
  then show False using evict_spec_bound [of "cache_upd k w c"] assms(1) by linarith
qed

text \<open>Small stores, for examples.\<close>

lemma storableI:
  assumes "distinct (map fst c) \<and> list_all (\<lambda>e. value_ok (snd e)) c \<and> cache_bytes c \<le> 1000"
  shows "storable c"
  using assms by (simp add: storable_def LRU_MAX_MEMORY_def)

lemma storable_at:
  assumes "storable c" "map_of c k = Some v"
  shows "value_ok v" "unat (memory_usage v) \<le> LRU_MAX_MEMORY" "distinct (map fst c)"
proof -
  have "(k, v) \<in> set c" using assms(2) by (rule map_of_SomeD)
  then show "value_ok v" "unat (memory_usage v) \<le> LRU_MAX_MEMORY" "distinct (map fst c)"
    using assms(1) entry_size_ge [of k v c] by (auto simp: storable_def list_all_iff entry_size_def)
qed

lemma db_inv_storable: "db_inv s c \<Longrightarrow> storable c"
  using db_keys by (auto simp: storable_def db_inv_def list_all_iff)

lemma small_fits: "entry_size e \<le> 1000 \<Longrightarrow> cache_bytes [] + entry_size e \<le> LRU_MAX_MEMORY"
  by (simp add: LRU_MAX_MEMORY_def)

lemma yieldsE:
  assumes "yields I s r fd c msg b"
  obtains s' where "r = Inr (s', b)" "I s' c" "out s' = out s @ reply fd msg" "clock s' = clock s" "io_state.more s' = io_state.more s"
  using assms by (auto simp: yields_def)

end
