(* ===== verification/Cmd_String.thy ===== *)
theory Cmd_String
  imports Druta_Db
begin

text \<open>
  The handlers of commands.cpp that work on strings and whole keys: PING, ECHO, SET, GET, DEL,
  MEMSTATS. Each lemma gives the reply and the new contents of the store as a function of the
  old ones, on every branch. \<open>db_inv\<close> is the invariant between commands: the store refines a
  cache, the byte counter is exact and within the limit, every stored value is well formed.
\<close>

section \<open>Handlers\<close>

definition command_ping :: "int \<Rightarrow> ('z) io_state_scheme \<Rightarrow> ('z) io_state_scheme" where
  "command_ping fd s = send fd (''+PONG'' @ crlf) s"

definition command_echo :: "int \<Rightarrow> string list \<Rightarrow> ('z) io_state_scheme \<Rightarrow> ('z) io_state_scheme res" where
  "command_echo fd args s = rbind (arg args 1) (\<lambda>a. Inr (send fd (resp_bulk_string [] a) s))"

definition in_ll :: "int \<Rightarrow> bool" where
  "in_ll i = (- (2 ^ 63) \<le> i \<and> i < 2 ^ 63)"

text \<open>The option loop of SET. \<open>None\<close> is the exception of \<open>std::stoll\<close>, which the handler catches;
  an expiry outside \<open>long long\<close> is signed overflow.\<close>

fun set_options :: "string list \<Rightarrow> int \<Rightarrow> ('z) io_state_scheme \<Rightarrow> (int option \<times> ('z) io_state_scheme) res" where
  "set_options [] e s = Inr (Some e, s)"
| "set_options [opt] e s = Inr (Some e, s)"
| "set_options (opt # v # rest) e s =
     (if toupper opt = ''EX'' then
        (case stoll v of None \<Rightarrow> Inr (None, s)
         | Some seconds \<Rightarrow>
             let (now, s1) = get_current_time_ms s in
             if in_ll (seconds * 1000) \<and> in_ll (now + seconds * 1000)
             then set_options rest (now + seconds * 1000) s1 else Inl Signed_overflow)
      else if toupper opt = ''PX'' then
        (case stoll v of None \<Rightarrow> Inr (None, s)
         | Some ms \<Rightarrow>
             let (now, s1) = get_current_time_ms s in
             if in_ll (now + ms) then set_options rest (now + ms) s1 else Inl Signed_overflow)
      else if toupper opt = ''PXAT'' then
        (case stoll v of None \<Rightarrow> Inr (None, s) | Some ms \<Rightarrow> set_options rest ms s)
      else set_options (v # rest) e s)"

definition command_set :: "int \<Rightarrow> string list \<Rightarrow> ('z) io_state_scheme \<Rightarrow> (('z) io_state_scheme \<times> bool) res" where
  "command_set fd args s =
     rbind (arg args 1) (\<lambda>key.
     rbind (arg args 2) (\<lambda>val.
     rbind (set_options (drop 3 args) 0 s) (\<lambda>(expire, s1).
     case expire of
       None \<Rightarrow> Inr (send fd (''-ERR value is not an integer or out of range'' @ crlf) s1, False)
     | Some expire_at \<Rightarrow>
         rbind (case kv_store s1 key of
             Some a \<Rightarrow> update_lru a (new_string val expire_at) s1
           | None \<Rightarrow> (case insert_node key (new_string val expire_at) s1 of (s2, a) \<Rightarrow> add_lru a s2))
         (\<lambda>s3. Inr (send fd (''+OK'' @ crlf) s3, True)))))"

definition command_get :: "int \<Rightarrow> string list \<Rightarrow> ('z) io_state_scheme \<Rightarrow> (('z) io_state_scheme \<times> bool) res" where
  "command_get fd args s =
     rbind (arg args 1) (\<lambda>key.
     with_type STRING key fd s (Inr (send fd nil_reply s, False)) (\<lambda>a node.
       let (now, s1) = get_current_time_ms s in
       if expiry_time (node_value node) \<noteq> 0 \<and> expiry_time (node_value node) < now
       then rbind (remove_from_lru a s1) (\<lambda>s2. Inr (send fd nil_reply (kv_erase key s2), False))
       else rbind (touch_lru a s1) (\<lambda>s2.
            rbind (deref a s2) (\<lambda>node2.
            rbind (get_string (node_value node2)) (\<lambda>val.
            Inr (send fd (resp_bulk_string [] val) s2, False))))))"

definition command_del :: "int \<Rightarrow> string list \<Rightarrow> ('z) io_state_scheme \<Rightarrow> (('z) io_state_scheme \<times> bool) res" where
  "command_del fd args s =
     rbind (del_loop kv_del (drop 1 args) s) (\<lambda>(s1, del_count).
     Inr (send_integer fd (int del_count) s1, del_count > 0))"

definition command_memstats :: "int \<Rightarrow> ('z) io_state_scheme \<Rightarrow> ('z) io_state_scheme" where
  "command_memstats fd s =
     send fd (''+Memory Usage: '' @ to_string (unat (current_memory_usage s)) @ '' bytes'' @ crlf @ '' ''
       @ ''+Memory Limit: '' @ to_string LRU_MAX_MEMORY @ '' bytes'' @ crlf) s"

section \<open>GET\<close>

definition expired :: "DrutaValue \<Rightarrow> int \<Rightarrow> bool" where
  "expired v now = (expiry_time v \<noteq> 0 \<and> expiry_time v < now)"

definition get_spec :: "int \<Rightarrow> string \<Rightarrow> cache \<Rightarrow> command_spec" where
  "get_spec now k c = typed_spec as_string k c (Inr (c, nil_reply, False)) (\<lambda>v val.
     if expired v now then Inr (cache_del k c, nil_reply, False) else Inr (cache_touch k c, bulk val, False))"

context db_reader
begin

lemma get_ok:
  assumes inv: "I s c" and args: "length args = 2"
  shows "meets I s (command_get fd args s) fd (get_spec (clock s (ticks s)) (args ! 1) c)"
proof -
  let ?s = "s\<lparr>ticks := Suc (ticks s)\<rparr>" and ?k = "args ! 1"
  have inv': "I ?s c" using inv by (rule I_ticks)
  have arg1: "arg args 1 = Inr ?k" using args by simp
  show ?thesis
    unfolding command_get_def get_spec_def arg1 rbind_simps
  proof (rule meets_type [OF inv tagged(1)], goal_cases)
    case 1
    show ?case by (rule meets_send [OF refl inv])
  next
    case (2 a n val)
    then have kv': "kv_store ?s ?k = Some a" and n': "heap ?s a = Some n" by simp_all
    show ?case
    proof (cases "expired (node_value n) (clock s (ticks s))")
      case True
      then show ?thesis using meets_ticks [OF meets_remove [OF inv' kv', of fd nil_reply False]]
        by (simp add: get_current_time_ms_def expired_def)
    next
      case False
      have "meets I ?s (rbind (touch_lru a ?s) (\<lambda>s2. rbind (deref a s2) (\<lambda>node2.
          rbind (get_string (node_value node2)) (\<lambda>val. Inr (send fd (resp_bulk_string [] val) s2, False))))) fd
          (Inr (cache_touch ?k c, bulk val, False))"
        using 2(5) by (intro meets_touch [OF inv' kv' n']) (simp add: bulk_def)
      from meets_ticks [OF this] False show ?thesis by (auto simp: get_current_time_ms_def expired_def)
    qed
  qed
qed

end

section \<open>DEL\<close>

lemma del_loop_cache:
  assumes "db_inv s c"
  shows "\<exists>s'. del_loop kv_del ks s = Inr (s', card (set ks \<inter> fst ` set c)) \<and>
    db_inv s' (filter (\<lambda>e. fst e \<notin> set ks) c) \<and> lru_state.more s' = lru_state.more s"
  using assms
proof (induction ks arbitrary: s c)
  case Nil
  then show ?case by simp
next
  case (Cons k ks)
  obtain as where as: "lru_inv s as c" "lru_repr s as c" using Cons.prems by (rule db_invE)
  from kv_del_cache [OF as(1)] obtain s1 as1 where s1: "kv_del k s = Inr (s1, k \<in> dom (kv_store s))"
    "lru_inv s1 as1 (cache_del k c)" "lru_state.more s1 = lru_state.more s" by blast
  have "db_inv s1 (cache_del k c)"
    using s1(2) Cons.prems cache_op_sets(1) [of k c] cache_bytes_del [of k c] by (fastforce simp: db_inv_def)
  from Cons.IH [OF this] obtain s2 where s2:
    "del_loop kv_del ks s1 = Inr (s2, card (set ks \<inter> fst ` set (cache_del k c)))"
    "db_inv s2 (filter (\<lambda>e. fst e \<notin> set ks) (cache_del k c))"
    "lru_state.more s2 = lru_state.more s1" by blast
  have f: "filter (\<lambda>e. fst e \<notin> set ks) (cache_del k c) = filter (\<lambda>e. fst e \<notin> set (k # ks)) c"
    by (auto simp: cache_del_def intro: filter_cong)
  let ?B = "set ks \<inter> fst ` set (cache_del k c)"
  have keys: "fst ` set (cache_del k c) = fst ` set c - {k}" by (auto simp: cache_del_def)
  have "set (k # ks) \<inter> fst ` set c = (if k \<in> fst ` set c then insert k ?B else ?B)" "k \<notin> ?B" "finite ?B"
    unfolding keys by auto
  then have "card (set (k # ks) \<inter> fst ` set c) = (if k \<in> fst ` set c then Suc (card ?B) else card ?B)"
    by simp
  with s1 s2 lru_repr_keys(2) [OF as(2), of k] show ?case unfolding f by auto
qed

definition del_spec :: "string list \<Rightarrow> cache \<Rightarrow> command_spec" where
  "del_spec ks c = (let n = card (set ks \<inter> fst ` set c) in
     Inr (filter (\<lambda>e. fst e \<notin> set ks) c, integer_reply (int n), n > 0))"

lemma command_del_ok:
  assumes inv: "db_inv s c"
  shows "meets db_inv s (command_del fd args s) fd (del_spec (drop 1 args) c)"
proof -
  obtain s' where s': "del_loop kv_del (drop 1 args) s = Inr (s', card (set (drop 1 args) \<inter> fst ` set c))"
    "db_inv s' (filter (\<lambda>e. fst e \<notin> set (drop 1 args)) c)" "lru_state.more s' = lru_state.more s"
    using del_loop_cache [OF inv] by blast
  then show ?thesis using exact.meets_send [OF s'(3,2)]
    by (simp add: command_del_def send_integer_eq del_spec_def Let_def)
qed

section \<open>SET\<close>

text \<open>The option loop reads the clock and nothing else.\<close>

lemma set_options_frame:
  fixes s :: "('z) io_state_scheme"
  shows "set_options opts e s = Inr (r, s') \<Longrightarrow> \<exists>t. s' = s\<lparr>ticks := t\<rparr>"
proof (induction opts e s rule: set_options.induct)
  case (1 e s)
  then show ?case by (auto intro: exI [of _ "ticks s"])
next
  case (2 opt e s)
  then show ?case by (auto intro: exI [of _ "ticks s"])
next
  case (3 opt v rest e s)
  have refl: "\<exists>t. u = u\<lparr>ticks := t\<rparr>" for u :: "('z) io_state_scheme" by (auto intro: exI [of _ "ticks u"])
  from 3 show ?case
    by (auto simp: get_current_time_ms_def Let_def split: if_splits option.splits intro: refl) 
qed

lemma in_ll_0 [simp]: "in_ll 0"
  by (simp add: in_ll_def)

lemma stoll_in_ll: "stoll v = Some n \<Longrightarrow> in_ll n"
  by (simp add: stoll_def in_ll_def split: option.splits if_splits)

lemma set_options_in_ll: "set_options opts e s = Inr (Some e', s') \<Longrightarrow> in_ll e \<Longrightarrow> in_ll e'"
  by (induction opts e s rule: set_options.induct)
     (auto simp: get_current_time_ms_def Let_def dest: stoll_in_ll split: if_splits option.splits)

definition set_command_spec :: "string list \<Rightarrow> ('z) io_state_scheme \<Rightarrow> cache \<Rightarrow> command_spec" where
  "set_command_spec args s c = (case set_options (drop 3 args) 0 s of
     Inl e \<Rightarrow> Inl e
   | Inr (None, _) \<Rightarrow> Inr (c, ''-ERR value is not an integer or out of range'' @ crlf, False)
   | Inr (Some e, _) \<Rightarrow> write_spec (args ! 1) (new_string (args ! 2) e) c (''+OK'' @ crlf) True)"

lemma update_lru_eq:
  assumes "heap s a = Some n"
  shows "update_lru a v s =
    rbind (notify_memory_change (get_memory_usage n) (get_memory_usage (n\<lparr>node_value := v\<rparr>)) (set_value a v s))
      (touch_lru a)"
  using assms by (simp add: update_lru_def upd_node_def set_value_def deref_def)

lemma unat_get_memory_usage:
  "entry_size (node_key n, node_value n) < 2 ^ 64 \<Longrightarrow>
   unat (get_memory_usage n) = entry_size (node_key n, node_value n)"
  unfolding get_memory_usage_entry by (rule unat_of_nat_size)

lemma new_string_ok:
  assumes "args_ok args" "i < length args" "j < length args"
  shows "value_ok (new_string (args ! j) e)" "entry_size (args ! i, new_string (args ! j) e) < 2 ^ 40"
    "unat (memory_usage (new_string (args ! j) e)) \<le> 2 ^ 27 + request_bytes args"
proof -
  have len: "length (args ! i) < 2 ^ 31" "length (args ! j) < 2 ^ 31" using assms by (simp_all add: args_ok_def)
  show ok: "value_ok (new_string (args ! j) e)" using len by (intro value_ok_new_string) simp
  then have u: "unat (memory_usage (new_string (args ! j) e)) = 32 + calc_string_usage (args ! j)"
    by (simp add: value_ok_def value_bytes_def new_string_def)
  then show "entry_size (args ! i, new_string (args ! j) e) < 2 ^ 40"
    using len copy_capacity_bound [of "args ! i"] copy_capacity_bound [of "args ! j"]
    by (simp add: entry_size_def sizeof_DrutaNode_def calc_string_usage_def)
  show "unat (memory_usage (new_string (args ! j) e)) \<le> 2 ^ 27 + request_bytes args"
    using u request_bytes_mem [of "args ! j" args] assms(3) copy_capacity_bound [of "args ! j"]
    by (simp add: calc_string_usage_def)
qed

lemma set_write_ok:
  assumes inv: "db_inv s c" and args: "args_ok args" "3 \<le> length args"
    and v_def: "v = new_string (args ! 2) e" and k_def: "k = args ! 1"
  shows "meets db_inv s (rbind (case kv_store s k of Some a \<Rightarrow> update_lru a v s
        | None \<Rightarrow> (case insert_node k v s of (s2, a) \<Rightarrow> add_lru a s2))
      (\<lambda>s'. Inr (send fd msg s', True))) fd (write_spec k v c msg True)"
proof -
  have ok: "value_ok v" and sz: "entry_size (k, v) < 2 ^ 40"
    and mu: "unat (memory_usage v) \<le> 2 ^ 27 + request_bytes args"
    unfolding v_def k_def using args new_string_ok [of args 1 2 e] by simp_all
  have i: "1 < length args" using args by simp
  note bnd = write_bound [OF inv args(1) i k_def mu]
  show ?thesis
  proof (cases "kv_store s k")
    case None
    obtain s2 a where ins: "insert_node k v s = (s2, a)" by fastforce
    from meets_insert [OF inv None ins ok bnd(1)] None ins show ?thesis by simp
  next
    case (Some a)
    obtain n where n: "heap s a = Some n" "node_key n = k" "map_of c k = Some (node_value n)"
      using db_find [OF inv Some] by metis
    let ?m = "n\<lparr>node_value := v\<rparr>"
    have "cache_bytes c < 2 ^ 27" using inv by (rule db_invE)
    then have u: "unat (get_memory_usage n) = entry_size (k, node_value n)"
      "unat (get_memory_usage ?m) = entry_size (k, v)"
      using unat_get_memory_usage [of n] unat_get_memory_usage [of ?m] n(2) sz
        entry_size_ge [OF map_of_SomeD [OF n(3)]] by simp_all
    have "unat (get_memory_usage ?m) + unat (memory_usage (node_value n)) =
        unat (get_memory_usage n) + unat (memory_usage v)" unfolding u by (simp add: entry_size_def)
    then show ?thesis unfolding Some option.case update_lru_eq [OF n(1)]
      by (intro meets_mutate [OF inv Some n(3) ok _ bnd(2) [OF n(3)]]) simp_all
  qed
qed

lemma command_set_unfold:
  assumes "3 \<le> length args"
  shows "command_set fd args s = rbind (set_options (drop 3 args) 0 s) (\<lambda>(expire, s1). case expire of
       None \<Rightarrow> Inr (send fd (''-ERR value is not an integer or out of range'' @ crlf) s1, False)
     | Some e \<Rightarrow> rbind (case kv_store s1 (args ! 1) of
           Some a \<Rightarrow> update_lru a (new_string (args ! 2) e) s1
         | None \<Rightarrow> (case insert_node (args ! 1) (new_string (args ! 2) e) s1 of (s2, a) \<Rightarrow> add_lru a s2))
         (\<lambda>s3. Inr (send fd (''+OK'' @ crlf) s3, True)))"
proof -
  have "arg args 1 = Inr (args ! 1)" "arg args 2 = Inr (args ! 2)" using assms by simp_all
  then show ?thesis by (simp only: command_set_def rbind_simps)
qed

lemma command_set_ok:
  assumes inv: "db_inv s c" and args: "args_ok args" "3 \<le> length args"
  shows "meets db_inv s (command_set fd args s) fd (set_command_spec args s c)"
proof (cases "set_options (drop 3 args) 0 s")
  case (Inl e)
  then show ?thesis by (simp add: command_set_unfold [OF args(2)] set_command_spec_def)
next
  case (Inr r)
  then obtain o1 s1 where r: "set_options (drop 3 args) 0 s = Inr (o1, s1)" by (cases r) simp
  then obtain t where s1: "s1 = s\<lparr>ticks := t\<rparr>" using set_options_frame by blast
  then have inv1: "db_inv s1 c" using inv by simp
  show ?thesis
  proof (rule meets_ticks [where t = t], fold s1, cases o1)
    case None
    then show "meets db_inv s1 (command_set fd args s) fd (set_command_spec args s c)"
      using exact.meets_send [OF refl inv1] r
      by (simp add: command_set_unfold [OF args(2)] set_command_spec_def)
  next
    case (Some e)
    then show "meets db_inv s1 (command_set fd args s) fd (set_command_spec args s c)"
      using set_write_ok [OF inv1 args refl refl]
      unfolding command_set_unfold [OF args(2)] set_command_spec_def r
      by (simp only: rbind_simps prod.case option.case sum.case)
  qed
qed

section \<open>Structural safety\<close>

lemma set_options_faults: "set_options opts e s = Inl f \<Longrightarrow> f = Signed_overflow"
  by (induction opts e s rule: set_options.induct)
     (auto simp: Let_def split: if_splits option.splits prod.splits)

lemma set_write_sound:
  assumes inv: "db_safe s c" and wf: "value_wf v"
  shows "sound s (rbind (case kv_store s k of Some a \<Rightarrow> update_lru a v s
        | None \<Rightarrow> (case insert_node k v s of (s2, a) \<Rightarrow> add_lru a s2)) (\<lambda>s'. Inr (send fd msg s', b)))"
proof (rule db_lookup [OF inv, of k], goal_cases)
  case 1
  obtain s2 a where ins: "insert_node k v s = (s2, a)" by fastforce
  from sound_insert [OF inv 1(1) ins wf] ins 1 show ?case
    by (auto simp del: sound_simps intro: sound_send)
next
  case (2 a n)
  then show ?case
    unfolding 2(1) option.case update_lru_eq [OF 2(2)] by (intro sound_mutate [OF inv 2(1) wf]) simp
qed

lemma command_set_sound:
  assumes inv: "db_safe s c" and args: "3 \<le> length args"
  shows "sound s (command_set fd args s)"
proof (cases "set_options (drop 3 args) 0 s")
  case (Inl e)
  then show ?thesis using set_options_faults [OF Inl] by (simp add: command_set_unfold [OF args])
next
  case (Inr r)
  then obtain o1 s1 where r: "set_options (drop 3 args) 0 s = Inr (o1, s1)" by (cases r) simp
  then obtain t where s1: "s1 = s\<lparr>ticks := t\<rparr>" using set_options_frame by blast
  then have inv1: "db_safe s1 c" using inv by simp
  show ?thesis
  proof (rule sound_ticks [where t = t], fold s1, cases o1)
    case None
    then show "sound s1 (command_set fd args s)"
      using r sound_send [OF refl inv1] by (simp add: command_set_unfold [OF args] del: sound_simps)
  next
    case (Some e)
    have "value_wf (new_string (args ! 2) e)" by (simp add: value_wf_def new_string_def)
    from set_write_sound [OF inv1 this] show "sound s1 (command_set fd args s)"
      unfolding command_set_unfold [OF args] r Some by (simp only: rbind_simps prod.case option.case)
  qed
qed

lemma command_get_sound: "db_safe s c \<Longrightarrow> length args = 2 \<Longrightarrow> sound s (command_get fd args s)"
  by (rule meets_sound [OF structural.get_ok])
     (auto simp: get_spec_def typed_spec_def split: option.splits if_splits)

lemma del_loop_sound:
  assumes "db_safe s c"
  shows "\<exists>s' n c'. del_loop kv_del ks s = Inr (s', n) \<and> db_safe s' c' \<and> lru_state.more s' = lru_state.more s"
  using assms
proof (induction ks arbitrary: s c)
  case Nil
  then show ?case by auto
next
  case (Cons k ks)
  obtain s1 b c1 where s1: "kv_del k s = Inr (s1, b)" "db_safe s1 c1" "lru_state.more s1 = lru_state.more s"
  proof (rule db_lookup [OF Cons.prems, of k], goal_cases)
    case 1
    from 1(2) Cons.prems show ?case by (intro 1(1) [of s False c]) (simp_all add: kv_del_def)
  next
    case (2 a n)
    obtain as where r: "lru_repr s as c" using Cons.prems by (auto simp: db_safe_def)
    obtain s1 as' where s1: "remove_from_lru a s = Inr s1" "lru_repr (kv_erase k s1) as' (cache_del k c)"
      "lru_state.more s1 = lru_state.more s" using remove_repr [OF r 2(2)] by blast
    then show ?case using 2(2) Cons.prems cache_op_sets(1) [of k c]
      by (intro 2(1) [of "kv_erase k s1" True "cache_del k c"]) (auto simp: kv_del_def db_safe_def)
  qed
  from Cons.IH [OF s1(2)] s1 show ?case by auto
qed

lemma command_del_sound: "db_safe s c \<Longrightarrow> sound s (command_del fd args s)"
  using del_loop_sound [of s c "drop 1 args"]
  by (auto simp: command_del_def send_integer_eq simp del: sound_simps intro: sound_send)

section \<open>Properties\<close>

lemma set_fits:
  assumes inv: "db_inv s c" and args: "args_ok args" "3 \<le> length args"
    and opts: "set_options (drop 3 args) 0 s = Inr (Some e, s)"
    and fits: "cache_bytes c + entry_size (args ! 1, new_string (args ! 2) e) \<le> LRU_MAX_MEMORY"
  obtains s1 c1 where "command_set fd args s = Inr (s1, True)" "db_inv s1 c1"
    "map_of c1 = (map_of c)(args ! 1 \<mapsto> new_string (args ! 2) e)" "distinct (map fst c1)"
    "out s1 = out s @ reply fd (''+OK'' @ crlf)" "clock s1 = clock s"
proof -
  note w = set_spec_fits [OF db_keys [OF inv] fits]
  have "set_command_spec args s c = Inr (set_spec (args ! 1) (new_string (args ! 2) e) c, ''+OK'' @ crlf, True)"
    using w(1) by (simp add: set_command_spec_def opts write_spec_def)
  with command_set_ok [OF inv args, of fd] obtain s1 where s1: "command_set fd args s = Inr (s1, True)"
    "db_inv s1 (set_spec (args ! 1) (new_string (args ! 2) e) c)"
    "out s1 = out s @ reply fd (''+OK'' @ crlf)" "clock s1 = clock s" by (auto elim!: yieldsE)
  show ?thesis by (rule that [OF s1(1,2) w(2) db_keys [OF s1(2)] s1(3,4)])
qed

lemma get_string_found:
  assumes inv: "db_inv s c" and lk: "map_of c k = Some (new_string v e)" and dist: "distinct (map fst c)"
  defines "late \<equiv> expired (new_string v e) (clock s (ticks s))"
  obtains s' where "command_get fd [''GET'', k] s = Inr (s', False)"
    "out s' = out s @ reply fd (if late then nil_reply else bulk v)"
    "kv_view s' = (if late then (map_of c)(k := None) else map_of c)"
proof -
  let ?c = "if late then cache_del k c else cache_touch k c"
  have "get_spec (clock s (ticks s)) k c = Inr (?c, if late then nil_reply else bulk v, False)"
    using lk by (simp add: get_spec_def typed_spec_def new_string_def late_def)
  with exact.get_ok [OF inv, of "[''GET'', k]" fd] obtain s' where s': "command_get fd [''GET'', k] s = Inr (s', False)"
    "db_inv s' ?c" "out s' = out s @ reply fd (if late then nil_reply else bulk v)" by (auto elim!: yieldsE)
  have "map_of ?c = (if late then (map_of c)(k := None) else map_of c)"
    using dist by (simp add: map_of_cache_del map_of_cache_touch)
  with that s' db_inv_view [OF s'(2)] show ?thesis by simp
qed

text \<open>
  \<^bold>\<open>C21\<close>. A value that fits beside what is stored is read back by GET as it was set,
  whatever bytes it holds and whatever the key held before (of any type), and no other key changes.
\<close>

theorem set_get_roundtrip:
  assumes "db_inv s c" "args_ok [''SET'', k, v]" "cache_bytes c + entry_size (k, new_string v 0) \<le> LRU_MAX_MEMORY"
  shows "\<exists>s1 s2. command_set fd [''SET'', k, v] s = Inr (s1, True) \<and> command_get fd [''GET'', k] s1 = Inr (s2, False) \<and>
    out s2 = out s @ reply fd (''+OK'' @ crlf) @ reply fd (bulk v) \<and> kv_view s2 = (kv_view s)(k \<mapsto> new_string v 0)"
proof -
  obtain s1 c1 where s1: "command_set fd [''SET'', k, v] s = Inr (s1, True)" "db_inv s1 c1"
    "map_of c1 = (map_of c)(k \<mapsto> new_string v 0)" "distinct (map fst c1)" "out s1 = out s @ reply fd (''+OK'' @ crlf)"
    by (rule set_fits [OF assms(1,2), of 0 fd]) (use assms(3) in auto)
  have "\<not> expired (new_string v 0) t" for t by (simp add: expired_def new_string_def)
  then obtain s2 where "command_get fd [''GET'', k] s1 = Inr (s2, False)" "out s2 = out s1 @ reply fd (bulk v)"
    "kv_view s2 = map_of c1" using get_string_found [OF s1(2) _ s1(4), of k v 0 fd] s1(3) by auto
  then show ?thesis using s1(1,3,5) db_inv_view [OF assms(1)] by auto
qed

theorem set_get_roundtrip_witness:
  "\<exists>s1 s2. command_set 5 [''SET'', ''k'', ''v''] (empty_db (\<lambda>_. 0)) = Inr (s1, True) \<and>
     command_get 5 [''GET'', ''k''] s1 = Inr (s2, False) \<and> out s2 = [(5, ''+OK'' @ crlf), (5, bulk ''v'')]"
proof -
  have "cache_bytes [] + entry_size (''k'', new_string ''v'' 0) \<le> LRU_MAX_MEMORY" by (rule small_fits) code_simp
  from set_get_roundtrip [OF db_inv_empty [of "\<lambda>_. 0"] _ this, of 5] show ?thesis
    by (auto simp: args_ok_def reply_def empty_db_def)
qed

text \<open>
  \<^bold>\<open>C22\<close>. After SET with the option PXAT and a positive number of milliseconds, of a value that
  fits beside what is stored, GET answers the value as long as the clock has not passed the given millisecond
  and nil afterwards; in the second case the key is gone.
\<close>

theorem expiry_observed:
  assumes "db_inv s c" "args_ok [''SET'', k, v, ''PXAT'', to_string_int t]" "0 < t" "t < 2 ^ 63"
    "cache_bytes c + entry_size (k, new_string v t) \<le> LRU_MAX_MEMORY"
  shows "\<exists>s1 s2. command_set fd [''SET'', k, v, ''PXAT'', to_string_int t] s = Inr (s1, True) \<and>
    command_get fd [''GET'', k] s1 = Inr (s2, False) \<and>
    (if t < clock s (ticks s1)
     then out s2 = out s @ reply fd (''+OK'' @ crlf) @ reply fd nil_reply \<and> kv_view s2 = (kv_view s)(k := None)
     else out s2 = out s @ reply fd (''+OK'' @ crlf) @ reply fd (bulk v) \<and> kv_view s2 = (kv_view s)(k \<mapsto> new_string v t))"
proof -
  have "toupper ''PXAT'' = ''PXAT''" by code_simp
  then have "set_options (drop 3 [''SET'', k, v, ''PXAT'', to_string_int t]) 0 s = Inr (Some t, s)"
    using stoll_to_string_int [of t] assms(3,4) by simp
  then obtain s1 c1 where s1: "command_set fd [''SET'', k, v, ''PXAT'', to_string_int t] s = Inr (s1, True)" "db_inv s1 c1"
    "map_of c1 = (map_of c)(k \<mapsto> new_string v t)" "distinct (map fst c1)" "out s1 = out s @ reply fd (''+OK'' @ crlf)"
    "clock s1 = clock s"
    by (rule_tac set_fits [OF assms(1,2), of t fd]) (use assms(5) in auto)
  have "expired (new_string v t) (clock s1 (ticks s1)) \<longleftrightarrow> t < clock s (ticks s1)"
    using assms(3) s1(6) by (simp add: expired_def new_string_def)
  with get_string_found [OF s1(2) _ s1(4), of k v t fd] s1(3)
  obtain s2 where "command_get fd [''GET'', k] s1 = Inr (s2, False)"
    "out s2 = out s1 @ reply fd (if t < clock s (ticks s1) then nil_reply else bulk v)"
    "kv_view s2 = (if t < clock s (ticks s1) then (map_of c1)(k := None) else map_of c1)" by auto
  then show ?thesis using s1(1,3,5) db_inv_view [OF assms(1)] by auto
qed

theorem expiry_observed_witness:
  "\<exists>s1 s2. command_set 5 [''SET'', ''k'', ''v'', ''PXAT'', ''7''] (empty_db (\<lambda>_. 8)) = Inr (s1, True) \<and>
     command_get 5 [''GET'', ''k''] s1 = Inr (s2, False) \<and> out s2 = [(5, ''+OK'' @ crlf), (5, nil_reply)]"
proof -
  have "cache_bytes [] + entry_size (''k'', new_string ''v'' 7) \<le> LRU_MAX_MEMORY" by (rule small_fits) code_simp
  moreover have "to_string_int 7 = ''7''" by code_simp
  ultimately show ?thesis using expiry_observed [OF db_inv_empty [of "\<lambda>_. 8"], of "''k''" "''v''" 7 5]
    by (auto simp: args_ok_def reply_def empty_db_def)
qed

text \<open>
  \<^bold>\<open>C23\<close>. DEL removes exactly the named keys, keeps every other entry in its place in the LRU
  order, and answers how many distinct keys were there.
\<close>

theorem del_removes:
  assumes "db_inv s c"
  shows "\<exists>s'. command_del fd args s = Inr (s', set (drop 1 args) \<inter> dom (kv_view s) \<noteq> {}) \<and>
    db_inv s' (filter (\<lambda>e. fst e \<notin> set (drop 1 args)) c) \<and> kv_view s' = kv_view s |` (- set (drop 1 args)) \<and>
    out s' = out s @ reply fd (integer_reply (int (card (set (drop 1 args) \<inter> dom (kv_view s)))))"
proof -
  let ?A = "set (drop 1 args)"
  have dom: "dom (kv_view s) = fst ` set c" using db_inv_view [OF assms] by (simp add: dom_map_of_conv_image_fst)
  have view: "map_of (filter (\<lambda>e. fst e \<notin> A) c) = map_of c |` (- A)" for A
    by (induction c) (auto simp: restrict_map_def fun_eq_iff)
  have pos: "card (?A \<inter> fst ` set c) > 0 \<longleftrightarrow> ?A \<inter> fst ` set c \<noteq> {}" by (simp add: card_gt_0_iff)
  obtain s' where s': "command_del fd args s = Inr (s', card (?A \<inter> fst ` set c) > 0)"
    "db_inv s' (filter (\<lambda>e. fst e \<notin> ?A) c)"
    "out s' = out s @ reply fd (integer_reply (int (card (?A \<inter> fst ` set c))))"
    using command_del_ok [OF assms, of fd args] unfolding del_spec_def Let_def meets_simps yields_def by blast
  have "kv_view s' = kv_view s |` (- ?A)" using db_inv_view [OF s'(2)] db_inv_view [OF assms] view by simp
  with s' show ?thesis unfolding dom pos [symmetric] by blast
qed

theorem del_removes_witness:
  "\<exists>(s :: io_state) s'. db_inv s [(''a'', new_string ''1'' 0), (''b'', new_string ''2'' 0)] \<and>
     command_del 5 [''DEL'', ''a'', ''a'', ''z''] s = Inr (s', True) \<and> db_inv s' [(''b'', new_string ''2'' 0)]"
proof -
  have "storable [(''a'', new_string ''1'' 0), (''b'', new_string ''2'' 0)]" by (rule storableI) code_simp
  from sample_db [OF this] obtain s :: io_state where s: "db_inv s [(''a'', new_string ''1'' 0), (''b'', new_string ''2'' 0)]" by blast
  have "''a'' \<in> dom (kv_view s)" using db_inv_view [OF s] by simp
  then have "set (drop 1 [''DEL'', ''a'', ''a'', ''z'']) \<inter> dom (kv_view s) \<noteq> {}" by auto
  with del_removes [OF s, of 5 "[''DEL'', ''a'', ''a'', ''z'']"] s show ?thesis by auto
qed

text \<open>
  \<^bold>\<open>C36\<close>. Overwriting an existing key with a value larger than the memory limit
  is a use after free: \<open>update_lru\<close> reports the new size first, the eviction frees the node being
  updated, and the node is then touched.
\<close>

theorem large_overwrite_faults:
  assumes "db_inv s c" "args_ok [''SET'', k, v]" "k \<in> dom (kv_view s)" "LRU_MAX_MEMORY < entry_size (k, new_string v 0)"
  shows "command_set fd [''SET'', k, v] s = Inl Use_after_free"
proof -
  have "map_of c k \<noteq> None" using assms(3) db_inv_view [OF assms(1)] by auto
  then have "set_command_spec [''SET'', k, v] s c = Inl Use_after_free"
    using too_large_evicted [OF assms(4)] by (simp add: set_command_spec_def write_spec_def)
  with command_set_ok [OF assms(1,2), of fd] show ?thesis by simp
qed

theorem large_overwrite_faults_witness:
  "\<exists>s :: io_state. db_inv s [(''k'', new_string ''v'' 0)] \<and>
     command_set 5 [''SET'', ''k'', replicate (2 ^ 26) (CHR ''x'')] s = Inl Use_after_free"
proof -
  let ?v = "replicate (2 ^ 26) (CHR ''x'')"
  have "storable [(''k'', new_string ''v'' 0)]" by (rule storableI) code_simp
  from sample_db [OF this] obtain s :: io_state where s: "db_inv s [(''k'', new_string ''v'' 0)]" by blast
  have "args_ok [''SET'', ''k'', ?v]" by (simp add: args_ok_def)
  moreover have "''k'' \<in> dom (kv_view s)" using db_inv_view [OF s] by simp
  moreover have "LRU_MAX_MEMORY < entry_size (''k'', new_string ?v 0)"
  proof -
    have len: "length ?v = 2 ^ 26" by (rule length_replicate)
    have "calc_string_usage ?v \<ge> 2 ^ 26" unfolding calc_string_usage_def using copy_capacity_ge(1) [of ?v] len by linarith
    moreover have "calc_string_usage ?v \<le> 2 ^ 26 + 100"
      unfolding calc_string_usage_def using copy_capacity_bound [of ?v] len by linarith
    ultimately have "unat (32 + of_nat (calc_string_usage ?v) :: size_t) \<ge> 2 ^ 26"
      using unat_of_nat_size [of "32 + calc_string_usage ?v"] by simp
    then show ?thesis by (simp add: entry_size_def new_string_def LRU_MAX_MEMORY_def sizeof_DrutaNode_def)
  qed
  ultimately have "command_set 5 [''SET'', ''k'', ?v] s = Inl Use_after_free" by (intro large_overwrite_faults [OF s])
  with s show ?thesis by blast
qed

end
