(* ===== verification/Cmd_List.thy ===== *)
theory Cmd_List
  imports Cmd_String
begin

text \<open>
  The list commands of commands.cpp: RPUSH and LPUSH (\<open>generic_push\<close>), LRANGE, LPOP and RPOP
  (\<open>generic_pop\<close>), LLEN. A \<open>std::deque\<close> is a list; \<open>front\<close> of an empty one is the fault
  \<open>Empty_container\<close>. Each handler is proved to follow a specification over the contents, on every
  branch.
\<close>

section \<open>Handlers\<close>

text \<open>The push loop: the new list and \<open>delta\<close>.\<close>

definition push_one :: "bool \<Rightarrow> string \<Rightarrow> string list \<Rightarrow> string list" where
  "push_one at_front x l = (if at_front then x # l else l @ [x])"

definition push_loop :: "bool \<Rightarrow> string list \<Rightarrow> string list \<Rightarrow> string list \<times> size_t" where
  "push_loop at_front xs l =
     fold (\<lambda>x (l, delta). (push_one at_front x l, delta + of_nat (list_elem_bytes x))) xs (l, 0)"

definition generic_push :: "bool \<Rightarrow> int \<Rightarrow> string list \<Rightarrow> ('z) io_state_scheme \<Rightarrow> (('z) io_state_scheme \<times> bool) res" where
  "generic_push at_front fd args s =
     rbind (arg args 1) (\<lambda>key.
     with_type LIST key fd s
       (rbind (get_list (new_empty LIST)) (\<lambda>l0.
        let (l, delta) = push_loop at_front (drop 2 args) l0;
            v = (new_empty LIST)\<lparr>data := DList l, memory_usage := memory_usage (new_empty LIST) + delta\<rparr>;
            list_size = length l;
            (s1, a) = insert_node key v s
        in rbind (add_lru a s1) (\<lambda>s2. Inr (send_integer fd (to_int32 list_size) s2, True))))
       (\<lambda>a node.
        rbind (get_list (node_value node)) (\<lambda>l0.
        let (l, delta) = push_loop at_front (drop 2 args) l0 in
        rbind (upd_node a (\<lambda>n. n\<lparr>node_value := (node_value n)\<lparr>data := DList l,
            memory_usage := memory_usage (node_value n) + delta\<rparr>\<rparr>) s) (\<lambda>s1.
        rbind (rbind (notify_memory_change 0 delta s1) (touch_lru a)) (\<lambda>s2.
        rbind (deref a s2) (\<lambda>node2.
        rbind (get_list (node_value node2)) (\<lambda>l2.
        Inr (send_integer fd (to_int32 (length l2)) s2, True))))))))"

definition command_rpush :: "int \<Rightarrow> string list \<Rightarrow> ('z) io_state_scheme \<Rightarrow> (('z) io_state_scheme \<times> bool) res" where
  "command_rpush fd args s = generic_push False fd args s"

definition command_lpush :: "int \<Rightarrow> string list \<Rightarrow> ('z) io_state_scheme \<Rightarrow> (('z) io_state_scheme \<times> bool) res" where
  "command_lpush fd args s = generic_push True fd args s"

text \<open>The body of LRANGE after the touch. The two bounds are read before any index is used; an
  index outside the deque would be \<open>Out_of_bounds\<close>.\<close>

definition nth_res :: "string list \<Rightarrow> int \<Rightarrow> string res" where
  "nth_res l i = (if 0 \<le> i \<and> i < int (length l) then Inr (l ! nat i) else Inl Out_of_bounds)"

fun range_loop :: "string list \<Rightarrow> int \<Rightarrow> nat \<Rightarrow> string \<Rightarrow> string res" where
  "range_loop l li 0 res = Inr res"
| "range_loop l li (Suc n) res =
     rbind (nth_res l li) (\<lambda>val. range_loop l (li + 1) n (resp_bulk_string res val))"

definition lrange_reply :: "string list \<Rightarrow> int \<Rightarrow> int \<Rightarrow> string res" where
  "lrange_reply l li0 ri0 =
     (let size = to_int32 (length l);
          li1 = (if li0 < 0 then li0 + size else li0);
          ri1 = (if ri0 < 0 then ri0 + size else ri0);
          li = max li1 0;
          ri = min ri1 (size - 1)
      in if size \<le> li \<or> ri < li then Inr empty_array
         else range_loop l li (nat (ri - li + 1)) (''*'' @ to_string_int (ri - li + 1) @ crlf))"

definition command_lrange :: "int \<Rightarrow> string list \<Rightarrow> ('z) io_state_scheme \<Rightarrow> (('z) io_state_scheme \<times> bool) res" where
  "command_lrange fd args s =
     rbind (arg args 1) (\<lambda>key.
     with_type LIST key fd s (Inr (send fd empty_array s, False)) (\<lambda>a node.
       rbind (touch_lru a s) (\<lambda>s1.
       rbind (deref a s1) (\<lambda>node1.
       rbind (get_list (node_value node1)) (\<lambda>l.
       rbind (arg args 2) (\<lambda>a2. rbind (arg args 3) (\<lambda>a3.
       case (stoi a2, stoi a3) of
         (Some li, Some ri) \<Rightarrow> rbind (lrange_reply l li ri) (\<lambda>res. Inr (send fd res s1, False))
       | _ \<Rightarrow> Inr (send fd (''-WRONGTYPE Non-numeric values given for range'' @ crlf) s1, False))))))))"

text \<open>\<open>while (actual_pop)\<close>: the counter is an \<open>int\<close> and the loop runs until it is zero.\<close>

function pop_loop :: "bool \<Rightarrow> int \<Rightarrow> string list \<Rightarrow> string \<Rightarrow> size_t \<Rightarrow> (string list \<times> string \<times> size_t) res" where
  "pop_loop from_front actual_pop l res delta =
     (if actual_pop = 0 then Inr (l, res, delta)
      else if l = [] then Inl Empty_container
      else if actual_pop = - (2 ^ 31) then Inl Signed_overflow
      else let val = (if from_front then hd l else last l) in
        pop_loop from_front (actual_pop - 1) (if from_front then tl l else butlast l)
          (resp_bulk_string res val) (delta + of_nat (list_elem_bytes val)))"
  by pat_completeness auto
termination
  by (relation "measure (\<lambda>(_, _, l, _, _). length l)") auto

declare pop_loop.simps [simp del]

text \<open>The estimate loop before it reads \<open>list[idx]\<close> for each element it will pop.\<close>

definition pop_indices_ok :: "bool \<Rightarrow> int \<Rightarrow> string list \<Rightarrow> bool" where
  "pop_indices_ok from_front count l =
     list_all (\<lambda>i. let idx = (if from_front then int i else to_int32 (length l) - 1 - int i)
                   in 0 \<le> idx \<and> idx < int (length l)) [0..<nat count]"

definition generic_pop :: "bool \<Rightarrow> int \<Rightarrow> string list \<Rightarrow> ('z) io_state_scheme \<Rightarrow> (('z) io_state_scheme \<times> bool) res" where
  "generic_pop from_front fd args s =
     (if 3 < length args then Inr (send fd (''-ERR Invalid number of arguments'' @ crlf) s, False)
      else
        let count0 = (if length args = 3 then (case stoi (args ! 2) of Some n \<Rightarrow> n | None \<Rightarrow> 1) else 1) in
        rbind (arg args 1) (\<lambda>key.
        with_type LIST key fd s (Inr (send fd empty_array s, False)) (\<lambda>a node.
          rbind (touch_lru a s) (\<lambda>s1.
          rbind (deref a s1) (\<lambda>node1.
          rbind (get_list (node_value node1)) (\<lambda>l.
          let count_pop = min count0 (to_int32 (length l)) in
          if \<not> pop_indices_ok from_front count_pop l then Inl Out_of_bounds
          else
          rbind (pop_loop from_front count_pop l (''*'' @ to_string_int count_pop @ crlf) 0)
            (\<lambda>(l', res, delta).
          rbind (upd_node a (\<lambda>n. n\<lparr>node_value := (node_value n)\<lparr>data := DList l',
              memory_usage := memory_usage (node_value n) - delta\<rparr>\<rparr>) s1) (\<lambda>s2.
          rbind (notify_memory_change delta 0 s2) (\<lambda>s3.
          Inr (send fd res s3, True))))))))))"

definition command_lpop :: "int \<Rightarrow> string list \<Rightarrow> ('z) io_state_scheme \<Rightarrow> (('z) io_state_scheme \<times> bool) res" where
  "command_lpop fd args s = generic_pop True fd args s"

definition command_rpop :: "int \<Rightarrow> string list \<Rightarrow> ('z) io_state_scheme \<Rightarrow> (('z) io_state_scheme \<times> bool) res" where
  "command_rpop fd args s = generic_pop False fd args s"

definition command_llen :: "int \<Rightarrow> string list \<Rightarrow> ('z) io_state_scheme \<Rightarrow> (('z) io_state_scheme \<times> bool) res" where
  "command_llen fd args s =
     rbind (arg args 1) (\<lambda>key.
     with_type LIST key fd s (Inr (send fd ('':0'' @ crlf) s, False)) (\<lambda>a node.
       rbind (touch_lru a s) (\<lambda>s1.
       rbind (deref a s1) (\<lambda>node1.
       rbind (get_list (node_value node1)) (\<lambda>l.
       Inr (send_integer fd (to_int32 (length l)) s1, False))))))"

section \<open>Push\<close>

definition push_all :: "bool \<Rightarrow> string list \<Rightarrow> string list \<Rightarrow> string list" where
  "push_all at_front xs l = (if at_front then rev xs @ l else l @ xs)"

definition push_spec :: "bool \<Rightarrow> string \<Rightarrow> string list \<Rightarrow> cache \<Rightarrow> command_spec" where
  "push_spec at_front k xs c = typed_spec as_list k c
     (write_spec k (new_list (push_all at_front xs []) 0) c (integer_reply (to_int32 (length xs))) True)
     (\<lambda>v l. write_spec k (new_list (push_all at_front xs l) (expiry_time v)) c
        (integer_reply (to_int32 (length (push_all at_front xs l)))) True)"

lemma push_loop_eq:
  "push_loop at_front xs l = (push_all at_front xs l, of_nat (sum_list (map list_elem_bytes xs)))"
proof -
  have "fold (\<lambda>x (l, delta). (push_one at_front x l, delta + of_nat (list_elem_bytes x))) xs (l, d) =
      (push_all at_front xs l, d + of_nat (sum_list (map list_elem_bytes xs)))" for d :: size_t
    by (induction xs arbitrary: l d) (auto simp: push_all_def push_one_def)
  then show ?thesis by (simp add: push_loop_def)
qed

lemma push_all_bytes [simp]:
  "sum_list (map list_elem_bytes (push_all at_front xs l)) =
   sum_list (map list_elem_bytes l) + sum_list (map list_elem_bytes xs)"
  "length (push_all at_front xs l) = length l + length xs"
  by (simp_all add: push_all_def rev_map [symmetric])

lemma new_empty_list [simp]:
  "get_list (new_empty LIST) = Inr []" "vtype (new_empty LIST) = LIST"
  "expiry_time (new_empty LIST) = 0" "memory_usage (new_empty LIST) = 0"
  by (simp_all add: new_empty_def get_list_def)

text \<open>A list value is determined by its contents and expiry once its size is exact.\<close>

lemma list_value_eq:
  assumes "value_ok v" "data v = DList l"
  shows "v = new_list l (expiry_time v)"
proof -
  have "memory_usage v = of_nat (unat (memory_usage v))" by simp
  also have "\<dots> = of_nat (sum_list (map list_elem_bytes l))"
    using assms by (simp add: value_ok_def value_bytes_def)
  finally show ?thesis using assms by (cases v) (simp add: value_ok_def value_wf_def new_list_def)
qed

lemma push_value_eq:
  assumes "value_ok v" "data v = DList l"
  shows "v\<lparr>data := DList (push_all at_front xs l),
      memory_usage := memory_usage v + of_nat (sum_list (map list_elem_bytes xs))\<rparr> =
    new_list (push_all at_front xs l) (expiry_time v)"
  using list_value_eq [OF assms] by (cases v) (simp add: new_list_def)

lemma new_list_ok:
  assumes "sum_list (map list_elem_bytes l) < 2 ^ 64"
  shows "value_ok (new_list l e)" "unat (memory_usage (new_list l e)) = sum_list (map list_elem_bytes l)"
  using assms by (simp_all add: value_ok_def value_wf_def value_bytes_def new_list_def unat_of_nat_size)

lemma generic_push_ok:
  assumes inv: "db_inv s c" and args: "args_ok args" "2 \<le> length args"
  shows "meets db_inv s (generic_push at_front fd args s) fd (push_spec at_front (args ! 1) (drop 2 args) c)"
proof -
  let ?k = "args ! 1" and ?xs = "drop 2 args"
  let ?d = "sum_list (map list_elem_bytes ?xs)"
  have d: "?d \<le> request_bytes args"
    using elems_bound(1) [of ?xs] request_bytes_drop [of 2 args] by linarith
  then have d64: "?d + 2 ^ 60 < 2 ^ 64" using args_ok_bytes [OF args(1)] by linarith
  have i: "1 < length args" using args by simp
  have arg1: "arg args 1 = Inr ?k" using args by simp
  show ?thesis
    unfolding generic_push_def push_spec_def arg1 rbind_simps
  proof (rule exact.meets_type [OF inv tagged(2)], goal_cases)
    case 1
    let ?v = "new_list (push_all at_front ?xs []) 0"
    have v: "value_ok ?v" "unat (memory_usage ?v) = ?d"
      using new_list_ok [of "push_all at_front ?xs []" 0] d64 by simp_all
    obtain s1 a where ins: "insert_node ?k ?v s = (s1, a)" by fastforce
    have "(new_empty LIST)\<lparr>data := DList (push_all at_front ?xs []), memory_usage := of_nat ?d\<rparr> = ?v"
      by (simp add: new_empty_def new_list_def)
    moreover have "unat (memory_usage ?v) \<le> 2 ^ 27 + request_bytes args" using v(2) d by simp
    ultimately show ?case
      using meets_insert [OF inv 1(2) ins v(1) write_bound(1) [OF inv args(1) i refl]] ins
      by (simp add: push_loop_eq send_integer_eq)
  next
    case (2 a n l)
    then have dat: "data (node_value n) = DList l" by simp
    note old = value_small [OF inv 2(3)]
    let ?w = "new_list (push_all at_front ?xs l) (expiry_time (node_value n))"
    have ol: "unat (memory_usage (node_value n)) = sum_list (map list_elem_bytes l)"
      using old(2) dat by (simp add: value_ok_def value_bytes_def)
    then have w: "value_ok ?w" "unat (memory_usage ?w) = sum_list (map list_elem_bytes l) + ?d"
      using new_list_ok [of "push_all at_front ?xs l" "expiry_time (node_value n)"] d64 old(1) by simp_all
    have u: "unat (of_nat ?d :: size_t) = ?d" using d64 by (intro unat_of_nat_size) simp
    have upd: "upd_node a (\<lambda>n. n\<lparr>node_value := (node_value n)\<lparr>data := DList (push_all at_front ?xs l),
        memory_usage := memory_usage (node_value n) + of_nat ?d\<rparr>\<rparr>) s = Inr (set_value a ?w s)"
      by (rule upd_node_value [OF 2(2)]) (simp add: push_value_eq [OF old(2) dat])
    have "meets db_inv s (rbind (rbind (notify_memory_change 0 (of_nat ?d) (set_value a ?w s)) (touch_lru a)) (\<lambda>s2.
        rbind (deref a s2) (\<lambda>node2. rbind (get_list (node_value node2)) (\<lambda>l2.
        Inr (send_integer fd (to_int32 (length l2)) s2, True))))) fd
        (write_spec ?k ?w c (integer_reply (to_int32 (length (push_all at_front ?xs l)))) True)"
    proof (rule meets_mutate [OF inv 2(1) 2(3) w(1)])
      show "unat (of_nat ?d :: size_t) + unat (memory_usage (node_value n)) =
          unat (0 :: size_t) + unat (memory_usage ?w)" using u ol w(2) by simp
      show "cache_bytes (cache_upd ?k ?w c) < 2 ^ 64"
        using w(2) ol old(1) d by (intro write_bound(2) [OF inv args(1) i refl _ 2(3)]) simp
    qed (simp add: send_integer_eq new_list_def get_list_def)
    with upd dat show ?case by (simp add: push_loop_eq)
  qed
qed

lemma generic_push_sound:
  assumes inv: "db_safe s c" and args: "2 \<le> length args"
  shows "sound s (generic_push at_front fd args s)"
proof -
  let ?k = "args ! 1" and ?xs = "drop 2 args"
  let ?d = "of_nat (sum_list (map list_elem_bytes ?xs)) :: size_t"
  have arg1: "arg args 1 = Inr ?k" using args by simp
  show ?thesis
    unfolding generic_push_def arg1 rbind_simps
  proof (rule sound_type [OF inv], goal_cases)
    case 1
    let ?v = "(new_empty LIST)\<lparr>data := DList (push_all at_front ?xs []), memory_usage := ?d\<rparr>"
    obtain s1 a where ins: "insert_node ?k ?v s = (s1, a)" by fastforce
    have "value_wf ?v" by (simp add: value_wf_def)
    from sound_insert [OF inv 1 ins this] obtain s' c' where "add_lru a s1 = Inr s'" "db_safe s' c'"
      "lru_state.more s' = lru_state.more s" by blast
    then show ?case using ins sound_send [of s' s c']
      by (simp add: push_loop_eq send_integer_eq del: sound_simps)
  next
    case (2 a n)
    then obtain l where l: "data (node_value n) = DList l" using value_wf_getters(2) by blast
    let ?w = "(node_value n)\<lparr>data := DList (push_all at_front ?xs l), memory_usage := memory_usage (node_value n) + ?d\<rparr>"
    have wf: "value_wf ?w" using 2(4) by (simp add: value_wf_def)
    have "sound s (rbind (rbind (notify_memory_change 0 ?d (set_value a ?w s)) (touch_lru a)) (\<lambda>s2.
        rbind (deref a s2) (\<lambda>node2.
        rbind (get_list (node_value node2)) (\<lambda>l2. Inr (send_integer fd (to_int32 (length l2)) s2, True)))))"
      by (rule sound_mutate [OF inv 2(1) wf]) (simp add: get_list_def send_integer_eq)
    then show ?case using 2(2) l by (simp add: push_loop_eq upd_node_value [OF 2(2)])
  qed
qed

section \<open>Reading\<close>

text \<open>The elements LRANGE selects.\<close>

definition lrange_of :: "string list \<Rightarrow> int \<Rightarrow> int \<Rightarrow> string list" where
  "lrange_of l li ri =
     (let n = int (length l);
          lo = (if li < 0 then max 0 (li + n) else li);
          hi = (if ri < 0 then ri + n else min ri (n - 1))
      in take (nat (hi - lo + 1)) (drop (nat lo) l))"

definition array_reply :: "string list \<Rightarrow> string" where
  "array_reply xs = ''*'' @ to_string (length xs) @ crlf @ concat (map bulk xs)"

definition lrange_spec :: "string list \<Rightarrow> cache \<Rightarrow> command_spec" where
  "lrange_spec args c = typed_spec as_list (args ! 1) c (Inr (c, empty_array, False)) (\<lambda>v l.
     case (stoi (args ! 2), stoi (args ! 3)) of
       (Some li, Some ri) \<Rightarrow> Inr (cache_touch (args ! 1) c, array_reply (lrange_of l li ri), False)
     | _ \<Rightarrow> Inr (cache_touch (args ! 1) c, ''-WRONGTYPE Non-numeric values given for range'' @ crlf, False))"

definition llen_spec :: "string list \<Rightarrow> cache \<Rightarrow> command_spec" where
  "llen_spec args c = typed_spec as_list (args ! 1) c (Inr (c, '':0'' @ crlf, False)) (\<lambda>v l.
     Inr (cache_touch (args ! 1) c, integer_reply (to_int32 (length l)), False))"

lemma range_loop_eq:
  "0 \<le> li \<Longrightarrow> nat li + n \<le> length l \<Longrightarrow>
   range_loop l li n res = Inr (res @ concat (map bulk (take n (drop (nat li) l))))"
proof (induction n arbitrary: li res)
  case (Suc n)
  then have i: "nat li < length l" and s: "nat (li + 1) = Suc (nat li)" by simp_all
  from Suc show ?case
    by (simp add: nth_res_def s resp_bulk_string_append Cons_nth_drop_Suc [OF i, symmetric])
qed simp

lemma array_reply_Nil [simp]: "array_reply [] = empty_array"
proof -
  have "to_string 0 = ''0''" by code_simp
  then show ?thesis by (simp add: array_reply_def empty_array_def)
qed

lemma lrange_reply_ok:
  assumes "length l < 2 ^ 31"
  shows "lrange_reply l li ri = Inr (array_reply (lrange_of l li ri))"
proof -
  define n where "n = int (length l)"
  define lo where "lo = (if li < 0 then max 0 (li + n) else li)"
  define hi where "hi = (if ri < 0 then ri + n else min ri (n - 1))"
  have size: "to_int32 (length l) = n" unfolding n_def using assms by (rule to_int32_small)
  have ends: "max (if li < 0 then li + n else li) 0 = lo" "min (if ri < 0 then ri + n else ri) (n - 1) = hi"
    by (auto simp: lo_def hi_def n_def)
  have bounds: "0 \<le> lo" "hi < n" by (auto simp: lo_def hi_def n_def)
  have sel: "lrange_of l li ri = take (nat (hi - lo + 1)) (drop (nat lo) l)"
    by (simp only: lrange_of_def Let_def lo_def hi_def n_def)
  have rep: "lrange_reply l li ri = (if n \<le> lo \<or> hi < lo then Inr empty_array
      else range_loop l lo (nat (hi - lo + 1)) (''*'' @ to_string_int (hi - lo + 1) @ crlf))"
    by (simp only: lrange_reply_def Let_def size ends)
  show ?thesis
  proof (cases "n \<le> lo \<or> hi < lo")
    case True
    then have "lrange_of l li ri = []" using bounds by (auto simp: sel n_def)
    then show ?thesis using True by (simp add: rep)
  next
    case False
    then have le: "nat lo + nat (hi - lo + 1) \<le> length l" using bounds
      by (simp add: n_def nat_add_distrib [symmetric] nat_le_iff)
    then have len: "length (lrange_of l li ri) = nat (hi - lo + 1)" by (simp add: sel)
    then show ?thesis
      using False range_loop_eq [OF bounds(1) le]
      by (simp add: rep array_reply_def to_string_int_def sel [symmetric])
  qed
qed

lemma value_length:
  assumes "db_inv s c" "map_of c k = Some v" "data v = DList l"
  shows "length l < 2 ^ 31"
proof -
  have "length l \<le> sum_list (map list_elem_bytes l)"
    by (induction l) (auto simp: list_elem_bytes_def)
  also have "\<dots> < 2 ^ 27"
    using value_small [OF assms(1,2)] assms(3) by (simp add: value_ok_def value_bytes_def)
  finally show ?thesis by simp
qed

context db_reader
begin

lemma lrange_ok:
  assumes inv: "I s c" and args: "length args = 4"
    and small: "\<And>v l. map_of c (args ! 1) = Some v \<Longrightarrow> data v = DList l \<Longrightarrow> length l < 2 ^ 31"
  shows "meets I s (command_lrange fd args s) fd (lrange_spec args c)"
proof -
  have a: "arg args 1 = Inr (args ! 1)" "arg args 2 = Inr (args ! 2)" "arg args 3 = Inr (args ! 3)"
    using args by simp_all
  show ?thesis
    unfolding command_lrange_def lrange_spec_def a rbind_simps
  proof (rule meets_type [OF inv tagged(2)], goal_cases)
    case 1
    show ?case by (rule meets_send [OF refl inv])
  next
    case (2 b n l)
    then have l: "data (node_value n) = DList l" by simp
    note r = lrange_reply_ok [OF small [OF 2(3) l]]
    let ?msg = "case (stoi (args ! 2), stoi (args ! 3)) of (Some li, Some ri) \<Rightarrow> array_reply (lrange_of l li ri)
      | _ \<Rightarrow> ''-WRONGTYPE Non-numeric values given for range'' @ crlf"
    have "meets I s (rbind (touch_lru b s) (\<lambda>s1. rbind (deref b s1) (\<lambda>node1.
       rbind (get_list (node_value node1)) (\<lambda>l. case (stoi (args ! 2), stoi (args ! 3)) of
         (Some li, Some ri) \<Rightarrow> rbind (lrange_reply l li ri) (\<lambda>res. Inr (send fd res s1, False))
       | _ \<Rightarrow> Inr (send fd (''-WRONGTYPE Non-numeric values given for range'' @ crlf) s1, False))))) fd
       (Inr (cache_touch (args ! 1) c, ?msg, False))"
      using l r by (intro meets_touch [OF inv 2(1,2)]) (simp split: option.split)
    then show ?case by (simp split: option.splits)
  qed
qed

lemma llen_ok:
  assumes inv: "I s c" and args: "length args = 2"
  shows "meets I s (command_llen fd args s) fd (llen_spec args c)"
proof -
  have a: "arg args 1 = Inr (args ! 1)" using args by simp
  show ?thesis
    unfolding command_llen_def llen_spec_def a rbind_simps
  proof (rule meets_type [OF inv tagged(2)], goal_cases)
    case 1
    show ?case by (rule meets_send [OF refl inv])
  next
    case (2 b n l)
    then show ?case by (intro meets_touch [OF inv 2(1,2)]) (simp add: send_integer_eq)
  qed
qed

end

lemma command_lrange_ok:
  "db_inv s c \<Longrightarrow> length args = 4 \<Longrightarrow> meets db_inv s (command_lrange fd args s) fd (lrange_spec args c)"
  using exact.lrange_ok value_length by blast

section \<open>Pop\<close>

definition pop_count :: "string list \<Rightarrow> int" where
  "pop_count args = (if length args = 3 then (case stoi (args ! 2) of Some n \<Rightarrow> n | None \<Rightarrow> 1) else 1)"

definition popped :: "bool \<Rightarrow> nat \<Rightarrow> string list \<Rightarrow> string list" where
  "popped from_front n l = take n (if from_front then l else rev l)"

definition remaining :: "bool \<Rightarrow> nat \<Rightarrow> string list \<Rightarrow> string list" where
  "remaining from_front n l = (if from_front then drop n l else take (length l - n) l)"

text \<open>A negative count empties the list and then reads the front of an empty deque (or, on a list long
  enough, decrements the smallest \<open>int\<close> first).\<close>

definition pop_spec :: "bool \<Rightarrow> string list \<Rightarrow> cache \<Rightarrow> command_spec" where
  "pop_spec from_front args c =
     (if 3 < length args then Inr (c, ''-ERR Invalid number of arguments'' @ crlf, False)
      else typed_spec as_list (args ! 1) c (Inr (c, empty_array, False)) (\<lambda>v l.
        let n = pop_count args in
        if n < 0 then Inl (if n + 2 ^ 31 < int (length l) then Signed_overflow else Empty_container)
        else Inr (cache_upd (args ! 1) (new_list (remaining from_front (nat n) l) (expiry_time v))
                    (cache_touch (args ! 1) c),
                  array_reply (popped from_front (nat n) l), True)))"

lemma pop_step:
  assumes "l \<noteq> []"
  shows "popped ff (Suc n) l = (if ff then hd l else last l) # popped ff n (if ff then tl l else butlast l)"
    "remaining ff (Suc n) l = remaining ff n (if ff then tl l else butlast l)"
proof -
  show "popped ff (Suc n) l = (if ff then hd l else last l) # popped ff n (if ff then tl l else butlast l)"
  proof (cases ff)
    case True
    then show ?thesis using assms by (cases l) (auto simp: popped_def)
  next
    case False
    then show ?thesis using assms by (cases l rule: rev_cases) (auto simp: popped_def)
  qed
  show "remaining ff (Suc n) l = remaining ff n (if ff then tl l else butlast l)"
  proof (cases ff)
    case True
    then show ?thesis by (simp add: remaining_def drop_Suc)
  next
    case False
    then show ?thesis using assms by (cases l rule: rev_cases) (simp_all add: remaining_def)
  qed
qed

lemma pop_loop_ok:
  "n \<le> length l \<Longrightarrow> pop_loop ff (int n) l res d =
     Inr (remaining ff n l, res @ concat (map bulk (popped ff n l)),
          d + of_nat (sum_list (map list_elem_bytes (popped ff n l))))"
proof (induction n arbitrary: l res d)
  case 0
  then show ?case by (simp add: pop_loop.simps popped_def remaining_def)
next
  case (Suc n)
  then have ne: "l \<noteq> []" and le: "n \<le> length (if ff then tl l else butlast l)" by auto
  show ?case
    using Suc.IH [OF le] ne
    by (subst pop_loop.simps) (simp add: pop_step [OF ne] Let_def resp_bulk_string_append ac_simps)
qed

lemma pop_loop_negative:
  "n < 0 \<Longrightarrow> - (2 ^ 31) \<le> n \<Longrightarrow> pop_loop ff n l res d =
     Inl (if n + 2 ^ 31 < int (length l) then Signed_overflow else Empty_container)"
proof (induction ff n l res d rule: pop_loop.induct)
  case (1 ff n l res d)
  show ?case
  proof (cases "l = [] \<or> n = - (2 ^ 31)")
    case True
    then show ?thesis using 1 by (subst pop_loop.simps) auto
  next
    case False
    then have "int (length (if ff then tl l else butlast l)) = int (length l) - 1" by (cases l) auto
    with False 1 show ?thesis by (subst pop_loop.simps) (auto simp: Let_def)
  qed
qed

lemma popped_remaining:
  "sum_list (map f (popped ff n l)) + sum_list (map f (remaining ff n l)) = sum_list (map f l)"
  for f :: "string \<Rightarrow> nat"
proof (cases ff)
  case True
  then show ?thesis
    by (simp add: popped_def remaining_def sum_list_append [symmetric] map_append [symmetric]
        del: sum_list_append map_append)
next
  case False
  have "sum_list (map f (take n (rev l))) = sum_list (map f (drop (length l - n) l))"
    by (simp add: take_rev rev_map [symmetric])
  moreover have "sum_list (map f (take (length l - n) l)) + sum_list (map f (drop (length l - n) l)) =
      sum_list (map f l)"
    by (simp add: sum_list_append [symmetric] map_append [symmetric] del: sum_list_append map_append)
  ultimately show ?thesis using False by (simp add: popped_def remaining_def)
qed

lemma popped_min: "popped ff (nat (min n (int (length l)))) l = popped ff (nat n) l"
  "remaining ff (nat (min n (int (length l)))) l = remaining ff (nat n) l"
  by (auto simp: popped_def remaining_def min_def)

lemma pop_indices:
  assumes "n \<le> int (length l)" "length l < 2 ^ 31"
  shows "pop_indices_ok ff n l"
  using assms to_int32_small [OF assms(2)]
  by (auto simp: pop_indices_ok_def list_all_iff Let_def)

lemma pop_value_eq:
  assumes ok: "value_ok v" and l: "data v = DList l" and d: "sum_list (map list_elem_bytes xs) + sum_list (map list_elem_bytes l') =
    sum_list (map list_elem_bytes l)"
  shows "v\<lparr>data := DList l', memory_usage := memory_usage v - of_nat (sum_list (map list_elem_bytes xs))\<rparr> =
    new_list l' (expiry_time v)"
  using list_value_eq [OF ok l] by (cases v) (simp add: new_list_def d [symmetric])

text \<open>The part of \<open>generic_pop\<close> after the touch, on the list found in the node.\<close>

definition pop_body :: "bool \<Rightarrow> int \<Rightarrow> addr \<Rightarrow> int \<Rightarrow> string list \<Rightarrow> ('z) io_state_scheme \<Rightarrow> (('z) io_state_scheme \<times> bool) res" where
  "pop_body from_front fd a count0 l s1 =
     (let count_pop = min count0 (to_int32 (length l)) in
      if \<not> pop_indices_ok from_front count_pop l then Inl Out_of_bounds
      else
      rbind (pop_loop from_front count_pop l (''*'' @ to_string_int count_pop @ crlf) 0)
        (\<lambda>(l', res, delta).
      rbind (upd_node a (\<lambda>n. n\<lparr>node_value := (node_value n)\<lparr>data := DList l',
          memory_usage := memory_usage (node_value n) - delta\<rparr>\<rparr>) s1) (\<lambda>s2.
      rbind (notify_memory_change delta 0 s2) (\<lambda>s3.
      Inr (send fd res s3, True)))))"

lemma generic_pop_body:
  assumes "length args \<le> 3" "2 \<le> length args"
  shows "generic_pop ff fd args s =
    with_type LIST (args ! 1) fd s (Inr (send fd empty_array s, False)) (\<lambda>a node.
      rbind (touch_lru a s) (\<lambda>s1. rbind (deref a s1) (\<lambda>node1. rbind (get_list (node_value node1)) (\<lambda>l.
      pop_body ff fd a (pop_count args) l s1))))"
proof -
  have "arg args 1 = Inr (args ! 1)" "\<not> 3 < length args" using assms by simp_all
  then show ?thesis
    by (simp only: generic_pop_def pop_body_def pop_count_def Let_def rbind_simps if_False)
qed

lemma pop_body_negative:
  assumes "n < 0" "- (2 ^ 31) \<le> n" "length l < 2 ^ 31"
  shows "pop_body ff fd a n l s =
    Inl (if n + 2 ^ 31 < int (length l) then Signed_overflow else Empty_container)"
proof -
  have m: "min n (to_int32 (length l)) = n" using to_int32_small [OF assms(3)] assms(1) by simp
  have "pop_indices_ok ff n l" using assms by (intro pop_indices) simp_all
  then show ?thesis using pop_loop_negative [OF assms(1,2)] by (simp add: pop_body_def m Let_def)
qed

lemma pop_body_eq:
  assumes "0 \<le> n" "length l < 2 ^ 31"
    and d_def: "d = of_nat (sum_list (map list_elem_bytes (popped ff (nat n) l)))"
  shows "pop_body ff fd a n l s =
    rbind (upd_node a (\<lambda>m. m\<lparr>node_value := (node_value m)\<lparr>data := DList (remaining ff (nat n) l),
        memory_usage := memory_usage (node_value m) - d\<rparr>\<rparr>) s) (\<lambda>s2.
    rbind (notify_memory_change d 0 s2) (\<lambda>s3.
    Inr (send fd (array_reply (popped ff (nat n) l)) s3, True)))"
proof -
  let ?c = "min n (int (length l))"
  have c: "to_int32 (length l) = int (length l)" using assms(2) by (rule to_int32_small)
  have ci: "int (nat ?c) = ?c" "nat ?c \<le> length l" using assms(1) by auto
  have ix: "pop_indices_ok ff ?c l" using assms(2) by (intro pop_indices) simp_all
  have len: "length (popped ff (nat n) l) = nat ?c" using assms(1) by (auto simp: popped_def min_def)
  have loop: "pop_loop ff ?c l (''*'' @ to_string_int ?c @ crlf) 0 =
      Inr (remaining ff (nat n) l, array_reply (popped ff (nat n) l), d)"
    using pop_loop_ok [OF ci(2), of ff "''*'' @ to_string_int ?c @ crlf" 0] assms(1)
    unfolding ci(1) popped_min d_def by (simp add: array_reply_def len to_string_int_def)
  show ?thesis
    unfolding pop_body_def c Let_def using ix by (simp only: loop rbind_simps prod.case) simp
qed

lemma pop_count_range: "- (2 ^ 31) \<le> pop_count args"
  using stoi_range by (auto simp: pop_count_def split: option.split)

lemma touch_found:
  assumes "db_inv s c" "kv_store s k = Some a" "heap s a = Some n"
  obtains s1 n1 where "touch_lru a s = Inr s1" "db_inv s1 (cache_touch k c)" "heap s1 a = Some n1"
    "node_value n1 = node_value n" "lru_state.more s1 = lru_state.more s" "kv_store s1 k = Some a"
proof -
  obtain s1 where s1: "touch_lru a s = Inr s1" "db_inv s1 (cache_touch k c)" "links_only s s1"
    using db_touch [OF assms(1,2)] by blast
  note lo = links_only_simps [OF s1(3)]
  have "kvs (heap s1) a = Some (node_key n, node_value n)" using assms(3) lo(2) by (simp add: kvs_def)
  then obtain n1 where "heap s1 a = Some n1" "node_value n1 = node_value n" by (auto simp: kvs_Some)
  then show thesis using that s1 lo assms(2) by simp
qed

lemma pop_body_ok:
  assumes inv: "db_inv s c" and kv: "kv_store s k = Some a" and n: "heap s a = Some n"
    and l: "data (node_value n) = DList l" and lk: "map_of c k = Some (node_value n)" and nn: "0 \<le> m"
  shows "meets db_inv s (pop_body ff fd a m l s) fd
    (Inr (cache_upd k (new_list (remaining ff (nat m) l) (expiry_time (node_value n))) c,
          array_reply (popped ff (nat m) l), True))"
proof -
  let ?w = "new_list (remaining ff (nat m) l) (expiry_time (node_value n))"
  let ?d = "sum_list (map list_elem_bytes (popped ff (nat m) l))"
  note old = value_small [OF inv lk]
  note split = popped_remaining [of list_elem_bytes ff "nat m" l]
  have ol: "unat (memory_usage (node_value n)) = sum_list (map list_elem_bytes l)"
    using old(2) l by (simp add: value_ok_def value_bytes_def)
  have w: "value_ok ?w" "unat (memory_usage ?w) = sum_list (map list_elem_bytes (remaining ff (nat m) l))"
    using new_list_ok [of "remaining ff (nat m) l" "expiry_time (node_value n)"] split ol old(1) by simp_all
  have u: "unat (of_nat ?d :: size_t) = ?d" using split ol old(1) by (intro unat_of_nat_size) simp
  have upd: "upd_node a (\<lambda>m'. m'\<lparr>node_value := (node_value m')\<lparr>data := DList (remaining ff (nat m) l),
      memory_usage := memory_usage (node_value m') - of_nat ?d\<rparr>\<rparr>) s = Inr (set_value a ?w s)"
    by (rule upd_node_value [OF n]) (simp add: pop_value_eq [OF old(2) l split])
  obtain s' where s': "notify_memory_change (of_nat ?d) 0 (set_value a ?w s) = Inr s'"
    "db_inv s' (cache_upd k ?w c)" "lru_state.more s' = lru_state.more s"
    using db_shrink [OF inv kv lk w(1), of 0 "of_nat ?d"] w(2) u ol split by fastforce
  have "length l < 2 ^ 31" using inv lk l by (rule value_length)
  then have "pop_body ff fd a m l s = Inr (send fd (array_reply (popped ff (nat m) l)) s', True)"
    by (simp only: pop_body_eq [OF nn _ refl] upd s'(1) rbind_simps)
  then show ?thesis using exact.meets_send [OF s'(3,2)] by simp
qed

lemma generic_pop_ok:
  assumes inv: "db_inv s c" and args: "2 \<le> length args"
  shows "meets db_inv s (generic_pop ff fd args s) fd (pop_spec ff args c)"
proof (cases "3 < length args")
  case True
  then show ?thesis using exact.meets_send [OF refl inv] by (simp add: generic_pop_def pop_spec_def)
next
  case False
  let ?k = "args ! 1" and ?m = "pop_count args"
  have body: "generic_pop ff fd args s =
    with_type LIST ?k fd s (Inr (send fd empty_array s, False)) (\<lambda>a node.
      rbind (touch_lru a s) (\<lambda>s1. rbind (deref a s1) (\<lambda>node1. rbind (get_list (node_value node1)) (\<lambda>l.
      pop_body ff fd a ?m l s1))))" using False args by (intro generic_pop_body) simp_all
  show ?thesis
    unfolding body pop_spec_def if_not_P [OF False]
  proof (rule exact.meets_type [OF inv tagged(2)], goal_cases)
    case 1
    show ?case by (rule exact.meets_send [OF refl inv])
  next
    case (2 a n l)
    then have l: "data (node_value n) = DList l" by simp
    obtain s1 n1 where s1: "touch_lru a s = Inr s1" "db_inv s1 (cache_touch ?k c)" "heap s1 a = Some n1"
      "node_value n1 = node_value n" "lru_state.more s1 = lru_state.more s" "kv_store s1 ?k = Some a"
      by (rule touch_found [OF inv 2(1,2)])
    have run: "rbind (touch_lru a s) (\<lambda>s1. rbind (deref a s1) (\<lambda>node1. rbind (get_list (node_value node1)) (\<lambda>l.
        pop_body ff fd a ?m l s1))) = pop_body ff fd a ?m l s1" using s1 l by simp
    show ?case
    proof (cases "?m < 0")
      case True
      have "length l < 2 ^ 31" using inv 2(3) l by (rule value_length)
      from pop_body_negative [OF True pop_count_range this, of ff fd a s1] True show ?thesis
        unfolding run by (simp only: Let_def if_True meets_simps)
    next
      case False
      have "map_of (cache_touch ?k c) ?k = Some (node_value n1)"
        using map_of_cache_touch [OF db_keys [OF inv]] 2(3) s1(4) by metis
      from pop_body_ok [OF s1(2,6,3) _ this, of l ?m ff fd] s1(4) l False
      have "meets db_inv s1 (pop_body ff fd a ?m l s1) fd
        (Inr (cache_upd ?k (new_list (remaining ff (nat ?m) l) (expiry_time (node_value n))) (cache_touch ?k c),
          array_reply (popped ff (nat ?m) l), True))" by simp
      then show ?thesis unfolding run using False io_frame [OF s1(5)] by (auto simp: Let_def yields_def)
    qed
  qed
qed

section \<open>Structural safety\<close>

lemma lrange_reply_total: "\<exists>msg. lrange_reply l li ri = Inr msg"
proof -
  define n where "n = to_int32 (length l)"
  define lo where "lo = max (if li < 0 then li + n else li) 0"
  define hi where "hi = min (if ri < 0 then ri + n else ri) (n - 1)"
  have rep: "lrange_reply l li ri = (if n \<le> lo \<or> hi < lo then Inr empty_array
      else range_loop l lo (nat (hi - lo + 1)) (''*'' @ to_string_int (hi - lo + 1) @ crlf))"
    by (simp only: lrange_reply_def Let_def lo_def hi_def n_def)
  have "0 \<le> lo" "hi < n" "n \<le> int (length l)" by (auto simp: lo_def hi_def n_def to_int32_range(1))
  then have "nat lo + nat (hi - lo + 1) \<le> length l" if "lo \<le> hi"
    using that by (simp add: nat_add_distrib [symmetric] nat_le_iff)
  with \<open>0 \<le> lo\<close> show ?thesis by (auto simp: rep range_loop_eq)
qed

lemma command_lrange_sound:
  assumes inv: "db_safe s c" and args: "length args = 4"
  shows "sound s (command_lrange fd args s)"
proof -
  have a: "arg args 1 = Inr (args ! 1)" "arg args 2 = Inr (args ! 2)" "arg args 3 = Inr (args ! 3)"
    using args by simp_all
  show ?thesis
    unfolding command_lrange_def a rbind_simps
  proof (rule sound_type [OF inv], goal_cases)
    case 1
    show ?case by (rule sound_send [OF refl inv])
  next
    case (2 b n)
    then obtain l where l: "data (node_value n) = DList l" using value_wf_getters(2) by blast
    obtain g where g: "\<And>li ri. lrange_reply l li ri = Inr (g li ri)" using lrange_reply_total [of l] by metis
    let ?msg = "case (stoi (args ! 2), stoi (args ! 3)) of (Some li, Some ri) \<Rightarrow> g li ri
      | _ \<Rightarrow> ''-WRONGTYPE Non-numeric values given for range'' @ crlf"
    have "meets db_safe s (rbind (touch_lru b s) (\<lambda>s1. rbind (deref b s1) (\<lambda>node1.
       rbind (get_list (node_value node1)) (\<lambda>l. case (stoi (args ! 2), stoi (args ! 3)) of
         (Some li, Some ri) \<Rightarrow> rbind (lrange_reply l li ri) (\<lambda>res. Inr (send fd res s1, False))
       | _ \<Rightarrow> Inr (send fd (''-WRONGTYPE Non-numeric values given for range'' @ crlf) s1, False))))) fd
       (Inr (cache_touch (args ! 1) c, ?msg, False))"
      using l g by (intro structural.meets_touch [OF inv 2(1,2)]) (simp split: option.split)
    then show ?case by (rule meets_sound) simp
  qed
qed

lemma command_llen_sound: "db_safe s c \<Longrightarrow> length args = 2 \<Longrightarrow> sound s (command_llen fd args s)"
  by (rule meets_sound [OF structural.llen_ok])
     (auto simp: llen_spec_def typed_spec_def split: option.splits)

lemma pop_body_sound:
  assumes inv: "db_safe s c" and kv: "kv_store s k = Some a" and n: "heap s a = Some n"
    and l: "data (node_value n) = DList l" and wf: "value_wf (node_value n)" and m: "- (2 ^ 31) \<le> m"
  shows "sound s (pop_body ff fd a m l s)"
proof -
  define q where "q = min m (to_int32 (length l))"
  have qr: "q \<le> int (length l)" "- (2 ^ 31) \<le> q" "q \<le> to_int32 (length l)"
    using m to_int32_range [of "length l"] by (auto simp: q_def)
  then have ix: "pop_indices_ok ff q l" using to_int32_range(1) [of "length l"]
    by (auto simp: pop_indices_ok_def list_all_iff Let_def)
  let ?r = "''*'' @ to_string_int q @ crlf"
  show ?thesis
  proof (cases "q < 0")
    case True
    from pop_loop_negative [OF this qr(2), of ff l ?r 0] ix show ?thesis
      by (simp add: pop_body_def q_def [symmetric] Let_def)
  next
    case False
    then have "pop_loop ff q l ?r 0 = pop_loop ff (int (nat q)) l ?r 0" by simp
    also obtain l' res d where "\<dots> = Inr (l', res, d)"
      using pop_loop_ok [of "nat q" l ff ?r 0] qr(1) by auto
    finally have loop: "pop_loop ff q l ?r 0 = Inr (l', res, d)" .
    let ?w = "(node_value n)\<lparr>data := DList l', memory_usage := memory_usage (node_value n) - d\<rparr>"
    have "value_wf ?w" using wf l by (simp add: value_wf_def)
    from sound_notify [OF inv kv this, of d 0] obtain s' c' where s': "notify_memory_change d 0 (set_value a ?w s) = Inr s'"
      "db_safe s' c'" "lru_state.more s' = lru_state.more s" by blast
    have "pop_body ff fd a m l s = Inr (send fd res s', True)"
      using ix loop s'(1) by (simp add: pop_body_def q_def [symmetric] Let_def upd_node_value [OF n])
    then show ?thesis using sound_send [OF s'(3,2)] by simp
  qed
qed

lemma generic_pop_sound:
  assumes inv: "db_safe s c" and args: "2 \<le> length args"
  shows "sound s (generic_pop ff fd args s)"
proof (cases "3 < length args")
  case True
  then show ?thesis using sound_send [OF refl inv] by (simp add: generic_pop_def del: sound_simps)
next
  case False
  have body: "generic_pop ff fd args s =
    with_type LIST (args ! 1) fd s (Inr (send fd empty_array s, False)) (\<lambda>a node.
      rbind (touch_lru a s) (\<lambda>s1. rbind (deref a s1) (\<lambda>node1. rbind (get_list (node_value node1)) (\<lambda>l.
      pop_body ff fd a (pop_count args) l s1))))" using False args by (intro generic_pop_body) simp_all
  show ?thesis
    unfolding body
  proof (rule sound_type [OF inv], goal_cases)
    case 1
    show ?case by (rule sound_send [OF refl inv])
  next
    case (2 a n)
    then obtain l where l: "data (node_value n) = DList l" using value_wf_getters(2) by blast
    obtain as where r: "lru_repr s as c" using inv by (auto simp: db_safe_def)
    obtain s1 where s1: "touch_lru a s = Inr s1" "links_only s s1" using touch_lru_repr [OF r 2(1)] by blast
    note lo = links_only_simps [OF s1(2)]
    have inv1: "db_safe s1 (cache_touch (args ! 1) c)" using structural.touch [OF inv 2(1) s1(1)] .
    have "kvs (heap s1) a = Some (node_key n, node_value n)" using 2(2) lo(2) by (simp add: kvs_def)
    then obtain n1 where n1: "heap s1 a = Some n1" "node_value n1 = node_value n" by (auto simp: kvs_Some)
    have kv1: "kv_store s1 (args ! 1) = Some a" using 2(1) lo(1) by simp
    have "sound s1 (pop_body ff fd a (pop_count args) l s1)"
      by (rule pop_body_sound [OF inv1 kv1 n1(1) _ _ pop_count_range]) (simp_all add: n1 l 2)
    then show ?case using s1 n1 l io_frame [OF lo(6)] by (auto simp: sound_def split: sum.splits)
  qed
qed

section \<open>Properties\<close>

lemma push_new_fits:
  assumes inv: "db_inv s c" and args: "args_ok ([cmd, k] @ xs)" and new: "map_of c k = None"
    and fits: "cache_bytes c + entry_size (k, new_list (push_all ff xs []) 0) \<le> LRU_MAX_MEMORY"
  obtains s1 c1 where "generic_push ff fd ([cmd, k] @ xs) s = Inr (s1, True)" "db_inv s1 c1" "distinct (map fst c1)"
    "map_of c1 = (map_of c)(k \<mapsto> new_list (push_all ff xs []) 0)"
    "out s1 = out s @ reply fd (integer_reply (to_int32 (length xs)))"
proof -
  note w = set_spec_fits [OF db_keys [OF inv] fits]
  have "push_spec ff k xs c = Inr (set_spec k (new_list (push_all ff xs []) 0) c, integer_reply (to_int32 (length xs)), True)"
    using new w(1) by (simp add: push_spec_def typed_spec_def write_spec_def)
  with generic_push_ok [OF inv args, of ff fd] obtain s1 where s1: "generic_push ff fd ([cmd, k] @ xs) s = Inr (s1, True)"
    "db_inv s1 (set_spec k (new_list (push_all ff xs []) 0) c)"
    "out s1 = out s @ reply fd (integer_reply (to_int32 (length xs)))" by (auto elim!: yieldsE)
  show ?thesis by (rule that [OF s1(1,2) db_keys [OF s1(2)] w(2) s1(3)])
qed

text \<open>
  \<^bold>\<open>C24\<close>. A list filled at one end and emptied from the other is a queue, from the same end a
  stack: pushing any elements that fit beside what is stored on a new key and then popping \<open>n\<close> answers the
  first \<open>n\<close> of them in order, or the last \<open>n\<close> in reverse, and leaves exactly the others stored.
\<close>

theorem push_then_pop:
  assumes "db_inv s c" "args_ok ([cmd, k] @ xs)" "map_of c k = None" "n < 2 ^ 31"
    "cache_bytes c + entry_size (k, new_list (push_all at_front xs []) 0) \<le> LRU_MAX_MEMORY"
  shows "\<exists>s1 s2. generic_push at_front fd ([cmd, k] @ xs) s = Inr (s1, True) \<and>
    generic_pop from_front fd [cmd', k, to_string n] s1 = Inr (s2, True) \<and>
    out s2 = out s @ reply fd (integer_reply (to_int32 (length xs))) @
      reply fd (array_reply (take n (if at_front = from_front then rev xs else xs))) \<and>
    kv_view s2 = (kv_view s)(k \<mapsto> new_list (if from_front then drop n (if at_front then rev xs else xs)
      else take (length xs - n) (if at_front then rev xs else xs)) 0)"
proof -
  let ?l = "push_all at_front xs []"
  obtain s1 c1 where s1: "generic_push at_front fd ([cmd, k] @ xs) s = Inr (s1, True)" "db_inv s1 c1" "distinct (map fst c1)"
    "map_of c1 = (map_of c)(k \<mapsto> new_list ?l 0)" "out s1 = out s @ reply fd (integer_reply (to_int32 (length xs)))"
    by (rule push_new_fits [OF assms(1-3,5), of fd])
  let ?c = "cache_upd k (new_list (remaining from_front n ?l) 0) (cache_touch k c1)"
  have "pop_count [cmd', k, to_string n] = int n" using stoi_to_string [OF assms(4)] by (simp add: pop_count_def)
  then have "pop_spec from_front [cmd', k, to_string n] c1 = Inr (?c, array_reply (popped from_front n ?l), True)"
    using s1(4) by (simp add: pop_spec_def typed_spec_def new_list_def)
  with generic_pop_ok [OF s1(2), of "[cmd', k, to_string n]" from_front fd]
  obtain s2 where s2: "generic_pop from_front fd [cmd', k, to_string n] s1 = Inr (s2, True)" "db_inv s2 ?c"
    "out s2 = out s1 @ reply fd (array_reply (popped from_front n ?l))" by (auto elim!: yieldsE)
  have "map_of (cache_touch k c1) = map_of c1" using s1(3) by (rule map_of_cache_touch)
  then have "map_of ?c = (map_of c)(k \<mapsto> new_list (remaining from_front n ?l) 0)"
    using s1(4) by (simp add: map_of_upd_same)
  moreover have "popped from_front n ?l = take n (if at_front = from_front then rev xs else xs)"
    by (simp add: popped_def push_all_def)
  ultimately show ?thesis using s1(1,5) s2(1,3) db_inv_view [OF s2(2)] db_inv_view [OF assms(1)]
    by (simp add: remaining_def push_all_def)
qed

theorem push_then_pop_witness:
  "\<exists>s1 s2. generic_push False 5 ([''RPUSH'', ''q''] @ [''a'', ''b'', ''c'']) (empty_db (\<lambda>_. 0)) = Inr (s1, True) \<and>
     generic_pop True 5 [''LPOP'', ''q'', to_string 2] s1 = Inr (s2, True) \<and> kv_view s2 ''q'' = Some (new_list [''c''] 0)"
proof -
  have "cache_bytes [] + entry_size (''q'', new_list (push_all False [''a'', ''b'', ''c''] []) 0) \<le> LRU_MAX_MEMORY"
    by (rule small_fits) code_simp
  from push_then_pop [OF db_inv_empty [of "\<lambda>_. 0"] _ _ _ this, of "''RPUSH''" 2 5 True "''LPOP''"] show ?thesis
    by (auto simp: args_ok_def)
qed

text \<open>
  \<^bold>\<open>C37\<close>. LPOP and RPOP do not refuse a negative count: on a key that holds a list
  the loop counts down past zero and takes the front of the empty list.
\<close>

theorem negative_count_faults:
  assumes "db_inv s c" "map_of c k = Some v" "data v = DList l" "stoi n = Some i" "- (2 ^ 30) < i" "i < 0"
  shows "command_lpop fd [cmd, k, n] s = Inl Empty_container \<and> command_rpop fd [cmd, k, n] s = Inl Empty_container"
proof -
  have "unat (memory_usage v) < 2 ^ 27" "value_ok v" using value_small [OF assms(1,2)] by simp_all
  moreover have "length l \<le> sum_list (map list_elem_bytes l)" by (induction l) (auto simp: list_elem_bytes_def)
  ultimately have "length l < 2 ^ 27" using assms(3) by (simp add: value_ok_def value_bytes_def)
  then have "\<not> i + 2 ^ 31 < int (length l)" using assms(5) by simp
  then have "pop_spec ff [cmd, k, n] c = Inl Empty_container" for ff
    using assms(2-4,6) by (simp add: pop_spec_def typed_spec_def pop_count_def)
  then show ?thesis
    using generic_pop_ok [OF assms(1), of "[cmd, k, n]" _ fd] by (simp add: command_lpop_def command_rpop_def)
qed

theorem negative_count_faults_witness:
  "\<exists>s :: io_state. db_inv s [(''k'', new_list [''a''] 0)] \<and> command_lpop 5 [''LPOP'', ''k'', ''-1''] s = Inl Empty_container"
proof -
  have "storable [(''k'', new_list [''a''] 0)]" by (rule storableI) code_simp
  from sample_db [OF this] obtain s :: io_state where s: "db_inv s [(''k'', new_list [''a''] 0)]" by blast
  have "stoi ''-1'' = Some (-1)" by code_simp
  from negative_count_faults [OF s _ _ this, of "''k''" "new_list [''a''] 0" "[''a'']" 5 "''LPOP''"] s show ?thesis
    by (auto simp: new_list_def)
qed

end
