(* ===== verification/Cmd_Hash.thy ===== *)
theory Cmd_Hash
  imports Cmd_List
begin

text \<open>
  The hash commands of commands.cpp: HSET, HGET, HGETALL, HDEL, HLEN over \<open>DrutaHash\<close>. HSET adds
  to the memory accounting and is exact; HDEL is exact as long as the hash's own counter does not
  wrap, which \<open>hdel_exact\<close> states and which holds for hashes of short strings.
\<close>

section \<open>Handlers\<close>

fun pairs_of :: "string list \<Rightarrow> (string \<times> string) list" where
  "pairs_of (f # v # xs) = (f, v) # pairs_of xs"
| "pairs_of xs = []"

definition wrong_args :: "string \<Rightarrow> string" where
  "wrong_args name = ''-ERR wrong number of arguments for '' @ [CHR 0x27] @ name @ [CHR 0x27] @ '' command'' @ crlf"

text \<open>HSET from \<open>hash_ptr\<close> on: the field loop, the node's size, the notification, the touch.\<close>

definition hset_fields :: "int \<Rightarrow> string list \<Rightarrow> addr \<Rightarrow> ('z) io_state_scheme \<Rightarrow> (('z) io_state_scheme \<times> bool) res" where
  "hset_fields fd args a s =
     rbind (deref a s) (\<lambda>node.
     rbind (get_dhash (node_value node)) (\<lambda>hash.
     let old_mem = hmemory_usage hash in
     rbind (put_loop set_hash (pairs_of (drop 2 args)) hash) (\<lambda>(hash', created).
     let new_mem = hmemory_usage hash' in
     rbind (upd_node a (\<lambda>n. n\<lparr>node_value := (node_value n)\<lparr>data := DHash hash', memory_usage :=
         (if old_mem < new_mem then memory_usage (node_value n) + (new_mem - old_mem)
          else if new_mem < old_mem then memory_usage (node_value n) - (old_mem - new_mem)
          else memory_usage (node_value n))\<rparr>\<rparr>) s) (\<lambda>s1.
     rbind (rbind (notify_memory_change old_mem new_mem s1) (touch_lru a)) (\<lambda>s2.
     Inr (send_integer fd (int created) s2, created > 0))))))"

definition command_hset :: "int \<Rightarrow> string list \<Rightarrow> ('z) io_state_scheme \<Rightarrow> (('z) io_state_scheme \<times> bool) res" where
  "command_hset fd args s =
     (if length args < 4 \<or> odd (length args) then Inr (send fd (wrong_args ''hset'') s, False)
      else
        rbind (arg args 1) (\<lambda>key.
        with_type HASH key fd s
          (case insert_node key (new_empty HASH) s of (s1, a) \<Rightarrow>
           rbind (add_lru a s1) (hset_fields fd args a))
          (\<lambda>a node. hset_fields fd args a s)))"

definition command_hget :: "int \<Rightarrow> string list \<Rightarrow> ('z) io_state_scheme \<Rightarrow> (('z) io_state_scheme \<times> bool) res" where
  "command_hget fd args s =
     (if length args \<noteq> 3 then Inr (send fd (wrong_args ''hget'') s, False)
      else
        rbind (arg args 1) (\<lambda>key. rbind (arg args 2) (\<lambda>field.
        with_type HASH key fd s (Inr (send fd nil_reply s, False)) (\<lambda>a node.
          rbind (get_dhash (node_value node)) (\<lambda>hash.
          rbind (get_hash hash field) (\<lambda>r. case r of
            Some val \<Rightarrow> rbind (touch_lru a (send fd (resp_bulk_string [] val) s)) (\<lambda>s1. Inr (s1, False))
          | None \<Rightarrow> Inr (send fd nil_reply s, False)))))))"

definition command_hgetall :: "int \<Rightarrow> string list \<Rightarrow> ('z) io_state_scheme \<Rightarrow> (('z) io_state_scheme \<times> bool) res" where
  "command_hgetall fd args s =
     (if length args \<noteq> 2 then Inr (send fd (wrong_args ''hgetall'') s, False)
      else
        rbind (arg args 1) (\<lambda>key.
        with_type HASH key fd s (Inr (send fd empty_array s, False)) (\<lambda>a node.
          rbind (touch_lru a s) (\<lambda>s1.
          rbind (deref a s1) (\<lambda>node1.
          rbind (get_dhash (node_value node1)) (\<lambda>hash.
          rbind (if htype hash = VECTOR then get_vec hash else get_map hash) (\<lambda>all_data.
          rbind (reserve (1024 + hmemory_usage hash)) (\<lambda>_.
          Inr (send fd
            (fold (\<lambda>p res. resp_bulk_string (resp_bulk_string res (chars (fst p))) (chars (snd p))) all_data
              (''*'' @ to_string (length all_data * 2) @ crlf)) s1, False))))))))) "

definition command_hdel :: "int \<Rightarrow> string list \<Rightarrow> ('z) io_state_scheme \<Rightarrow> (('z) io_state_scheme \<times> bool) res" where
  "command_hdel fd args s =
     (if length args < 3 then Inr (send fd (wrong_args ''hdel'') s, False)
      else
        rbind (arg args 1) (\<lambda>key.
        with_type HASH key fd s (Inr (send_integer fd 0 s, False)) (\<lambda>a node.
          rbind (get_dhash (node_value node)) (\<lambda>hash.
          let old_mem = hmemory_usage hash in
          rbind (del_loop del_hash (drop 2 args) hash) (\<lambda>(hash', deleted).
          let new_mem = hmemory_usage hash' in
          rbind (if new_mem < old_mem
             then rbind (upd_node a (\<lambda>n. n\<lparr>node_value := (node_value n)\<lparr>data := DHash hash',
                    memory_usage := memory_usage (node_value n) - (old_mem - new_mem)\<rparr>\<rparr>) s)
                    (notify_memory_change old_mem new_mem)
             else upd_node a (\<lambda>n. n\<lparr>node_value := (node_value n)\<lparr>data := DHash hash'\<rparr>\<rparr>) s) (\<lambda>s1.
          rbind (touch_lru a s1) (\<lambda>s2.
          Inr (send_integer fd (int deleted) s2, deleted > 0)))))))) "

definition command_hlen :: "int \<Rightarrow> string list \<Rightarrow> ('z) io_state_scheme \<Rightarrow> (('z) io_state_scheme \<times> bool) res" where
  "command_hlen fd args s =
     (if length args \<noteq> 2 then Inr (send fd (wrong_args ''hlen'') s, False)
      else
        rbind (arg args 1) (\<lambda>key.
        with_type HASH key fd s (Inr (send_integer fd 0 s, False)) (\<lambda>a node.
          rbind (get_dhash (node_value node)) (\<lambda>hash.
          rbind (hash_size hash) (\<lambda>n.
          Inr (send_integer fd (to_int32 n) s, False))))))"

section \<open>Specifications\<close>

definition hset_spec :: "string list \<Rightarrow> cache \<Rightarrow> command_spec" where
  "hset_spec args c =
     (let k = args ! 1; xs = pairs_of (drop 2 args);
          put = (\<lambda>h e c. rbind (put_loop set_hash xs h) (\<lambda>(h', n).
            write_spec k (new_hash h' e) c (integer_reply (int n)) (n > 0)))
      in if length args < 4 \<or> odd (length args) then Inr (c, wrong_args ''hset'', False)
         else typed_spec as_hash k c
           (let c1 = evict_spec (c @ [(k, new_empty HASH)]) in
            if k \<in> fst ` set c1 then put (new_hash_vec [] 0) 0 c1 else Inl Use_after_free)
           (\<lambda>v h. put h (expiry_time v) c))"

definition hget_spec :: "string list \<Rightarrow> cache \<Rightarrow> command_spec" where
  "hget_spec args c =
     (if length args \<noteq> 3 then Inr (c, wrong_args ''hget'', False)
      else typed_spec as_hash (args ! 1) c (Inr (c, nil_reply, False)) (\<lambda>v h.
        case hash_map h (args ! 2) of
          None \<Rightarrow> Inr (c, nil_reply, False)
        | Some val \<Rightarrow> Inr (cache_touch (args ! 1) c, bulk val, False)))"

definition pairs_reply :: "(string \<times> string) list \<Rightarrow> string" where
  "pairs_reply ps = array_reply (concat (map (\<lambda>(f, v). [f, v]) ps))"

definition hgetall_spec :: "string list \<Rightarrow> cache \<Rightarrow> command_spec" where
  "hgetall_spec args c =
     (if length args \<noteq> 2 then Inr (c, wrong_args ''hgetall'', False)
      else typed_spec as_hash (args ! 1) c (Inr (c, empty_array, False)) (\<lambda>v h.
        if unat (1024 + hmemory_usage h) < 2 ^ 62
        then Inr (cache_touch (args ! 1) c, pairs_reply (plain (entries h)), False)
        else Inl Uncaught_exception))"

definition hdel_spec :: "string list \<Rightarrow> cache \<Rightarrow> command_spec" where
  "hdel_spec args c =
     (if length args < 3 then Inr (c, wrong_args ''hdel'', False)
      else typed_spec as_hash (args ! 1) c (Inr (c, integer_reply 0, False)) (\<lambda>v h.
        rbind (del_loop del_hash (drop 2 args) h) (\<lambda>(h', n).
        Inr (cache_touch (args ! 1) (cache_upd (args ! 1) (new_hash h' (expiry_time v)) c),
             integer_reply (int n), n > 0))))"

definition hdel_exact :: "string list \<Rightarrow> cache \<Rightarrow> bool" where
  "hdel_exact args c = (case map_of c (args ! 1) of
     Some v \<Rightarrow> (case data v of
         DHash h \<Rightarrow> (case del_loop del_hash (drop 2 args) h of
             Inr (h', n) \<Rightarrow> hmemory_usage h' \<le> hmemory_usage h | Inl e \<Rightarrow> True)
       | _ \<Rightarrow> True)
   | None \<Rightarrow> True)"

definition hlen_spec :: "string list \<Rightarrow> cache \<Rightarrow> command_spec" where
  "hlen_spec args c =
     (if length args \<noteq> 2 then Inr (c, wrong_args ''hlen'', False)
      else typed_spec as_hash (args ! 1) c (Inr (c, integer_reply 0, False)) (\<lambda>v h.
        Inr (c, integer_reply (to_int32 (card (dom (hash_map h)))), False)))"

section \<open>Reading\<close>

lemma hash_entries:
  assumes "hash_wf h"
  shows "(if htype h = VECTOR then get_vec h else get_map h) = Inr (entries h)"
  using assms by (cases h rule: hash_wf_cases) simp_all

lemma pairs_reply_fold:
  "fold (\<lambda>p res. resp_bulk_string (resp_bulk_string res (chars (fst p))) (chars (snd p))) es
     (''*'' @ to_string (length es * 2) @ crlf) = pairs_reply (plain es)"
proof -
  have "fold (\<lambda>p res. resp_bulk_string (resp_bulk_string res (chars (fst p))) (chars (snd p))) es r =
      r @ concat (map bulk (concat (map (\<lambda>(f, v). [f, v]) (plain es))))" for r
    by (induction es arbitrary: r) (simp_all add: resp_bulk_string_append)
  moreover have "length (concat (map (\<lambda>(f, v). [f, v]) (plain es))) = length es * 2"
    by (induction es) simp_all
  ultimately show ?thesis by (simp add: pairs_reply_def array_reply_def)
qed

context db_reader
begin

lemma hget_ok:
  assumes inv: "I s c"
  shows "meets I s (command_hget fd args s) fd (hget_spec args c)"
proof (cases "length args = 3")
  case False
  then show ?thesis using meets_send [OF refl inv] by (simp add: command_hget_def hget_spec_def)
next
  case True
  then have a: "arg args 1 = Inr (args ! 1)" "arg args 2 = Inr (args ! 2)" "\<not> length args \<noteq> 3" by simp_all
  show ?thesis
    unfolding command_hget_def hget_spec_def a(1,2) rbind_simps if_not_P [OF a(3)]
  proof (rule meets_type [OF inv tagged(3)], goal_cases)
    case 1
    show ?case by (rule meets_send [OF refl inv])
  next
    case (2 b n h)
    then have h: "data (node_value n) = DHash h" "hash_wf h" by (auto simp: value_wf_data)
    show ?case
    proof (cases "hash_map h (args ! 2)")
      case None
      then show ?thesis using h get_hash_ok [OF h(2), of "args ! 2"] meets_send [OF refl inv] by simp
    next
      case (Some val)
      then show ?thesis
        using h get_hash_ok [OF h(2), of "args ! 2"] meets_send_touch [OF inv 2(1), of fd "bulk val" False]
        by (simp add: bulk_def)
    qed
  qed
qed

lemma hgetall_ok:
  assumes inv: "I s c"
  shows "meets I s (command_hgetall fd args s) fd (hgetall_spec args c)"
proof (cases "length args = 2")
  case False
  then show ?thesis using meets_send [OF refl inv] by (simp add: command_hgetall_def hgetall_spec_def)
next
  case True
  then have a: "arg args 1 = Inr (args ! 1)" "\<not> length args \<noteq> 2" by simp_all
  show ?thesis
    unfolding command_hgetall_def hgetall_spec_def a(1) rbind_simps if_not_P [OF a(2)]
  proof (rule meets_type [OF inv tagged(3)], goal_cases)
    case 1
    show ?case by (rule meets_send [OF refl inv])
  next
    case (2 b n h)
    then have h: "data (node_value n) = DHash h" "hash_wf h" by (auto simp: value_wf_data)
    show ?case
    proof (cases "unat (1024 + hmemory_usage h) < 2 ^ 62")
      case True
      then show ?thesis unfolding if_P [OF True] using h
        by (intro meets_touch [OF inv 2(1,2)])
           (simp add: hash_entries reserve_def pairs_reply_fold [unfolded append.simps])
    next
      case False
      obtain as where r: "lru_repr s as c" using safe [OF inv] by (auto simp: db_safe_def)
      obtain s1 where s1: "touch_lru b s = Inr s1" "links_only s s1" using touch_lru_repr [OF r 2(1)] by blast
      have "kvs (heap s1) b = Some (node_key n, node_value n)"
        using 2(2) links_only_simps(2) [OF s1(2)] by (simp add: kvs_def)
      then obtain n' where "heap s1 b = Some n'" "node_value n' = node_value n" by (auto simp: kvs_Some)
      with False s1 h show ?thesis by (simp add: hash_entries reserve_def)
    qed
  qed
qed

lemma hlen_ok:
  assumes inv: "I s c"
  shows "meets I s (command_hlen fd args s) fd (hlen_spec args c)"
proof (cases "length args = 2")
  case False
  then show ?thesis using meets_send [OF refl inv] by (simp add: command_hlen_def hlen_spec_def)
next
  case True
  then have a: "arg args 1 = Inr (args ! 1)" "\<not> length args \<noteq> 2" by simp_all
  show ?thesis
    unfolding command_hlen_def hlen_spec_def a(1) rbind_simps if_not_P [OF a(2)] send_integer_eq
  proof (rule meets_type [OF inv tagged(3)], goal_cases)
    case 1
    show ?case by (rule meets_send [OF refl inv])
  next
    case (2 b n h)
    then have h: "data (node_value n) = DHash h" "hash_wf h" by (auto simp: value_wf_data)
    then show ?case using hash_size_ok meets_send [OF refl inv] by simp
  qed
qed

end

section \<open>HSET\<close>

lemma pairs_of_bytes:
  "sum_list (map (\<lambda>(f, v). length f + 2 * length v + 4500) (pairs_of xs)) \<le> request_bytes xs"
  by (induction xs rule: pairs_of.induct) auto

lemma put_loop_grows:
  "hash_wf h \<Longrightarrow> put_loop set_hash xs h = Inr (h', n) \<Longrightarrow> hash_wf h' \<and>
    (\<exists>d. d \<le> sum_list (map (\<lambda>(f, v). length f + 2 * length v + 4500) xs) \<and>
      hmemory_usage h' = hmemory_usage h + of_nat d)"
proof (induction xs arbitrary: h n)
  case Nil
  then show ?case by auto
next
  case (Cons x xs)
  obtain f v where x: "x = (f, v)" by (cases x)
  obtain h1 b m where h1: "set_hash f v h = Inr (h1, b)" "put_loop set_hash xs h1 = Inr (h', m)"
    using Cons.prems(2) x by auto
  have "hash_wf h1" using set_hash_ok [OF Cons.prems(1), of f v] h1(1) by auto
  from Cons.IH [OF this h1(2)] obtain d where d: "hash_wf h'"
    "d \<le> sum_list (map (\<lambda>(f, v). length f + 2 * length v + 4500) xs)"
    "hmemory_usage h' = hmemory_usage h1 + of_nat d" by blast
  from set_hash_grows [OF Cons.prems(1) h1(1)] obtain e where
    e: "e \<le> length f + 2 * length v + 4500" "hmemory_usage h1 = hmemory_usage h + of_nat e" by blast
  from d e x show ?case by (intro conjI exI [of _ "e + d"]) (simp_all add: add.assoc)
qed

lemma put_loop_total:
  assumes "hash_wf h"
  obtains h' n where "put_loop set_hash xs h = Inr (h', n)" "hash_wf h'"
    "hash_map h' = hash_map h ++ map_of (rev xs)" "n = card (fst ` set xs - dom (hash_map h))"
  using druta_hash.put_loop_ok [OF assms, of xs] by blast

lemma hash_value_mem: "value_ok v \<Longrightarrow> data v = DHash h \<Longrightarrow> memory_usage v = hmemory_usage h"
  by (simp add: value_ok_def value_bytes_def word_unat_eq_iff)

lemma hash_value_eq:
  assumes "value_ok v" "data v = DHash h"
  shows "v = new_hash h (expiry_time v)"
  using assms hash_value_mem [OF assms] by (cases v) (simp add: value_ok_def value_wf_def new_hash_def)

lemma new_hash_ok: "hash_wf h \<Longrightarrow> value_ok (new_hash h e)"
  by (simp add: value_ok_def value_wf_def value_bytes_def new_hash_def)

lemma hash_value_upd:
  assumes "value_ok v" "data v = DHash h"
  shows "v\<lparr>data := DHash h', memory_usage :=
      (if hmemory_usage h < hmemory_usage h' then memory_usage v + (hmemory_usage h' - hmemory_usage h)
       else if hmemory_usage h' < hmemory_usage h then memory_usage v - (hmemory_usage h - hmemory_usage h')
       else memory_usage v)\<rparr> = new_hash h' (expiry_time v)"
  using hash_value_eq [OF assms] by (cases v) (auto simp: new_hash_def not_less)

lemma hset_fields_eq:
  assumes n: "heap s a = Some n" and h: "data (node_value n) = DHash h" and ok: "value_ok (node_value n)"
    and put: "put_loop set_hash (pairs_of (drop 2 args)) h = Inr (h', m)"
  shows "hset_fields fd args a s =
    rbind (rbind (notify_memory_change (hmemory_usage h) (hmemory_usage h')
        (set_value a (new_hash h' (expiry_time (node_value n))) s)) (touch_lru a))
      (\<lambda>s2. Inr (send fd (integer_reply (int m)) s2, m > 0))"
proof -
  have "upd_node a (\<lambda>n. n\<lparr>node_value := (node_value n)\<lparr>data := DHash h', memory_usage :=
         (if hmemory_usage h < hmemory_usage h' then memory_usage (node_value n) + (hmemory_usage h' - hmemory_usage h)
          else if hmemory_usage h' < hmemory_usage h then memory_usage (node_value n) - (hmemory_usage h - hmemory_usage h')
          else memory_usage (node_value n))\<rparr>\<rparr>) s =
      Inr (set_value a (new_hash h' (expiry_time (node_value n))) s)"
    by (rule upd_node_value [OF n]) (simp only: hash_value_upd [OF ok h])
  then show ?thesis
    by (simp only: hset_fields_def deref_Some [OF n] getters(3) [OF h] put Let_def rbind_simps prod.case
        send_integer_eq)
qed

lemma hset_fields_ok:
  assumes inv: "db_inv s c" and kv: "kv_store s (args ! 1) = Some a" and n: "heap s a = Some n"
    and lk: "map_of c (args ! 1) = Some (node_value n)" and h: "data (node_value n) = DHash h"
    and args: "args_ok args" "2 \<le> length args"
  shows "meets db_inv s (hset_fields fd args a s) fd
    (rbind (put_loop set_hash (pairs_of (drop 2 args)) h) (\<lambda>(h', m).
      write_spec (args ! 1) (new_hash h' (expiry_time (node_value n))) c (integer_reply (int m)) (m > 0)))"
proof -
  note old = value_small [OF inv lk]
  have wf: "hash_wf h" using old(2) h by (auto simp: value_ok_def value_wf_data)
  obtain h' m where put: "put_loop set_hash (pairs_of (drop 2 args)) h = Inr (h', m)" "hash_wf h'"
    by (rule put_loop_total [OF wf])
  let ?w = "new_hash h' (expiry_time (node_value n))"
  obtain d where d: "d \<le> request_bytes args" "hmemory_usage h' = hmemory_usage h + of_nat d"
    using put_loop_grows [OF wf put(1)] pairs_of_bytes [of "drop 2 args"] request_bytes_drop [of 2 args]
    by (meson order_trans)
  have mu: "memory_usage (node_value n) = hmemory_usage h" using old(2) h by (rule hash_value_mem)
  have "unat (hmemory_usage h) + d < 2 ^ 64" using old(1) mu d(1) args_ok_bytes [OF args(1)] by simp
  then have "unat (of_nat (unat (hmemory_usage h) + d) :: size_t) = unat (hmemory_usage h) + d"
    by (rule unat_of_nat_size)
  then have u: "unat (hmemory_usage h') = unat (hmemory_usage h) + d" using d(2) by simp
  have w: "value_ok ?w" "memory_usage ?w = hmemory_usage h'" using new_hash_ok [OF put(2)] by (simp_all add: new_hash_def)
  have i: "1 < length args" using args by simp
  have "meets db_inv s (hset_fields fd args a s) fd (write_spec (args ! 1) ?w c (integer_reply (int m)) (m > 0))"
    unfolding hset_fields_eq [OF n h old(2) put(1)]
  proof (rule meets_mutate [OF inv kv lk w(1)])
    show "unat (hmemory_usage h') + unat (memory_usage (node_value n)) =
        unat (hmemory_usage h) + unat (memory_usage ?w)" by (simp add: mu w(2))
    show "cache_bytes (cache_upd (args ! 1) ?w c) < 2 ^ 64"
      using u old(1) mu d(1) w(2) by (intro write_bound(2) [OF inv args(1) i refl _ lk]) simp
  qed simp
  then show ?thesis by (simp only: put(1) rbind_simps prod.case)
qed

lemma new_empty_hash [simp]:
  "data (new_empty HASH) = DHash (new_hash_vec [] 0)" "value_ok (new_empty HASH)"
  "expiry_time (new_empty HASH) = 0" "memory_usage (new_empty HASH) = 0"
  using value_ok_empty [of HASH] by (simp_all add: new_empty_def)

lemma map_of_evict:
  assumes "map_of c k = None" "k \<in> fst ` set (evict_spec (c @ [(k, v)]))"
  shows "map_of (evict_spec (c @ [(k, v)])) k = Some v"
proof -
  obtain j where e: "evict_spec (c @ [(k, v)]) = drop j (c @ [(k, v)])" using evict_spec_suffix by blast
  have nk: "k \<notin> fst ` set c" using assms(1) by (simp add: map_of_eq_None_iff)
  then have "k \<notin> fst ` set (drop j c)" by (auto dest: in_set_dropD)
  then have "map_of (drop j c) k = None" by (simp add: map_of_eq_None_iff)
  moreover have "j \<le> length c" using assms(2) nk e by (cases "j \<le> length c") auto
  ultimately show ?thesis unfolding e by (simp add: map_add_def)
qed

lemma hset_new_ok:
  assumes inv: "db_inv s c" and new: "kv_store s (args ! 1) = None" and lk: "map_of c (args ! 1) = None"
    and args: "args_ok args" "2 \<le> length args"
  defines "c1 \<equiv> evict_spec (c @ [(args ! 1, new_empty HASH)])"
  shows "meets db_inv s (case insert_node (args ! 1) (new_empty HASH) s of (s1, a) \<Rightarrow>
      rbind (add_lru a s1) (hset_fields fd args a)) fd
    (if args ! 1 \<in> fst ` set c1 then rbind (put_loop set_hash (pairs_of (drop 2 args)) (new_hash_vec [] 0))
       (\<lambda>(h', m). write_spec (args ! 1) (new_hash h' 0) c1 (integer_reply (int m)) (m > 0))
     else Inl Use_after_free)"
proof -
  let ?k = "args ! 1"
  obtain s1 a where ins: "insert_node ?k (new_empty HASH) s = (s1, a)" by fastforce
  have i: "1 < length args" using args by simp
  have "cache_bytes c + entry_size (?k, new_empty HASH) < 2 ^ 64"
    by (rule write_bound(1) [OF inv args(1) i refl]) simp
  from db_insert [OF inv new ins new_empty_hash(2) this] obtain s2 where s2: "add_lru a s1 = Inr s2"
    "db_inv s2 c1" "lru_state.more s2 = lru_state.more s"
    "?k \<in> fst ` set c1 \<longrightarrow> kv_store s2 ?k = Some a" "?k \<notin> fst ` set c1 \<longrightarrow> heap s2 a = None"
    unfolding c1_def by blast
  show ?thesis
  proof (cases "?k \<in> fst ` set c1")
    case True
    have kv2: "kv_store s2 ?k = Some a" using True s2(4) by blast
    obtain n where n: "heap s2 a = Some n" "map_of c1 ?k = Some (node_value n)"
      using db_find [OF s2(2) kv2] by metis
    have v: "node_value n = new_empty HASH" using n(2) map_of_evict [OF lk] True unfolding c1_def by simp
    then have h: "data (node_value n) = DHash (new_hash_vec [] 0)" by simp
    have "meets db_inv s2 (hset_fields fd args a s2) fd (rbind (put_loop set_hash (pairs_of (drop 2 args)) (new_hash_vec [] 0))
       (\<lambda>(h', m). write_spec ?k (new_hash h' 0) c1 (integer_reply (int m)) (m > 0)))"
      using hset_fields_ok [OF s2(2) kv2 n h args] v by simp
    then show ?thesis using True ins s2(1) io_frame [OF s2(3)]
      by (auto simp: meets_def yields_def split: sum.splits)
  next
    case False
    then show ?thesis using ins s2 by (simp add: hset_fields_def)
  qed
qed

lemma command_hset_ok:
  assumes inv: "db_inv s c" and args: "args_ok args"
  shows "meets db_inv s (command_hset fd args s) fd (hset_spec args c)"
proof (cases "length args < 4 \<or> odd (length args)")
  case True
  then show ?thesis using exact.meets_send [OF refl inv] by (simp add: command_hset_def hset_spec_def)
next
  case False
  then have a: "arg args 1 = Inr (args ! 1)" and len: "2 \<le> length args" by simp_all
  show ?thesis
    unfolding command_hset_def hset_spec_def Let_def a rbind_simps if_not_P [OF False]
  proof (rule exact.meets_type [OF inv tagged(3)], goal_cases)
    case 1
    show ?case by (rule hset_new_ok [OF inv 1(2,1) args len])
  next
    case (2 b n h)
    then show ?case using hset_fields_ok [OF inv 2(1-3) _ args len] by simp
  qed
qed

section \<open>HDEL\<close>

text \<open>The hash written back after the deletions, with the notification when the counter went down.\<close>

definition hdel_store :: "addr \<Rightarrow> DrutaHash \<Rightarrow> DrutaHash \<Rightarrow> ('z) io_state_scheme \<Rightarrow> ('z) io_state_scheme res" where
  "hdel_store a h h' s =
     (if hmemory_usage h' < hmemory_usage h
      then rbind (upd_node a (\<lambda>n. n\<lparr>node_value := (node_value n)\<lparr>data := DHash h',
             memory_usage := memory_usage (node_value n) - (hmemory_usage h - hmemory_usage h')\<rparr>\<rparr>) s)
             (notify_memory_change (hmemory_usage h) (hmemory_usage h'))
      else upd_node a (\<lambda>n. n\<lparr>node_value := (node_value n)\<lparr>data := DHash h'\<rparr>\<rparr>) s)"

lemma hdel_store_ok:
  assumes inv: "db_inv s c" and kv: "kv_store s k = Some a" and n: "heap s a = Some n"
    and lk: "map_of c k = Some (node_value n)" and h: "data (node_value n) = DHash h"
    and wf: "hash_wf h'" and le: "hmemory_usage h' \<le> hmemory_usage h"
  shows "\<exists>s1. hdel_store a h h' s = Inr s1 \<and> db_inv s1 (cache_upd k (new_hash h' (expiry_time (node_value n))) c) \<and>
    lru_state.more s1 = lru_state.more s \<and> kv_store s1 k = Some a"
proof -
  let ?w = "new_hash h' (expiry_time (node_value n))" and ?o = "hmemory_usage h" and ?n = "hmemory_usage h'"
  note old = value_small [OF inv lk]
  have w: "value_ok ?w" "memory_usage ?w = ?n" using new_hash_ok [OF wf] by (simp_all add: new_hash_def)
  have mu: "memory_usage (node_value n) = ?o" using old(2) h by (rule hash_value_mem)
  have bal: "unat ?n + unat (memory_usage (node_value n)) = unat ?o + unat (memory_usage ?w)" by (simp add: mu w(2))
  show ?thesis
  proof (cases "?n < ?o")
    case True
    then have ngt: "\<not> ?o < ?n" by simp
    have "upd_node a (\<lambda>n. n\<lparr>node_value := (node_value n)\<lparr>data := DHash h',
        memory_usage := memory_usage (node_value n) - (?o - ?n)\<rparr>\<rparr>) s = Inr (set_value a ?w s)"
      by (rule upd_node_value [OF n])
         (simp only: hash_value_upd [OF old(2) h, of h', unfolded if_not_P [OF ngt] if_P [OF True]])
    moreover have "unat (memory_usage ?w) \<le> unat (memory_usage (node_value n))"
      using le by (simp add: mu w(2) word_le_nat_alt)
    ultimately show ?thesis
      unfolding hdel_store_def if_P [OF True] using db_shrink [OF inv kv lk w(1) _ bal] by auto
  next
    case False
    with le have eq: "?n = ?o" by simp
    have upd: "upd_node a (\<lambda>n. n\<lparr>node_value := (node_value n)\<lparr>data := DHash h'\<rparr>\<rparr>) s = Inr (set_value a ?w s)"
      using hash_value_eq [OF old(2) h] eq by (intro upd_node_value [OF n]) (cases "node_value n", simp add: new_hash_def)
    obtain as where m: "lru_repr (set_value a ?w s) as (cache_upd k ?w c)"
      "current_memory_usage (set_value a ?w s) = of_nat (cache_bytes c)"
      "cache_bytes c + unat ?n = cache_bytes (cache_upd k ?w c) + unat ?o"
      by (rule db_mutate_repr [OF inv kv lk bal])
    have "\<forall>e\<in>set (cache_upd k ?w c). value_ok (snd e)"
      using inv w(1) cache_op_sets(4) [of k ?w c] by (fastforce simp: db_inv_def)
    then have "db_inv (set_value a ?w s) (cache_upd k ?w c)"
      using m eq inv by (auto simp: db_inv_def lru_inv_def)
    then show ?thesis unfolding hdel_store_def if_not_P [OF False] using upd kv by simp
  qed
qed

lemma command_hdel_unfold:
  assumes "3 \<le> length args"
  shows "command_hdel fd args s =
    with_type HASH (args ! 1) fd s (Inr (send fd (integer_reply 0) s, False)) (\<lambda>a node.
      rbind (get_dhash (node_value node)) (\<lambda>h. rbind (del_loop del_hash (drop 2 args) h) (\<lambda>(h', m).
      rbind (hdel_store a h h' s) (\<lambda>s1. rbind (touch_lru a s1) (\<lambda>s2.
      Inr (send fd (integer_reply (int m)) s2, m > 0))))))"
proof -
  have "arg args 1 = Inr (args ! 1)" "\<not> length args < 3" using assms by simp_all
  then show ?thesis
    by (simp only: command_hdel_def hdel_store_def Let_def rbind_simps if_False send_integer_eq)
qed

lemma command_hdel_ok:
  assumes inv: "db_inv s c" and ex: "hdel_exact args c"
  shows "meets db_inv s (command_hdel fd args s) fd (hdel_spec args c)"
proof (cases "length args < 3")
  case True
  then show ?thesis using exact.meets_send [OF refl inv] by (simp add: command_hdel_def hdel_spec_def)
next
  case False
  then have len: "3 \<le> length args" by simp
  show ?thesis
    unfolding command_hdel_unfold [OF len] hdel_spec_def if_not_P [OF False]
  proof (rule exact.meets_type [OF inv tagged(3)], goal_cases)
    case 1
    show ?case by (rule exact.meets_send [OF refl inv])
  next
    case (2 b n h)
    then have h: "data (node_value n) = DHash h" "hash_wf h" by (auto simp: value_wf_data)
    obtain h' m where del: "del_loop del_hash (drop 2 args) h = Inr (h', m)" "hash_wf h'"
      using druta_hash.del_loop_ok [OF h(2)] by blast
    have "hmemory_usage h' \<le> hmemory_usage h" using ex 2(3) h del(1) by (simp add: hdel_exact_def)
    from hdel_store_ok [OF inv 2(1-3) h(1) del(2) this] obtain s1 where s1: "hdel_store b h h' s = Inr s1"
      "db_inv s1 (cache_upd (args ! 1) (new_hash h' (expiry_time (node_value n))) c)"
      "lru_state.more s1 = lru_state.more s" "kv_store s1 (args ! 1) = Some b" by blast
    obtain n1 where n1: "heap s1 b = Some n1" using db_find [OF s1(2,4)] by metis
    have "meets db_inv s1 (rbind (touch_lru b s1) (\<lambda>s2. Inr (send fd (integer_reply (int m)) s2, m > 0))) fd
        (Inr (cache_touch (args ! 1) (cache_upd (args ! 1) (new_hash h' (expiry_time (node_value n))) c),
          integer_reply (int m), m > 0))"
      by (rule exact.meets_touch [OF s1(2,4) n1]) simp
    then show ?case
      using io_frame [OF s1(3)] by (simp add: yields_def getters(3) [OF h(1)] del(1) s1(1))
  qed
qed

text \<open>For a hash of strings within the local buffer, deletions never make the counter wrap.\<close>

lemma del_loop_sso:
  assumes "hash_wf h" "sso_hash h" "hash_exact h" "length (entries h) < 2 ^ 32"
    "del_loop del_hash xs h = Inr (h', n)"
  shows "hash_wf h' \<and> sso_hash h' \<and> hash_exact h' \<and> htype h' = htype h \<and> length (entries h') \<le> length (entries h)"
  using assms
proof (induction xs arbitrary: h n)
  case Nil
  then show ?case by simp
next
  case (Cons f xs)
  obtain h1 b m where h1: "del_hash f h = Inr (h1, b)" "del_loop del_hash xs h1 = Inr (h', m)"
    using Cons.prems(5) by auto
  have wf1: "hash_wf h1" using del_hash_ok [OF Cons.prems(1), of f] h1(1) by auto
  have s1: "sso_hash h1" "hash_exact h1" using del_hash_sso_exact [OF Cons.prems(1-3) h1(1)] by simp_all
  have t1: "htype h1 = htype h" using h1(1) by (auto simp: del_hash_def split: if_splits option.splits)
  have "hash_size h1 = Inr (length (entries h1))" "hash_size h = Inr (length (entries h))"
    using hash_entries [OF wf1] hash_entries [OF Cons.prems(1)] by (auto simp: hash_size_def split: if_splits)
  moreover have "card (dom (hash_map h1)) \<le> card (dom (hash_map h))"
  proof (rule card_mono)
    show "finite (dom (hash_map h))" by (simp add: hash_map_def finite_dom_map_of)
    show "dom (hash_map h1) \<subseteq> dom (hash_map h)" using del_hash_ok [OF Cons.prems(1), of f] h1(1) by auto
  qed
  ultimately have le: "length (entries h1) \<le> length (entries h)"
    using hash_size_ok [OF wf1] hash_size_ok [OF Cons.prems(1)] by simp
  then have "length (entries h1) < 2 ^ 32" using Cons.prems(4) by simp
  from Cons.IH [OF wf1 s1 this h1(2)] t1 le show ?case by simp
qed

lemma hdel_exact_sso:
  assumes "hash_wf h" "sso_hash h" "hash_exact h" "length (entries h) < 2 ^ 32"
    "del_loop del_hash xs h = Inr (h', n)"
  shows "hmemory_usage h' \<le> hmemory_usage h"
proof -
  have r: "sso_hash h'" "hash_exact h'" "htype h' = htype h" "length (entries h') \<le> length (entries h)"
    using del_loop_sso [OF assms] by simp_all
  let ?b = "30 + hash_overhead h"
  have "?b \<le> 158" by (simp add: hash_overhead_def overhead_defs)
  then have ub: "length (entries h) * ?b \<le> 2 ^ 32 * 158"
    using assms(4) by (intro mult_le_mono) simp_all
  have le: "length (entries h') * ?b \<le> length (entries h) * ?b" using r(4) by (rule mult_le_mono1)
  have b: "(2::nat) ^ 32 * 158 < 2 ^ 64" by simp
  then have "length (entries h) * ?b < 2 ^ 64" "length (entries h') * ?b < 2 ^ 64" using ub le by linarith+
  then have "(of_nat (length (entries h') * ?b) :: size_t) \<le> of_nat (length (entries h) * ?b)"
    using le of_nat_size_le_iff by blast
  moreover have "hash_overhead h' = hash_overhead h" using r(3) by (simp add: hash_overhead_def)
  ultimately show ?thesis
    using sso_exact_iff [OF assms(2)] sso_exact_iff [OF r(1)] assms(3) r(2) by simp
qed

section \<open>Structural safety\<close>

lemma hset_fields_sound:
  assumes inv: "db_safe s c" and kv: "kv_store s k = Some a" and n: "heap s a = Some n"
    and v: "value_wf (node_value n)" "vtype (node_value n) = HASH"
  shows "sound s (hset_fields fd args a s)"
proof -
  obtain h where h: "data (node_value n) = DHash h" "hash_wf h" using value_wf_getters(3) [OF v] by blast
  obtain h' m where put: "put_loop set_hash (pairs_of (drop 2 args)) h = Inr (h', m)" "hash_wf h'"
    by (rule put_loop_total [OF h(2)])
  let ?o = "hmemory_usage h" and ?n = "hmemory_usage h'"
  let ?w = "(node_value n)\<lparr>data := DHash h', memory_usage :=
      (if ?o < ?n then memory_usage (node_value n) + (?n - ?o)
       else if ?n < ?o then memory_usage (node_value n) - (?o - ?n) else memory_usage (node_value n))\<rparr>"
  have wf: "value_wf ?w" using v(2) put(2) by (simp add: value_wf_def)
  have upd: "upd_node a (\<lambda>n. n\<lparr>node_value := (node_value n)\<lparr>data := DHash h', memory_usage :=
       (if ?o < ?n then memory_usage (node_value n) + (?n - ?o)
        else if ?n < ?o then memory_usage (node_value n) - (?o - ?n) else memory_usage (node_value n))\<rparr>\<rparr>) s =
      Inr (set_value a ?w s)" by (rule upd_node_value [OF n]) simp
  have "sound s (rbind (rbind (notify_memory_change ?o ?n (set_value a ?w s)) (touch_lru a))
      (\<lambda>s2. Inr (send fd (integer_reply (int m)) s2, m > 0)))"
    by (rule sound_mutate [OF inv kv wf]) simp
  then show ?thesis
    by (simp only: hset_fields_def deref_Some [OF n] getters(3) [OF h(1)] put(1) Let_def rbind_simps prod.case
        send_integer_eq upd)
qed

lemma command_hset_sound:
  assumes inv: "db_safe s c"
  shows "sound s (command_hset fd args s)"
proof (cases "length args < 4 \<or> odd (length args)")
  case True
  then show ?thesis using sound_send [OF refl inv] by (simp add: command_hset_def del: sound_simps)
next
  case False
  then have a: "arg args 1 = Inr (args ! 1)" by simp
  show ?thesis
    unfolding command_hset_def a rbind_simps if_not_P [OF False]
  proof (rule sound_type [OF inv], goal_cases)
    case 1
    obtain s1 a where ins: "insert_node (args ! 1) (new_empty HASH) s = (s1, a)" by fastforce
    have "value_wf (new_empty HASH)" using new_empty_hash(2) by (simp add: value_ok_def)
    from sound_insert [OF inv 1 ins this] obtain s' c' where s': "add_lru a s1 = Inr s'" "db_safe s' c'"
      "lru_state.more s' = lru_state.more s"
      "\<forall>n. heap s' a = Some n \<longrightarrow> kv_store s' (args ! 1) = Some a \<and> node_value n = new_empty HASH" by blast
    have "sound s' (hset_fields fd args a s')"
    proof (cases "heap s' a")
      case None
      then show ?thesis by (simp add: hset_fields_def)
    next
      case (Some n)
      then have n: "kv_store s' (args ! 1) = Some a" "node_value n = new_empty HASH" using s'(4) by auto
      show ?thesis using \<open>value_wf (new_empty HASH)\<close>
        by (intro hset_fields_sound [OF s'(2) n(1) Some]) (simp_all add: n(2), simp add: new_empty_def)
    qed
    then show ?case using ins s'(1) io_frame [OF s'(3)] by (auto simp: sound_def split: sum.splits)
  next
    case (2 a n)
    then show ?case by (intro hset_fields_sound [OF inv])
  qed
qed

lemma hdel_store_sound:
  assumes inv: "db_safe s c" and kv: "kv_store s k = Some a" and n: "heap s a = Some n"
    and v: "vtype (node_value n) = HASH" and wf: "hash_wf h'"
  shows "sound s (rbind (hdel_store a h h' s) (\<lambda>s1. rbind (touch_lru a s1) (\<lambda>s2. Inr (send fd msg s2, b))))"
proof (cases "hmemory_usage h' < hmemory_usage h")
  case True
  let ?w = "(node_value n)\<lparr>data := DHash h',
    memory_usage := memory_usage (node_value n) - (hmemory_usage h - hmemory_usage h')\<rparr>"
  have w: "value_wf ?w" using v wf by (simp add: value_wf_def)
  have "hdel_store a h h' s = notify_memory_change (hmemory_usage h) (hmemory_usage h') (set_value a ?w s)"
    using True n by (simp add: hdel_store_def upd_node_value [OF n])
  then show ?thesis using sound_mutate [OF inv kv w, of "\<lambda>s2. Inr (send fd msg s2, b)" fd msg b
      "hmemory_usage h" "hmemory_usage h'"]
    by (simp add: rbind_assoc)
next
  case False
  let ?w = "(node_value n)\<lparr>data := DHash h'\<rparr>"
  have w: "value_wf ?w" using v wf by (simp add: value_wf_def)
  have st: "hdel_store a h h' s = Inr (set_value a ?w s)"
    using False n by (simp add: hdel_store_def upd_node_value [OF n])
  obtain as where m: "lru_repr (set_value a ?w s) as (cache_upd k ?w c)"
    "\<forall>e\<in>set (cache_upd k ?w c). value_wf (snd e)" by (rule set_value_repr [OF inv kv w])
  have safe: "db_safe (set_value a ?w s) (cache_upd k ?w c)" using m by (auto simp: db_safe_def)
  have kv': "kv_store (set_value a ?w s) k = Some a" using kv by simp
  obtain n1 :: DrutaNode where n1: "heap (set_value a ?w s) a = Some n1" by (simp add: set_value_def)
  have "sound (set_value a ?w s) (rbind (touch_lru a (set_value a ?w s)) (\<lambda>s2. Inr (send fd msg s2, b)))"
    by (rule meets_sound [OF structural.meets_touch [OF safe kv' n1, of _ fd msg b]]) simp_all
  then show ?thesis using st by (auto simp: sound_def set_value_def split: sum.splits)
qed

lemma command_hdel_sound:
  assumes inv: "db_safe s c"
  shows "sound s (command_hdel fd args s)"
proof (cases "length args < 3")
  case True
  then show ?thesis using sound_send [OF refl inv] by (simp add: command_hdel_def del: sound_simps)
next
  case False
  then have len: "3 \<le> length args" by simp
  show ?thesis
    unfolding command_hdel_unfold [OF len]
  proof (rule sound_type [OF inv], goal_cases)
    case 1
    show ?case by (rule sound_send [OF refl inv])
  next
    case (2 a n)
    obtain h where h: "data (node_value n) = DHash h" "hash_wf h" using value_wf_getters(3) [OF 2(3,4)] by blast
    obtain h' m where "del_loop del_hash (drop 2 args) h = Inr (h', m)" "hash_wf h'"
      using druta_hash.del_loop_ok [OF h(2)] by blast
    then show ?case using hdel_store_sound [OF inv 2(1,2,4)] h by simp
  qed
qed

lemma hash_readers_sound:
  assumes "db_safe s c"
  shows "sound s (command_hget fd args s)" "sound s (command_hgetall fd args s)" "sound s (command_hlen fd args s)"
  by (rule meets_sound [OF structural.hget_ok [OF assms]] meets_sound [OF structural.hgetall_ok [OF assms]]
      meets_sound [OF structural.hlen_ok [OF assms]];
      auto simp: hget_spec_def hgetall_spec_def hlen_spec_def typed_spec_def split: option.splits if_splits)+

section \<open>Properties\<close>

text \<open>The fields stored at a key, none if the key is missing or of another type.\<close>

definition fields_at :: "string \<Rightarrow> cache \<Rightarrow> string \<rightharpoonup> string" where
  "fields_at k c = (case map_of c k of
     Some v \<Rightarrow> (case data v of DHash h \<Rightarrow> hash_map h | _ \<Rightarrow> Map.empty)
   | None \<Rightarrow> Map.empty)"

definition hash_or_missing :: "string \<Rightarrow> cache \<Rightarrow> bool" where
  "hash_or_missing k c = (case map_of c k of
     Some v \<Rightarrow> (case data v of DHash h \<Rightarrow> True | _ \<Rightarrow> False)
   | None \<Rightarrow> True)"

lemma put_loop_bytes:
  assumes "hash_wf h" "put_loop set_hash (pairs_of xs) h = Inr (h', n)"
  shows "hash_wf h'" "unat (hmemory_usage h) + request_bytes xs < 2 ^ 64 \<Longrightarrow>
    unat (hmemory_usage h') \<le> unat (hmemory_usage h) + request_bytes xs"
proof -
  obtain d where d: "hash_wf h'" "d \<le> request_bytes xs" "hmemory_usage h' = hmemory_usage h + of_nat d"
    using put_loop_grows [OF assms] pairs_of_bytes [of xs] by (meson le_trans)
  show "hash_wf h'" by (rule d(1))
  assume small: "unat (hmemory_usage h) + request_bytes xs < 2 ^ 64"
  have "hmemory_usage h' = of_nat (unat (hmemory_usage h) + d)" using d(3) by simp
  then have "unat (hmemory_usage h') = unat (hmemory_usage h) + d"
    using unat_of_nat_size [of "unat (hmemory_usage h) + d"] small d(2) by simp
  then show "unat (hmemory_usage h') \<le> unat (hmemory_usage h) + request_bytes xs" using d(2) by simp
qed

lemma value_ok_hash: "value_ok v \<Longrightarrow> data v = DHash h \<Longrightarrow> hash_wf h"
  by (auto simp: value_ok_def dest: value_wf_data(3))

lemma put_write_fits:
  assumes st: "storable c" and lk: "map_of c k = Some v" and h: "data v = DHash h"
    and put: "put_loop set_hash (pairs_of xs) h = Inr (h', n)"
    and fits: "cache_bytes c + request_bytes xs \<le> LRU_MAX_MEMORY"
  shows "write_spec k (new_hash h' e) c msg b = Inr (set_spec k (new_hash h' e) c, msg, b)"
    "map_of (set_spec k (new_hash h' e) c) = (map_of c)(k \<mapsto> new_hash h' e)"
proof -
  note v = storable_at [OF st lk]
  have wf: "hash_wf h" using v(1) h by (rule value_ok_hash)
  have mem: "memory_usage v = hmemory_usage h" using v(1) h by (rule hash_value_mem)
  have "unat (hmemory_usage h) + request_bytes xs < 2 ^ 64" using v(2) fits mem by (simp add: LRU_MAX_MEMORY_def)
  then have "unat (hmemory_usage h') \<le> unat (hmemory_usage h) + request_bytes xs" by (rule put_loop_bytes(2) [OF wf put])
  moreover have "cache_bytes (cache_upd k (new_hash h' e) c) + unat (memory_usage v) = cache_bytes c + unat (hmemory_usage h')"
    using cache_bytes_upd [OF v(3) lk, of "new_hash h' e"] by (simp add: new_hash_def)
  ultimately have "cache_bytes (cache_upd k (new_hash h' e) c) \<le> LRU_MAX_MEMORY" using fits mem by simp
  from set_spec_upd [OF v(3) lk this]
  show "write_spec k (new_hash h' e) c msg b = Inr (set_spec k (new_hash h' e) c, msg, b)"
    "map_of (set_spec k (new_hash h' e) c) = (map_of c)(k \<mapsto> new_hash h' e)" by (simp_all add: write_spec_def)
qed

lemma hset_put_fits:
  assumes st: "storable c" and lk: "map_of c k = Some v" and h: "data v = DHash h"
    and fits: "cache_bytes c + request_bytes xs \<le> LRU_MAX_MEMORY"
  defines "n \<equiv> card (fst ` set (pairs_of xs) - dom (hash_map h))"
  shows "\<exists>c1 h'. rbind (put_loop set_hash (pairs_of xs) h) (\<lambda>(h', n). write_spec k (new_hash h' e) c (integer_reply (int n)) (n > 0)) =
      Inr (c1, integer_reply (int n), n > 0) \<and> map_of c1 = (map_of c)(k \<mapsto> new_hash h' e) \<and>
    hash_map h' = hash_map h ++ map_of (rev (pairs_of xs))"
proof -
  have "hash_wf h" using storable_at(1) [OF st lk] h by (rule value_ok_hash)
  then obtain h' where put: "put_loop set_hash (pairs_of xs) h = Inr (h', n)"
    "hash_map h' = hash_map h ++ map_of (rev (pairs_of xs))" unfolding n_def by (metis put_loop_total)
  from put_write_fits [OF st lk h put(1) fits, of e]
  have "write_spec k (new_hash h' e) c msg b = Inr (set_spec k (new_hash h' e) c, msg, b)"
    "map_of (set_spec k (new_hash h' e) c) = (map_of c)(k \<mapsto> new_hash h' e)" for msg b by blast+
  then show ?thesis using put by auto
qed

lemma hset_spec_fits:
  assumes st: "storable c" and len: "2 \<le> length xs" "even (length xs)"
    and key: "hash_or_missing k c" and fits: "cache_bytes c + request_bytes (k # xs) \<le> LRU_MAX_MEMORY"
  defines "n \<equiv> card (fst ` set (pairs_of xs) - dom (fields_at k c))"
  shows "\<exists>c1 h' e. hset_spec (cmd # k # xs) c = Inr (c1, integer_reply (int n), n > 0) \<and> map_of c1 = (map_of c)(k \<mapsto> new_hash h' e) \<and>
    hash_map h' = fields_at k c ++ map_of (rev (pairs_of xs))"
proof (cases "map_of c k")
  case None
  let ?c1 = "c @ [(k, new_empty HASH)]"
  have e0: "entry_size (k, new_empty HASH) \<le> 175 + length k"
    using copy_capacity_bound [of k] by (simp add: entry_size_def sizeof_DrutaNode_def)
  then have b1: "cache_bytes ?c1 + request_bytes xs \<le> LRU_MAX_MEMORY" using fits by simp
  have st1: "storable ?c1" using st None b1 by (auto simp: storable_def map_of_eq_None_iff)
  have lk1: "map_of ?c1 k = Some (new_empty HASH)" using None by (simp add: map_add_def)
  have nil: "hash_map (new_hash_vec [] 0) = fields_at k c"
    using None by (simp add: fields_at_def hash_map_def new_hash_vec_def entries_def)
  have "hset_spec (cmd # k # xs) c = rbind (put_loop set_hash (pairs_of xs) (new_hash_vec [] 0))
      (\<lambda>(h', n). write_spec k (new_hash h' 0) ?c1 (integer_reply (int n)) (n > 0))"
    using len None evict_spec_id [of ?c1] b1 by (auto simp: hset_spec_def typed_spec_def Let_def)
  moreover have "(map_of ?c1)(k \<mapsto> w) = (map_of c)(k \<mapsto> w)" for w by (auto simp: map_add_def fun_eq_iff split: option.split)
  ultimately show ?thesis using hset_put_fits [OF st1 lk1 new_empty_hash(1) b1, of 0, unfolded nil] unfolding n_def
    by (simp only:) blast
next
  case (Some v)
  then obtain h where h: "data v = DHash h" using key by (auto simp: hash_or_missing_def split: value_data.splits)
  have "hash_map h = fields_at k c" using Some h by (simp add: fields_at_def)
  moreover have "hset_spec (cmd # k # xs) c = rbind (put_loop set_hash (pairs_of xs) h)
      (\<lambda>(h', n). write_spec k (new_hash h' (expiry_time v)) c (integer_reply (int n)) (n > 0))"
    using len Some h by (simp add: hset_spec_def typed_spec_def)
  ultimately show ?thesis using hset_put_fits [OF st Some h, of xs "expiry_time v"] fits unfolding n_def by fastforce
qed

text \<open>
  \<^bold>\<open>C25\<close>. HSET on a missing key or a hash with room for the request stores every pair, the
  last one of a repeated field, keeps all other fields and keys, and answers how many distinct fields are
  new; HGET afterwards answers the stored value of any field, nil for one that is not there. The switch
  from the vector to the map in between is not visible.
\<close>

theorem hset_then_hget:
  assumes "db_inv s c" "args_ok (cmd # k # xs)" "2 \<le> length xs" "even (length xs)" "hash_or_missing k c"
    "cache_bytes c + request_bytes (k # xs) \<le> LRU_MAX_MEMORY"
  defines "n \<equiv> card (fst ` set (pairs_of xs) - dom (fields_at k c))"
  shows "\<exists>s1. command_hset fd (cmd # k # xs) s = Inr (s1, n > 0) \<and> out s1 = out s @ reply fd (integer_reply (int n)) \<and>
    (\<forall>j. j \<noteq> k \<longrightarrow> kv_view s1 j = kv_view s j) \<and>
    (\<forall>f fd'. \<exists>s2. command_hget fd' [''HGET'', k, f] s1 = Inr (s2, False) \<and>
       out s2 = out s1 @ reply fd' (case (fields_at k c ++ map_of (rev (pairs_of xs))) f of
         None \<Rightarrow> nil_reply | Some v \<Rightarrow> bulk v))"
proof -
  obtain c1 h e where c1: "hset_spec (cmd # k # xs) c = Inr (c1, integer_reply (int n), n > 0)"
    "map_of c1 = (map_of c)(k \<mapsto> new_hash h e)" "hash_map h = fields_at k c ++ map_of (rev (pairs_of xs))"
    using hset_spec_fits [OF db_inv_storable [OF assms(1)] assms(3-6)] unfolding n_def by blast
  with command_hset_ok [OF assms(1,2), of fd] obtain s1 where s1: "command_hset fd (cmd # k # xs) s = Inr (s1, n > 0)"
    "db_inv s1 c1" "out s1 = out s @ reply fd (integer_reply (int n))" by (auto elim!: yieldsE)
  have "\<exists>s2. command_hget fd' [''HGET'', k, f] s1 = Inr (s2, False) \<and>
      out s2 = out s1 @ reply fd' (case hash_map h f of None \<Rightarrow> nil_reply | Some v \<Rightarrow> bulk v)" for f fd'
  proof -
    have "\<exists>c2. hget_spec [''HGET'', k, f] c1 = Inr (c2, case hash_map h f of None \<Rightarrow> nil_reply | Some v \<Rightarrow> bulk v, False)"
      using c1(2) by (auto simp: hget_spec_def typed_spec_def new_hash_def split: option.split)
    with exact.hget_ok [OF s1(2), of fd' "[''HGET'', k, f]"] show ?thesis by (auto elim!: yieldsE)
  qed
  moreover have "\<forall>j. j \<noteq> k \<longrightarrow> kv_view s1 j = kv_view s j"
    using c1(2) db_inv_view [OF s1(2)] db_inv_view [OF assms(1)] by simp
  ultimately show ?thesis using s1 c1(3) by auto
qed

theorem hset_then_hget_witness:
  "\<exists>s1 s2. command_hset 5 [''HSET'', ''h'', ''f'', ''v''] (empty_db (\<lambda>_. 0)) = Inr (s1, True) \<and>
     command_hget 5 [''HGET'', ''h'', ''f''] s1 = Inr (s2, False) \<and> out s2 = out s1 @ reply 5 (bulk ''v'')"
proof -
  have n: "card (fst ` set (pairs_of [''f'', ''v'']) - dom (fields_at ''h'' [])) = 1" "(fields_at ''h'' [] ++ map_of (rev (pairs_of [''f'', ''v'']))) ''f'' = Some ''v''"
    by (simp_all add: fields_at_def)
  have "args_ok [''HSET'', ''h'', ''f'', ''v'']" "hash_or_missing ''h'' []"
    "cache_bytes [] + request_bytes [''h'', ''f'', ''v''] \<le> LRU_MAX_MEMORY"
    by (simp_all add: args_ok_def hash_or_missing_def LRU_MAX_MEMORY_def)
  moreover have "2 \<le> length [''f'', ''v'']" "even (length [''f'', ''v''])" by simp_all
  ultimately obtain s1 where "command_hset 5 [''HSET'', ''h'', ''f'', ''v''] (empty_db (\<lambda>_. 0)) = Inr (s1, True)"
    "\<exists>s2. command_hget 5 [''HGET'', ''h'', ''f''] s1 = Inr (s2, False) \<and>
       out s2 = out s1 @ reply 5 (case (fields_at ''h'' [] ++ map_of (rev (pairs_of [''f'', ''v'']))) ''f'' of
         None \<Rightarrow> nil_reply | Some v \<Rightarrow> bulk v)"
    using hset_then_hget [OF db_inv_empty [of "\<lambda>_. 0"], of "''HSET''" "''h''" "[''f'', ''v'']" 5, unfolded n(1)]
    by (metis zero_less_one)
  then show ?thesis unfolding n(2) by auto
qed

end
