(* ===== verification/Cmd_Set.thy ===== *)
theory Cmd_Set
  imports Cmd_Hash
begin

text \<open>
  The set commands of commands.cpp: SADD, SISMEMBER, SMISMEMBER, SCARD, SMEMBERS, SDIFF, SINTER,
  SUNION, SDEL. \<open>std::set<std::string>\<close> is a sorted list without repetition. The byte difference that
  SADD and SDEL accumulate is an \<open>int\<close>: a \<open>32 word\<close>, sign-extended where it is passed as \<open>size_t\<close>.
\<close>

section \<open>Handlers\<close>

text \<open>The insertion loop: the set, the number of new elements, the bytes they add.\<close>

fun sadd_loop :: "string list \<Rightarrow> string list \<Rightarrow> nat \<Rightarrow> ('w::len) word \<Rightarrow> string list \<times> nat \<times> 'w word" where
  "sadd_loop [] t created delta = (t, created, delta)"
| "sadd_loop (x # xs) t created delta =
     (if set_contains x t then sadd_loop xs t created delta
      else sadd_loop xs (set_insert x t) (Suc created) (delta + of_nat (set_elem_bytes x)))"

definition command_sadd :: "int \<Rightarrow> string list \<Rightarrow> ('z) io_state_scheme \<Rightarrow> (('z) io_state_scheme \<times> bool) res" where
  "command_sadd fd args s =
     rbind (arg args 1) (\<lambda>key.
     with_type SET key fd s
       (rbind (get_set (new_empty SET)) (\<lambda>t0.
        let (t, created, mem) = sadd_loop (drop 2 args) t0 0 (memory_usage (new_empty SET));
            v = (new_empty SET)\<lparr>data := DSet t, memory_usage := mem\<rparr>;
            (s1, a) = insert_node key v s
        in rbind (add_lru a s1) (\<lambda>s2. Inr (send_integer fd (int created) s2, created > 0))))
       (\<lambda>a node.
        rbind (get_set (node_value node)) (\<lambda>t0.
        let (t, created, delta) = sadd_loop (drop 2 args) t0 0 (0 :: 32 word) in
        rbind (upd_node a (\<lambda>n. n\<lparr>node_value := (node_value n)\<lparr>data := DSet t,
            memory_usage := memory_usage (node_value n) + scast delta\<rparr>\<rparr>) s) (\<lambda>s1.
        rbind (rbind (notify_memory_change 0 (scast delta) s1) (touch_lru a)) (\<lambda>s2.
        Inr (send_integer fd (int created) s2, created > 0))))))"

definition command_sismember :: "int \<Rightarrow> string list \<Rightarrow> ('z) io_state_scheme \<Rightarrow> (('z) io_state_scheme \<times> bool) res" where
  "command_sismember fd args s =
     (if length args \<noteq> 3 then Inr (send fd (wrong_args ''sismember'') s, False)
      else
        rbind (arg args 1) (\<lambda>key. rbind (arg args 2) (\<lambda>x.
        with_type SET key fd s (Inr (send_integer fd 0 s, False)) (\<lambda>a node.
          rbind (get_set (node_value node)) (\<lambda>t.
          Inr (send_integer fd (if set_contains x t then 1 else 0) s, False))))))"

definition command_smismember :: "int \<Rightarrow> string list \<Rightarrow> ('z) io_state_scheme \<Rightarrow> (('z) io_state_scheme \<times> bool) res" where
  "command_smismember fd args s =
     (if length args < 3 then Inr (send fd (wrong_args ''sismember'') s, False)
      else
        rbind (arg args 1) (\<lambda>key.
        with_type SET key fd s (Inr (send_integer fd 0 s, False)) (\<lambda>a node.
          rbind (get_set (node_value node)) (\<lambda>t.
          Inr (send fd
            (fold (\<lambda>x res. if set_contains x t then res @ '':1'' @ crlf else res @ '':0'' @ crlf) (drop 2 args)
              (''*'' @ to_string (length args - 2) @ crlf)) s, False)))))"

definition command_scard :: "int \<Rightarrow> string list \<Rightarrow> ('z) io_state_scheme \<Rightarrow> (('z) io_state_scheme \<times> bool) res" where
  "command_scard fd args s =
     (if length args \<noteq> 2 then Inr (send fd (wrong_args ''scard'') s, False)
      else
        rbind (arg args 1) (\<lambda>key.
        with_type SET key fd s (Inr (send_integer fd 0 s, False)) (\<lambda>a node.
          rbind (get_set (node_value node)) (\<lambda>t.
          Inr (send_integer fd (to_int32 (length t)) s, False)))))"

definition set_reply :: "string list \<Rightarrow> string" where
  "set_reply t = fold (\<lambda>x res. resp_bulk_string res x) t (''*'' @ to_string (length t) @ crlf)"

definition command_smembers :: "int \<Rightarrow> string list \<Rightarrow> ('z) io_state_scheme \<Rightarrow> (('z) io_state_scheme \<times> bool) res" where
  "command_smembers fd args s =
     (if length args \<noteq> 2 then Inr (send fd (wrong_args ''smembers'') s, False)
      else
        rbind (arg args 1) (\<lambda>key.
        with_type SET key fd s (Inr (send fd empty_array s, False)) (\<lambda>a node.
          rbind (get_set (node_value node)) (\<lambda>t.
          rbind (reserve (1024 + memory_usage (node_value node))) (\<lambda>_.
          Inr (send fd (set_reply t) s, False))))))"

text \<open>The lookup inside the loops of SDIFF, SINTER and SUNION: no key, a key of another type
  (\<open>Some None\<close>), or a set.\<close>

definition lookup_set :: "string \<Rightarrow> ('z) lru_state_scheme \<Rightarrow> string list option option res" where
  "lookup_set key s = (case kv_store s key of
     None \<Rightarrow> Inr None
   | Some a \<Rightarrow> rbind (deref a s) (\<lambda>node.
       if vtype (node_value node) \<noteq> SET then Inr (Some None)
       else rbind (get_set (node_value node)) (\<lambda>t. Inr (Some (Some t)))))"

fun sdiff_loop :: "string list \<Rightarrow> string list \<Rightarrow> ('z) lru_state_scheme \<Rightarrow> string list res" where
  "sdiff_loop [] d s = Inr d"
| "sdiff_loop (k # ks) d s = rbind (lookup_set k s) (\<lambda>r. case r of
     Some (Some t) \<Rightarrow> sdiff_loop ks (fold (\<lambda>x d. if set_contains x d then set_erase x d else d) t d) s
   | _ \<Rightarrow> sdiff_loop ks d s)"

definition command_sdiff :: "int \<Rightarrow> string list \<Rightarrow> ('z) io_state_scheme \<Rightarrow> (('z) io_state_scheme \<times> bool) res" where
  "command_sdiff fd args s =
     (if length args < 2 then Inr (send fd (wrong_args ''sismember'') s, False)
      else
        rbind (arg args 1) (\<lambda>key.
        rbind (lookup_set key s) (\<lambda>r. case r of
          Some None \<Rightarrow> Inr (send fd WRONGTYPE s, False)
        | _ \<Rightarrow>
          let d0 = (case r of Some (Some t) \<Rightarrow> t | _ \<Rightarrow> []) in
          rbind (sdiff_loop (drop 2 args) d0 s) (\<lambda>d. Inr (send fd (set_reply d) s, False)))))"

text \<open>\<open>None\<close> is the WRONGTYPE reply out of the loop.\<close>

fun sinter_loop :: "string list \<Rightarrow> string list \<Rightarrow> ('z) lru_state_scheme \<Rightarrow> string list option res" where
  "sinter_loop [] d s = Inr (Some d)"
| "sinter_loop (k # ks) d s = rbind (lookup_set k s) (\<lambda>r. case r of
     None \<Rightarrow> Inr (Some [])
   | Some None \<Rightarrow> Inr None
   | Some (Some t) \<Rightarrow>
       let next_inter = fold (\<lambda>x acc. if set_contains x t then set_insert x acc else acc) d []
       in if next_inter = [] then Inr (Some []) else sinter_loop ks next_inter s)"

definition command_sinter :: "int \<Rightarrow> string list \<Rightarrow> ('z) io_state_scheme \<Rightarrow> (('z) io_state_scheme \<times> bool) res" where
  "command_sinter fd args s =
     (if length args < 2 then Inr (send fd (wrong_args ''sismember'') s, False)
      else
        rbind (arg args 1) (\<lambda>key.
        rbind (lookup_set key s) (\<lambda>r. case r of
          Some None \<Rightarrow> Inr (send fd WRONGTYPE s, False)
        | _ \<Rightarrow>
          let d0 = (case r of Some (Some t) \<Rightarrow> t | _ \<Rightarrow> []) in
          rbind (sinter_loop (drop 2 args) d0 s) (\<lambda>r'. case r' of
            None \<Rightarrow> Inr (send fd WRONGTYPE s, False)
          | Some d \<Rightarrow> Inr (send fd (set_reply d) s, False)))))"

fun sunion_loop :: "string list \<Rightarrow> string list \<Rightarrow> ('z) lru_state_scheme \<Rightarrow> string list res" where
  "sunion_loop [] d s = Inr d"
| "sunion_loop (k # ks) d s = rbind (lookup_set k s) (\<lambda>r. case r of
     Some (Some t) \<Rightarrow> sunion_loop ks (fold set_insert t d) s
   | _ \<Rightarrow> sunion_loop ks d s)"

definition command_sunion :: "int \<Rightarrow> string list \<Rightarrow> ('z) io_state_scheme \<Rightarrow> (('z) io_state_scheme \<times> bool) res" where
  "command_sunion fd args s =
     (if length args < 2 then Inr (send fd (wrong_args ''sismember'') s, False)
      else rbind (sunion_loop (drop 1 args) [] s) (\<lambda>d. Inr (send fd (set_reply d) s, False)))"

fun sdel_loop :: "string list \<Rightarrow> string list \<Rightarrow> nat \<Rightarrow> 32 word \<Rightarrow> string list \<times> nat \<times> 32 word" where
  "sdel_loop [] t deleted delta = (t, deleted, delta)"
| "sdel_loop (x # xs) t deleted delta =
     (if set_contains x t
      then sdel_loop xs (set_erase x t) (Suc deleted) (delta + of_nat (set_elem_bytes x))
      else sdel_loop xs t deleted delta)"

definition command_sdel :: "int \<Rightarrow> string list \<Rightarrow> ('z) io_state_scheme \<Rightarrow> (('z) io_state_scheme \<times> bool) res" where
  "command_sdel fd args s =
     rbind (arg args 1) (\<lambda>key.
     with_type SET key fd s (Inr (send fd ''-ERR no such key'' s, False)) (\<lambda>a node.
       rbind (get_set (node_value node)) (\<lambda>t0.
       let (t, deleted, delta) = sdel_loop (drop 2 args) t0 0 0 in
       rbind (upd_node a (\<lambda>n. n\<lparr>node_value := (node_value n)\<lparr>data := DSet t,
           memory_usage := memory_usage (node_value n) - scast delta\<rparr>\<rparr>) s) (\<lambda>s1.
       rbind (rbind (notify_memory_change (scast delta) 0 s1) (touch_lru a)) (\<lambda>s2.
       Inr (send_integer fd (int deleted) s2, deleted > 0))))))"

section \<open>Specifications\<close>

definition set_at :: "string \<Rightarrow> cache \<Rightarrow> string list option option" where
  "set_at k c = map_option (\<lambda>v. as_set (data v)) (map_of c k)"

definition members :: "string \<Rightarrow> cache \<Rightarrow> string set" where
  "members k c = (case set_at k c of Some (Some t) \<Rightarrow> set t | _ \<Rightarrow> {})"

definition sadd_spec :: "string \<Rightarrow> string list \<Rightarrow> cache \<Rightarrow> command_spec" where
  "sadd_spec k xs c =
     (let add = (\<lambda>t e. let t' = sorted_list_of_set (set t \<union> set xs); n = length t' - length t in
            write_spec k (new_set t' e) c (integer_reply (int n)) (n > 0))
      in typed_spec as_set k c (add [] 0) (\<lambda>v t. add t (expiry_time v)))"

definition sismember_spec :: "string list \<Rightarrow> cache \<Rightarrow> command_spec" where
  "sismember_spec args c =
     (if length args \<noteq> 3 then Inr (c, wrong_args ''sismember'', False)
      else typed_spec as_set (args ! 1) c (Inr (c, integer_reply 0, False)) (\<lambda>v t.
        Inr (c, integer_reply (if args ! 2 \<in> set t then 1 else 0), False)))"

definition smismember_spec :: "string list \<Rightarrow> cache \<Rightarrow> command_spec" where
  "smismember_spec args c =
     (if length args < 3 then Inr (c, wrong_args ''sismember'', False)
      else typed_spec as_set (args ! 1) c (Inr (c, integer_reply 0, False)) (\<lambda>v t.
        Inr (c, ''*'' @ to_string (length args - 2) @ crlf
          @ concat (map (\<lambda>x. integer_reply (if x \<in> set t then 1 else 0)) (drop 2 args)), False)))"

definition scard_spec :: "string list \<Rightarrow> cache \<Rightarrow> command_spec" where
  "scard_spec args c =
     (if length args \<noteq> 2 then Inr (c, wrong_args ''scard'', False)
      else typed_spec as_set (args ! 1) c (Inr (c, integer_reply 0, False)) (\<lambda>v t.
        Inr (c, integer_reply (to_int32 (card (set t))), False)))"

definition smembers_spec :: "string list \<Rightarrow> cache \<Rightarrow> command_spec" where
  "smembers_spec args c =
     (if length args \<noteq> 2 then Inr (c, wrong_args ''smembers'', False)
      else typed_spec as_set (args ! 1) c (Inr (c, empty_array, False)) (\<lambda>v t.
        if unat (1024 + memory_usage v) < 2 ^ 62
        then Inr (c, array_reply (sorted_list_of_set (set t)), False)
        else Inl Uncaught_exception))"

definition sdiff_spec :: "string list \<Rightarrow> cache \<Rightarrow> command_spec" where
  "sdiff_spec args c =
     (if length args < 2 then Inr (c, wrong_args ''sismember'', False)
      else if set_at (args ! 1) c = Some None then Inr (c, WRONGTYPE, False)
      else Inr (c, array_reply (sorted_list_of_set
        (members (args ! 1) c - (\<Union>k\<in>set (drop 2 args). members k c))), False))"

fun inter_all :: "string list \<Rightarrow> string set \<Rightarrow> cache \<Rightarrow> string set option" where
  "inter_all [] A c = Some A"
| "inter_all (k # ks) A c = (case set_at k c of
     None \<Rightarrow> Some {}
   | Some None \<Rightarrow> None
   | Some (Some t) \<Rightarrow> if A \<inter> set t = {} then Some {} else inter_all ks (A \<inter> set t) c)"

definition sinter_spec :: "string list \<Rightarrow> cache \<Rightarrow> command_spec" where
  "sinter_spec args c =
     (if length args < 2 then Inr (c, wrong_args ''sismember'', False)
      else if set_at (args ! 1) c = Some None then Inr (c, WRONGTYPE, False)
      else case inter_all (drop 2 args) (members (args ! 1) c) c of
        None \<Rightarrow> Inr (c, WRONGTYPE, False)
      | Some A \<Rightarrow> Inr (c, array_reply (sorted_list_of_set A), False))"

definition sunion_spec :: "string list \<Rightarrow> cache \<Rightarrow> command_spec" where
  "sunion_spec args c =
     (if length args < 2 then Inr (c, wrong_args ''sismember'', False)
      else Inr (c, array_reply (sorted_list_of_set (\<Union>k\<in>set (drop 1 args). members k c)), False))"

definition sdel_spec :: "string \<Rightarrow> string list \<Rightarrow> cache \<Rightarrow> command_spec" where
  "sdel_spec k xs c = typed_spec as_set k c (Inr (c, ''-ERR no such key'', False)) (\<lambda>v t.
     let t' = sorted_list_of_set (set t - set xs); n = length t - length t' in
     Inr (cache_touch k (cache_upd k (new_set t' (expiry_time v)) c), integer_reply (int n), n > 0))"

section \<open>Sorted sets\<close>

lemma oset_sorted_list: "oset t \<Longrightarrow> sorted_list_of_set (set t) = t"
  by (simp add: oset_def sorted_list_of_set.idem_if_sorted_distinct)

lemma oset_eqI: "oset t \<Longrightarrow> set t = A \<Longrightarrow> t = sorted_list_of_set A"
  by (auto simp: oset_sorted_list)

lemma oset_length: "oset t \<Longrightarrow> length t = card (set t)"
  by (simp add: oset_def distinct_card)

lemma set_reply_eq: "set_reply t = array_reply t"
  by (simp add: set_reply_def array_reply_def fold_bulk)

lemma sadd_loop_ok:
  assumes "oset t"
  shows "\<exists>t' d. sadd_loop xs t n delta = (t', n + (length t' - length t), delta + of_nat d) \<and> oset t' \<and>
    set t' = set t \<union> set xs \<and> length t \<le> length t' \<and> d \<le> sum_list (map set_elem_bytes xs) \<and>
    sum_list (map set_elem_bytes t') = sum_list (map set_elem_bytes t) + d"
  using assms
proof (induction xs arbitrary: t n delta)
  case Nil
  then show ?case by auto
next
  case (Cons x xs)
  show ?case
  proof (cases "x \<in> set t")
    case True
    from Cons.IH [OF Cons.prems, of n delta] obtain t' d where
      "sadd_loop xs t n delta = (t', n + (length t' - length t), delta + of_nat d)" "oset t'"
      "set t' = set t \<union> set xs" "length t \<le> length t'" "d \<le> sum_list (map set_elem_bytes xs)"
      "sum_list (map set_elem_bytes t') = sum_list (map set_elem_bytes t) + d" by blast
    with True show ?thesis by (intro exI [of _ t'] exI [of _ d]) (auto simp: set_contains_def)
  next
    case False
    have o: "oset (set_insert x t)" using Cons.prems by simp
    from Cons.IH [OF o, of "Suc n" "delta + of_nat (set_elem_bytes x)"] obtain t' d where t':
      "sadd_loop xs (set_insert x t) (Suc n) (delta + of_nat (set_elem_bytes x)) =
        (t', Suc n + (length t' - length (set_insert x t)), delta + of_nat (set_elem_bytes x) + of_nat d)" "oset t'"
      "set t' = set (set_insert x t) \<union> set xs" "length (set_insert x t) \<le> length t'"
      "d \<le> sum_list (map set_elem_bytes xs)"
      "sum_list (map set_elem_bytes t') = sum_list (map set_elem_bytes (set_insert x t)) + d" by blast
    from t' False show ?thesis
      by (intro exI [of _ t'] exI [of _ "set_elem_bytes x + d"])
         (auto simp: set_contains_def length_set_insert mset_set_insert ac_simps)
  qed
qed

lemma sdel_loop_ok:
  assumes "oset t"
  shows "\<exists>t' d. sdel_loop xs t n delta = (t', n + (length t - length t'), delta + of_nat d) \<and> oset t' \<and>
    set t' = set t - set xs \<and> length t' \<le> length t \<and>
    sum_list (map set_elem_bytes t) = sum_list (map set_elem_bytes t') + d"
  using assms
proof (induction xs arbitrary: t n delta)
  case Nil
  then show ?case by auto
next
  case (Cons x xs)
  show ?case
  proof (cases "x \<in> set t")
    case False
    from Cons.IH [OF Cons.prems, of n delta] obtain t' d where
      "sdel_loop xs t n delta = (t', n + (length t - length t'), delta + of_nat d)" "oset t'"
      "set t' = set t - set xs" "length t' \<le> length t"
      "sum_list (map set_elem_bytes t) = sum_list (map set_elem_bytes t') + d" by blast
    with False show ?thesis by (intro exI [of _ t'] exI [of _ d]) (auto simp: set_contains_def)
  next
    case True
    have o: "oset (set_erase x t)" using Cons.prems by simp
    have len: "length t = Suc (length (set_erase x t))"
      using True length_pos_if_in_set [OF True] by (simp add: set_erase_def length_remove1)
    from Cons.IH [OF o, of "Suc n" "delta + of_nat (set_elem_bytes x)"] obtain t' d where t':
      "sdel_loop xs (set_erase x t) (Suc n) (delta + of_nat (set_elem_bytes x)) =
        (t', Suc n + (length (set_erase x t) - length t'), delta + of_nat (set_elem_bytes x) + of_nat d)" "oset t'"
      "set t' = set (set_erase x t) - set xs" "length t' \<le> length (set_erase x t)"
      "sum_list (map set_elem_bytes (set_erase x t)) = sum_list (map set_elem_bytes t') + d" by blast
    have "set t' = set t - set (x # xs)" using t'(3) Cons.prems by auto
    moreover have "sum_list (map set_elem_bytes t) = sum_list (map set_elem_bytes t') + (set_elem_bytes x + d)"
      using sum_set_erase [OF True, of set_elem_bytes] t'(5) by simp
    ultimately show ?thesis using t'(1,2,4) True len
      by (intro exI [of _ t'] exI [of _ "set_elem_bytes x + d"]) (simp add: set_contains_def ac_simps)
  qed
qed

section \<open>Reading\<close>

lemma set_value_oset: "value_wf v \<Longrightarrow> data v = DSet t \<Longrightarrow> oset t"
  by (simp add: value_wf_data)

lemma lookup_set_ok:
  assumes "db_safe s c"
  shows "lookup_set k s = Inr (set_at k c)"
proof (rule db_lookup [OF assms, of k], goal_cases)
  case 1
  then show ?case by (simp add: lookup_set_def set_at_def)
next
  case (2 a n)
  have "vtype (node_value n) = SET \<longleftrightarrow> as_set (data (node_value n)) \<noteq> None"
    using tagged(4) 2(5) by (simp add: tagged_def)
  with 2 show ?case by (cases "as_set (data (node_value n))") (auto simp: lookup_set_def set_at_def)
qed

lemma set_at_oset:
  assumes "db_safe s c" "set_at k c = Some (Some t)"
  shows "oset t"
proof -
  obtain v where v: "map_of c k = Some v" "data v = DSet t" using assms(2) by (auto simp: set_at_def)
  have "value_wf v" using assms(1) map_of_SomeD [OF v(1)] by (force simp: db_safe_def)
  then show ?thesis using v(2) by (rule set_value_oset)
qed

lemma erase_all:
  assumes "oset d"
  shows "oset (fold (\<lambda>x d. if set_contains x d then set_erase x d else d) t d) \<and>
    set (fold (\<lambda>x d. if set_contains x d then set_erase x d else d) t d) = set d - set t"
  using assms by (induction t arbitrary: d) (auto simp: set_contains_def)

lemma keep_all:
  "oset acc \<Longrightarrow> oset (fold (\<lambda>x acc. if set_contains x t then set_insert x acc else acc) d acc) \<and>
    set (fold (\<lambda>x acc. if set_contains x t then set_insert x acc else acc) d acc) = set acc \<union> (set d \<inter> set t)"
  by (induction d arbitrary: acc) (auto simp: set_contains_def)

lemma sdiff_loop_ok:
  assumes "db_safe s c" "oset d"
  shows "\<exists>d'. sdiff_loop ks d s = Inr d' \<and> oset d' \<and> set d' = set d - (\<Union>k\<in>set ks. members k c)"
  using assms(2)
proof (induction ks arbitrary: d)
  case (Cons k ks)
  show ?case
  proof (cases "\<exists>t. set_at k c = Some (Some t)")
    case True
    then obtain t where t: "set_at k c = Some (Some t)" by blast
    let ?d = "fold (\<lambda>x d. if set_contains x d then set_erase x d else d) t d"
    have d: "oset ?d" "set ?d = set d - set t" using erase_all [OF Cons.prems] by simp_all
    from Cons.IH [OF d(1)] t show ?thesis
      by (auto simp: lookup_set_ok [OF assms(1)] members_def [of k] d(2) Diff_eq)
  next
    case False
    then have "members k c = {}" by (auto simp: members_def split: option.splits)
    with False Cons.IH [OF Cons.prems] show ?thesis
      by (auto simp: lookup_set_ok [OF assms(1)] split: option.split)
  qed
qed simp

lemma sunion_loop_ok:
  assumes "db_safe s c" "oset d"
  shows "\<exists>d'. sunion_loop ks d s = Inr d' \<and> oset d' \<and> set d' = set d \<union> (\<Union>k\<in>set ks. members k c)"
  using assms(2)
proof (induction ks arbitrary: d)
  case (Cons k ks)
  show ?case
  proof (cases "\<exists>t. set_at k c = Some (Some t)")
    case True
    then obtain t where t: "set_at k c = Some (Some t)" by blast
    let ?d = "fold set_insert t d"
    have d: "oset ?d" "set ?d = set d \<union> set t" using string_set.inv_fold_ins [OF Cons.prems] string_set.set_fold_ins [OF Cons.prems] by simp_all
    from Cons.IH [OF d(1)] t show ?thesis
      by (auto simp: lookup_set_ok [OF assms(1)] members_def [of k] d(2) Diff_eq)
  next
    case False
    then have "members k c = {}" by (auto simp: members_def split: option.splits)
    with False Cons.IH [OF Cons.prems] show ?thesis
      by (auto simp: lookup_set_ok [OF assms(1)] split: option.split)
  qed
qed simp

lemma sinter_loop_ok:
  assumes "db_safe s c" "oset d"
  shows "sinter_loop ks d s = Inr (map_option sorted_list_of_set (inter_all ks (set d) c))"
  using assms(2)
proof (induction ks arbitrary: d)
  case Nil
  then show ?case by (simp add: oset_sorted_list)
next
  case (Cons k ks)
  show ?case
  proof (cases "set_at k c")
    case None
    then show ?thesis by (simp add: lookup_set_ok [OF assms(1)])
  next
    case (Some r)
    show ?thesis
    proof (cases r)
      case None
      then show ?thesis using Some by (simp add: lookup_set_ok [OF assms(1)])
    next
      case t: (Some t)
      let ?n = "fold (\<lambda>x acc. if set_contains x t then set_insert x acc else acc) d []"
      have n: "oset ?n" "set ?n = set d \<inter> set t" using keep_all [of "[]" t d] by simp_all
      from Cons.IH [OF n(1)] n(2) Some t show ?thesis
        by (cases "?n = []") (auto simp: lookup_set_ok [OF assms(1)] Let_def)
    qed
  qed
qed

text \<open>With only sets (or missing keys) among the arguments, SINTER is the intersection.\<close>

lemma inter_all_sets:
  "(\<forall>k\<in>set ks. set_at k c \<noteq> Some None) \<Longrightarrow> inter_all ks A c = Some (A \<inter> (\<Inter>k\<in>set ks. members k c))"
proof (induction ks arbitrary: A)
  case (Cons k ks)
  show ?case
  proof (cases "set_at k c")
    case None
    then show ?thesis by (simp add: members_def)
  next
    case (Some r)
    then obtain t where "r = Some t" using Cons.prems by (cases r) auto
    with Some Cons show ?thesis by (auto simp: members_def)
  qed
qed simp

lemma fold_flags:
  "fold (\<lambda>x res. if set_contains x t then res @ '':1'' @ crlf else res @ '':0'' @ crlf) xs r =
   r @ concat (map (\<lambda>x. integer_reply (if x \<in> set t then 1 else 0)) xs)"
proof -
  have "integer_reply 1 = '':1'' @ crlf" "integer_reply 0 = '':0'' @ crlf"
    by code_simp+
  then show ?thesis by (induction xs arbitrary: r) (auto simp: set_contains_def)
qed

context db_reader
begin

lemma sismember_ok:
  assumes inv: "I s c"
  shows "meets I s (command_sismember fd args s) fd (sismember_spec args c)"
proof (cases "length args = 3")
  case False
  then show ?thesis using meets_send [OF refl inv] by (simp add: command_sismember_def sismember_spec_def)
next
  case True
  then have a: "arg args 1 = Inr (args ! 1)" "arg args 2 = Inr (args ! 2)" "\<not> length args \<noteq> 3" by simp_all
  show ?thesis
    unfolding command_sismember_def sismember_spec_def a(1,2) rbind_simps if_not_P [OF a(3)] send_integer_eq
  proof (rule meets_type [OF inv tagged(4)], goal_cases)
    case 1
    show ?case by (rule meets_send [OF refl inv])
  next
    case (2 b n t)
    then show ?case using meets_send [OF refl inv] by (simp add: set_contains_def)
  qed
qed

lemma smismember_ok:
  assumes inv: "I s c"
  shows "meets I s (command_smismember fd args s) fd (smismember_spec args c)"
proof (cases "length args < 3")
  case True
  then show ?thesis using meets_send [OF refl inv] by (simp add: command_smismember_def smismember_spec_def)
next
  case False
  then have a: "arg args 1 = Inr (args ! 1)" by simp
  show ?thesis
    unfolding command_smismember_def smismember_spec_def a rbind_simps if_not_P [OF False] send_integer_eq fold_flags
  proof (rule meets_type [OF inv tagged(4)], goal_cases)
    case 1
    show ?case by (rule meets_send [OF refl inv])
  next
    case (2 b n t)
    then show ?case using meets_send [OF refl inv] by simp
  qed
qed

lemma scard_ok:
  assumes inv: "I s c"
  shows "meets I s (command_scard fd args s) fd (scard_spec args c)"
proof (cases "length args = 2")
  case False
  then show ?thesis using meets_send [OF refl inv] by (simp add: command_scard_def scard_spec_def)
next
  case True
  then have a: "arg args 1 = Inr (args ! 1)" "\<not> length args \<noteq> 2" by simp_all
  show ?thesis
    unfolding command_scard_def scard_spec_def a(1) rbind_simps if_not_P [OF a(2)] send_integer_eq
  proof (rule meets_type [OF inv tagged(4)], goal_cases)
    case 1
    show ?case by (rule meets_send [OF refl inv])
  next
    case (2 b n t)
    then have "oset t" by (simp add: value_wf_data)
    with 2 show ?case using meets_send [OF refl inv] by (simp add: oset_length)
  qed
qed

lemma smembers_ok:
  assumes inv: "I s c"
  shows "meets I s (command_smembers fd args s) fd (smembers_spec args c)"
proof (cases "length args = 2")
  case False
  then show ?thesis using meets_send [OF refl inv] by (simp add: command_smembers_def smembers_spec_def)
next
  case True
  then have a: "arg args 1 = Inr (args ! 1)" "\<not> length args \<noteq> 2" by simp_all
  show ?thesis
    unfolding command_smembers_def smembers_spec_def a(1) rbind_simps if_not_P [OF a(2)]
  proof (rule meets_type [OF inv tagged(4)], goal_cases)
    case 1
    show ?case by (rule meets_send [OF refl inv])
  next
    case (2 b n t)
    then have "oset t" by (simp add: value_wf_data)
    with 2 show ?case using meets_send [OF refl inv]
      by (simp add: reserve_def set_reply_eq oset_sorted_list)
  qed
qed

lemma sdiff_ok:
  assumes inv: "I s c"
  shows "meets I s (command_sdiff fd args s) fd (sdiff_spec args c)"
proof (cases "length args < 2")
  case True
  then show ?thesis using meets_send [OF refl inv] by (simp add: command_sdiff_def sdiff_spec_def)
next
  case False
  then have a: "arg args 1 = Inr (args ! 1)" by simp
  note safe = safe [OF inv]
  define r where "r = set_at (args ! 1) c"
  define d0 where "d0 = (case r of Some (Some t) \<Rightarrow> t | _ \<Rightarrow> [])"
  have d0: "oset d0" "set d0 = members (args ! 1) c"
    using set_at_oset [OF safe] by (auto simp: d0_def members_def r_def split: option.splits)
  obtain d where d: "sdiff_loop (drop 2 args) d0 s = Inr d" "oset d"
    "set d = members (args ! 1) c - (\<Union>k\<in>set (drop 2 args). members k c)"
    using sdiff_loop_ok [OF safe d0(1), of "drop 2 args"] d0(2) by blast
  have "command_sdiff fd args s = (if r = Some None then Inr (send fd WRONGTYPE s, False)
      else Inr (send fd (array_reply d) s, False))"
    unfolding command_sdiff_def if_not_P [OF False] a rbind_simps lookup_set_ok [OF safe] r_def [symmetric]
      d0_def [symmetric] Let_def d(1) set_reply_eq by (auto split: option.split)
  then show ?thesis
    using meets_send [OF refl inv] oset_eqI [OF d(2,3)] False by (simp add: sdiff_spec_def r_def)
qed

lemma sinter_ok:
  assumes inv: "I s c"
  shows "meets I s (command_sinter fd args s) fd (sinter_spec args c)"
proof (cases "length args < 2")
  case True
  then show ?thesis using meets_send [OF refl inv] by (simp add: command_sinter_def sinter_spec_def)
next
  case False
  then have a: "arg args 1 = Inr (args ! 1)" by simp
  note safe = safe [OF inv]
  define r where "r = set_at (args ! 1) c"
  define d0 where "d0 = (case r of Some (Some t) \<Rightarrow> t | _ \<Rightarrow> [])"
  have d0: "oset d0" "set d0 = members (args ! 1) c"
    using set_at_oset [OF safe] by (auto simp: d0_def members_def r_def split: option.splits)
  have "command_sinter fd args s = (if r = Some None then Inr (send fd WRONGTYPE s, False)
      else case inter_all (drop 2 args) (members (args ! 1) c) c of
        None \<Rightarrow> Inr (send fd WRONGTYPE s, False)
      | Some A \<Rightarrow> Inr (send fd (array_reply (sorted_list_of_set A)) s, False))"
    unfolding command_sinter_def if_not_P [OF False] a rbind_simps lookup_set_ok [OF safe] r_def [symmetric]
      d0_def [symmetric] Let_def sinter_loop_ok [OF safe d0(1)] d0(2) set_reply_eq
    by (auto split: option.split)
  then show ?thesis
    using meets_send [OF refl inv] False by (simp add: sinter_spec_def r_def split: option.split)
qed

lemma sunion_ok:
  assumes inv: "I s c"
  shows "meets I s (command_sunion fd args s) fd (sunion_spec args c)"
proof (cases "length args < 2")
  case True
  then show ?thesis using meets_send [OF refl inv] by (simp add: command_sunion_def sunion_spec_def)
next
  case False
  obtain d where d: "sunion_loop (drop 1 args) [] s = Inr d" "oset d"
    "set d = (\<Union>k\<in>set (drop 1 args). members k c)"
    using sunion_loop_ok [OF safe [OF inv] oset_Nil, of "drop 1 args"] by auto
  then show ?thesis
    using meets_send [OF refl inv] oset_eqI [OF d(2,3)] False
    by (simp add: command_sunion_def sunion_spec_def set_reply_eq)
qed

end

section \<open>SADD and SDEL\<close>

lemma new_empty_set [simp]:
  "get_set (new_empty SET) = Inr []" "vtype (new_empty SET) = SET"
  "expiry_time (new_empty SET) = 0" "memory_usage (new_empty SET) = 0"
  by (simp_all add: new_empty_def get_set_def)

lemma set_value_eq:
  assumes "value_ok v" "data v = DSet t"
  shows "v = new_set t (expiry_time v)"
proof -
  have "memory_usage v = of_nat (unat (memory_usage v))" by simp
  also have "\<dots> = of_nat (sum_list (map set_elem_bytes t))"
    using assms by (simp add: value_ok_def value_bytes_def)
  finally show ?thesis using assms by (cases v) (simp add: value_ok_def value_wf_def new_set_def)
qed

lemma new_set_ok:
  assumes "sum_list (map set_elem_bytes t) < 2 ^ 64" "oset t"
  shows "value_ok (new_set t e)" "unat (memory_usage (new_set t e)) = sum_list (map set_elem_bytes t)"
  using assms by (simp_all add: value_ok_def value_wf_def value_bytes_def new_set_def unat_of_nat_size)

text \<open>The sum of the sizes of the elements fits the \<open>int\<close> that SADD accumulates it in, or the key is new.\<close>

definition sadd_exact :: "string \<Rightarrow> string list \<Rightarrow> cache \<Rightarrow> bool" where
  "sadd_exact k xs c = (map_of c k = None \<or> sum_list (map set_elem_bytes xs) < 2 ^ 31)"

lemma command_sadd_ok:
  assumes inv: "db_inv s c" and args: "args_ok args" "2 \<le> length args"
    and ex: "sadd_exact (args ! 1) (drop 2 args) c"
  shows "meets db_inv s (command_sadd fd args s) fd (sadd_spec (args ! 1) (drop 2 args) c)"
proof -
  let ?k = "args ! 1" and ?xs = "drop 2 args"
  have req: "sum_list (map set_elem_bytes ?xs) \<le> request_bytes args"
    using elems_bound(2) [of ?xs] request_bytes_drop [of 2 args] by linarith
  note rb = args_ok_bytes [OF args(1)]
  have i: "1 < length args" and arg1: "arg args 1 = Inr ?k" using args by simp_all
  show ?thesis
    unfolding command_sadd_def sadd_spec_def arg1 rbind_simps Let_def
  proof (rule exact.meets_type [OF inv tagged(4)], goal_cases)
    case 1
    obtain t d where t: "sadd_loop ?xs [] 0 (0 :: size_t) = (t, length t, of_nat d)" "oset t" "set t = set ?xs"
      "d \<le> sum_list (map set_elem_bytes ?xs)" "sum_list (map set_elem_bytes t) = d"
      using sadd_loop_ok [OF oset_Nil, of ?xs 0 "0 :: size_t"] by auto
    let ?v = "new_set t 0"
    have d64: "d < 2 ^ 64" using t(4) req rb by linarith
    have v: "value_ok ?v" "unat (memory_usage ?v) = d" using new_set_ok [of t 0] t d64 by simp_all
    have eq: "(new_empty SET)\<lparr>data := DSet t, memory_usage := of_nat d\<rparr> = ?v"
      using t(5) by (simp add: new_empty_def new_set_def)
    obtain s1 a where ins: "insert_node ?k ?v s = (s1, a)" by fastforce
    have "unat (memory_usage ?v) \<le> 2 ^ 27 + request_bytes args" using v(2) t(4) req by simp
    from meets_insert [OF inv 1(2) ins v(1) write_bound(1) [OF inv args(1) i refl this]] ins eq t(1)
      oset_eqI [OF t(2,3)]
    show ?case by (simp add: send_integer_eq)
  next
    case (2 a n t0)
    then have dat: "data (node_value n) = DSet t0" "oset t0" by (auto simp: value_wf_data)
    note old = value_small [OF inv 2(3)]
    obtain t d where t: "sadd_loop ?xs t0 0 (0 :: 32 word) = (t, length t - length t0, of_nat d)" "oset t"
      "set t = set t0 \<union> set ?xs" "d \<le> sum_list (map set_elem_bytes ?xs)"
      "sum_list (map set_elem_bytes t) = sum_list (map set_elem_bytes t0) + d"
      using sadd_loop_ok [OF dat(2), of ?xs 0 "0 :: 32 word"] by auto
    let ?w = "new_set t (expiry_time (node_value n))"
    have d31: "d < 2 ^ 31" using ex 2(3) t(4) by (simp add: sadd_exact_def)
    then have sc: "(scast (of_nat d :: 32 word) :: size_t) = of_nat d" by (rule scast_small)
    have ol: "unat (memory_usage (node_value n)) = sum_list (map set_elem_bytes t0)"
      using old(2) dat by (simp add: value_ok_def value_bytes_def)
    then have w: "value_ok ?w" "unat (memory_usage ?w) = sum_list (map set_elem_bytes t0) + d"
      using new_set_ok [of t "expiry_time (node_value n)"] t old(1) d31 by simp_all
    have u: "unat (of_nat d :: size_t) = d" using d31 by (intro unat_of_nat_size) simp
    have upd: "upd_node a (\<lambda>n. n\<lparr>node_value := (node_value n)\<lparr>data := DSet t,
        memory_usage := memory_usage (node_value n) + of_nat d\<rparr>\<rparr>) s = Inr (set_value a ?w s)"
      using set_value_eq [OF old(2) dat(1)] t(5)
      by (intro upd_node_value [OF 2(2)]) (cases "node_value n", simp add: new_set_def)
    have "meets db_inv s (rbind (rbind (notify_memory_change 0 (of_nat d) (set_value a ?w s)) (touch_lru a)) (\<lambda>s2.
        Inr (send fd (integer_reply (int (length t - length t0))) s2, length t - length t0 > 0))) fd
        (write_spec ?k ?w c (integer_reply (int (length t - length t0))) (length t - length t0 > 0))"
    proof (rule meets_mutate [OF inv 2(1) 2(3) w(1)])
      show "unat (of_nat d :: size_t) + unat (memory_usage (node_value n)) =
          unat (0 :: size_t) + unat (memory_usage ?w)" using u ol w(2) by simp
      show "cache_bytes (cache_upd ?k ?w c) < 2 ^ 64"
        using w(2) ol old(1) t(4) req by (intro write_bound(2) [OF inv args(1) i refl _ 2(3)]) simp
    qed simp
    with upd dat t(1) sc oset_eqI [OF t(2,3)] show ?case by (simp add: send_integer_eq)
  qed
qed

lemma command_sdel_ok:
  assumes inv: "db_inv s c" and args: "2 \<le> length args"
  shows "meets db_inv s (command_sdel fd args s) fd (sdel_spec (args ! 1) (drop 2 args) c)"
proof -
  let ?k = "args ! 1" and ?xs = "drop 2 args"
  have arg1: "arg args 1 = Inr ?k" using args by simp
  show ?thesis
    unfolding command_sdel_def sdel_spec_def arg1 rbind_simps Let_def
  proof (rule exact.meets_type [OF inv tagged(4)], goal_cases)
    case 1
    show ?case by (rule exact.meets_send [OF refl inv])
  next
    case (2 a n t0)
    then have dat: "data (node_value n) = DSet t0" "oset t0" by (auto simp: value_wf_data)
    note old = value_small [OF inv 2(3)]
    obtain t d where t: "sdel_loop ?xs t0 0 0 = (t, length t0 - length t, of_nat d)" "oset t"
      "set t = set t0 - set ?xs"
      "sum_list (map set_elem_bytes t0) = sum_list (map set_elem_bytes t) + d"
      using sdel_loop_ok [OF dat(2), of ?xs 0 0] by auto
    let ?w = "new_set t (expiry_time (node_value n))"
    have ol: "unat (memory_usage (node_value n)) = sum_list (map set_elem_bytes t0)"
      using old(2) dat by (simp add: value_ok_def value_bytes_def)
    then have d31: "d < 2 ^ 31" using t(4) old(1) by simp
    then have sc: "(scast (of_nat d :: 32 word) :: size_t) = of_nat d" by (rule scast_small)
    have w: "value_ok ?w" "unat (memory_usage ?w) = sum_list (map set_elem_bytes t)"
      using new_set_ok [of t "expiry_time (node_value n)"] t old(1) ol by simp_all
    have u: "unat (of_nat d :: size_t) = d" using d31 by (intro unat_of_nat_size) simp
    have upd: "upd_node a (\<lambda>n. n\<lparr>node_value := (node_value n)\<lparr>data := DSet t,
        memory_usage := memory_usage (node_value n) - of_nat d\<rparr>\<rparr>) s = Inr (set_value a ?w s)"
      using set_value_eq [OF old(2) dat(1)] t(4)
      by (intro upd_node_value [OF 2(2)]) (cases "node_value n", simp add: new_set_def)
    obtain s1 where s1: "notify_memory_change (of_nat d) 0 (set_value a ?w s) = Inr s1"
      "db_inv s1 (cache_upd ?k ?w c)" "lru_state.more s1 = lru_state.more s" "kv_store s1 ?k = Some a"
      using db_shrink [OF inv 2(1,3) w(1), of 0 "of_nat d"] u ol w(2) t(4) by fastforce
    obtain n1 where n1: "heap s1 a = Some n1" using db_find [OF s1(2,4)] by metis
    have "meets db_inv s1 (rbind (touch_lru a s1) (\<lambda>s2.
        Inr (send fd (integer_reply (int (length t0 - length t))) s2, length t0 - length t > 0))) fd
        (Inr (cache_touch ?k (cache_upd ?k ?w c), integer_reply (int (length t0 - length t)), length t0 - length t > 0))"
      by (rule exact.meets_touch [OF s1(2,4) n1]) simp
    then have "meets db_inv s (rbind (touch_lru a s1) (\<lambda>s2.
        Inr (send fd (integer_reply (int (length t0 - length t))) s2, length t0 - length t > 0))) fd
        (Inr (cache_touch ?k (cache_upd ?k ?w c), integer_reply (int (length t0 - length t)), length t0 - length t > 0))"
      using io_frame [OF s1(3)] by (simp add: yields_def)
    with upd dat t(1) sc oset_eqI [OF t(2,3)] s1(1) show ?case by (simp add: send_integer_eq)
  qed
qed

section \<open>Structural safety\<close>

lemma command_sadd_sound:
  assumes inv: "db_safe s c" and args: "2 \<le> length args"
  shows "sound s (command_sadd fd args s)"
proof -
  let ?k = "args ! 1" and ?xs = "drop 2 args"
  have arg1: "arg args 1 = Inr ?k" using args by simp
  show ?thesis
    unfolding command_sadd_def arg1 rbind_simps
  proof (rule sound_type [OF inv], goal_cases)
    case 1
    obtain t m d where t: "sadd_loop ?xs [] 0 (0 :: size_t) = (t, m, d)" "oset t"
      using sadd_loop_ok [OF oset_Nil, of ?xs 0 "0 :: size_t"] by auto
    let ?v = "(new_empty SET)\<lparr>data := DSet t, memory_usage := d\<rparr>"
    obtain s1 a where ins: "insert_node ?k ?v s = (s1, a)" by fastforce
    have "value_wf ?v" using t(2) by (simp add: value_wf_def)
    from sound_insert [OF inv 1 ins this] obtain s' c' where "add_lru a s1 = Inr s'" "db_safe s' c'"
      "lru_state.more s' = lru_state.more s" by blast
    then show ?case using ins t(1) sound_send [of s' s c']
      by (simp add: send_integer_eq del: sound_simps)
  next
    case (2 a n)
    obtain t0 where t0: "data (node_value n) = DSet t0" "oset t0" using value_wf_getters(4) [OF 2(3,4)] by blast
    obtain t m d where t: "sadd_loop ?xs t0 0 (0 :: 32 word) = (t, m, d)" "oset t"
      using sadd_loop_ok [OF t0(2), of ?xs 0 "0 :: 32 word"] by auto
    let ?w = "(node_value n)\<lparr>data := DSet t, memory_usage := memory_usage (node_value n) + scast d\<rparr>"
    have wf: "value_wf ?w" using 2(4) t(2) by (simp add: value_wf_def)
    have "sound s (rbind (rbind (notify_memory_change 0 (scast d) (set_value a ?w s)) (touch_lru a))
        (\<lambda>s2. Inr (send fd (integer_reply (int m)) s2, m > 0)))"
      by (rule sound_mutate [OF inv 2(1) wf]) simp
    then show ?case using 2(2) t0 t by (simp add: upd_node_value [OF 2(2)] send_integer_eq)
  qed
qed

lemma command_sdel_sound:
  assumes inv: "db_safe s c" and args: "2 \<le> length args"
  shows "sound s (command_sdel fd args s)"
proof -
  let ?k = "args ! 1" and ?xs = "drop 2 args"
  have arg1: "arg args 1 = Inr ?k" using args by simp
  show ?thesis
    unfolding command_sdel_def arg1 rbind_simps
  proof (rule sound_type [OF inv], goal_cases)
    case 1
    show ?case by (rule sound_send [OF refl inv])
  next
    case (2 a n)
    obtain t0 where t0: "data (node_value n) = DSet t0" "oset t0" using value_wf_getters(4) [OF 2(3,4)] by blast
    obtain t m d where t: "sdel_loop ?xs t0 0 0 = (t, m, d)" "oset t"
      using sdel_loop_ok [OF t0(2), of ?xs 0 0] by auto
    let ?w = "(node_value n)\<lparr>data := DSet t, memory_usage := memory_usage (node_value n) - scast d\<rparr>"
    have wf: "value_wf ?w" using 2(4) t(2) by (simp add: value_wf_def)
    have "sound s (rbind (rbind (notify_memory_change (scast d) 0 (set_value a ?w s)) (touch_lru a))
        (\<lambda>s2. Inr (send fd (integer_reply (int m)) s2, m > 0)))"
      by (rule sound_mutate [OF inv 2(1) wf]) simp
    then show ?case using 2(2) t0 t by (simp add: upd_node_value [OF 2(2)] send_integer_eq)
  qed
qed

lemma set_readers_sound:
  assumes "db_safe s c"
  shows "sound s (command_sismember fd args s)" "sound s (command_smismember fd args s)"
    "sound s (command_scard fd args s)" "sound s (command_smembers fd args s)"
    "sound s (command_sdiff fd args s)" "sound s (command_sinter fd args s)" "sound s (command_sunion fd args s)"
  by (rule meets_sound [OF structural.sismember_ok [OF assms]] meets_sound [OF structural.smismember_ok [OF assms]]
      meets_sound [OF structural.scard_ok [OF assms]] meets_sound [OF structural.smembers_ok [OF assms]]
      meets_sound [OF structural.sdiff_ok [OF assms]] meets_sound [OF structural.sinter_ok [OF assms]]
      meets_sound [OF structural.sunion_ok [OF assms]];
      auto simp: sismember_spec_def smismember_spec_def scard_spec_def smembers_spec_def sdiff_spec_def
        sinter_spec_def sunion_spec_def typed_spec_def split: option.splits if_splits)+

section \<open>Properties\<close>

lemma new_members_card: "oset t \<Longrightarrow> oset t' \<Longrightarrow> set t' = set t \<union> A \<Longrightarrow> finite A \<Longrightarrow> length t' - length t = card (A - set t)"
proof -
  assume t: "oset t" "oset t'" "set t' = set t \<union> A" "finite A"
  have "card (set t \<union> A) = card (set t) + card (A - set t)"
    using card_Un_disjoint [of "set t" "A - set t"] t(4) by (simp add: Un_Diff_cancel)
  then show ?thesis using t by (simp add: oset_length)
qed

lemma sadd_write_fits:
  assumes st: "storable c" and key: "set_at k c \<noteq> Some None"
    and fits: "cache_bytes c + request_bytes (k # xs) \<le> LRU_MAX_MEMORY"
  defines "n \<equiv> card (set xs - members k c)"
  shows "\<exists>c1 t e. sadd_spec k xs c = Inr (c1, integer_reply (int n), n > 0) \<and> map_of c1 = (map_of c)(k \<mapsto> new_set t e) \<and>
    set t = members k c \<union> set xs"
proof -
  have xs: "sum_list (map set_elem_bytes xs) \<le> request_bytes xs" by (rule elems_bound(2))
  show ?thesis
  proof (cases "map_of c k")
    case None
    obtain t d where t: "oset t" "set t = set [] \<union> set xs" "d \<le> sum_list (map set_elem_bytes xs)"
      "sum_list (map set_elem_bytes t) = sum_list (map set_elem_bytes []) + d"
      using sadd_loop_ok [of "[]" xs 0 "0 :: size_t"] by auto
    have n: "length (sorted_list_of_set (set [] \<union> set xs)) - length [] = n"
      using new_members_card [of "[]" t "set xs"] t(1,2) None oset_eqI [OF t(1,2)] by (simp add: n_def members_def set_at_def)
    have "sum_list (map set_elem_bytes t) < 2 ^ 64" using t(3,4) xs fits by (simp add: LRU_MAX_MEMORY_def)
    then have "unat (memory_usage (new_set t 0)) = d" using new_set_ok(2) [OF _ t(1)] t(4) by simp
    then have "cache_bytes c + entry_size (k, new_set t 0) \<le> LRU_MAX_MEMORY"
      using fits t(3) xs copy_capacity_bound [of k] by (simp add: entry_size_def sizeof_DrutaNode_def)
    from set_spec_fits [OF _ this] st have "survives k (new_set t 0) c"
      "map_of (set_spec k (new_set t 0) c) = (map_of c)(k \<mapsto> new_set t 0)" by (simp_all add: storable_def)
    moreover have "sadd_spec k xs c = write_spec k (new_set t 0) c (integer_reply (int n)) (n > 0)"
      unfolding sadd_spec_def typed_spec_def Let_def n None using oset_eqI [OF t(1,2)] by simp
    ultimately show ?thesis using t(2) None by (auto simp: write_spec_def members_def set_at_def)
  next
    case (Some v)
    then obtain t0 where v: "data v = DSet t0"
      using key by (auto simp: set_at_def as_set_def split: value_data.splits)
    note ok = storable_at [OF st Some]
    have t0: "oset t0" using ok(1) v by (auto simp: value_ok_def dest: value_wf_data(4))
    have mem: "members k c = set t0" using Some v by (simp add: members_def set_at_def)
    obtain t d where t: "oset t" "set t = set t0 \<union> set xs" "d \<le> sum_list (map set_elem_bytes xs)"
      "sum_list (map set_elem_bytes t) = sum_list (map set_elem_bytes t0) + d"
      using sadd_loop_ok [OF t0, of xs 0 "0 :: size_t"] by auto
    have n: "length (sorted_list_of_set (set t0 \<union> set xs)) - length t0 = n"
      using new_members_card [OF t0 t(1,2)] oset_eqI [OF t(1,2)] mem by (simp add: n_def)
    have old: "unat (memory_usage v) = sum_list (map set_elem_bytes t0)" using ok(1) v by (simp add: value_ok_def value_bytes_def)
    have "sum_list (map set_elem_bytes t) < 2 ^ 64" using t(3,4) xs fits ok(2) old by (simp add: LRU_MAX_MEMORY_def)
    then have new: "unat (memory_usage (new_set t (expiry_time v))) = unat (memory_usage v) + d"
      using new_set_ok(2) [OF _ t(1)] t(4) old by simp
    then have "cache_bytes (cache_upd k (new_set t (expiry_time v)) c) = cache_bytes c + d"
      using cache_bytes_upd [OF ok(3) Some, of "new_set t (expiry_time v)"] by simp
    then have "cache_bytes (cache_upd k (new_set t (expiry_time v)) c) \<le> LRU_MAX_MEMORY" using fits t(3) xs by simp
    from set_spec_upd [OF ok(3) Some this] have "survives k (new_set t (expiry_time v)) c"
      "map_of (set_spec k (new_set t (expiry_time v)) c) = (map_of c)(k \<mapsto> new_set t (expiry_time v))" .
    moreover have "sadd_spec k xs c = write_spec k (new_set t (expiry_time v)) c (integer_reply (int n)) (n > 0)"
      unfolding sadd_spec_def typed_spec_def Let_def using Some v n oset_eqI [OF t(1,2)] by simp
    ultimately show ?thesis using t(2) mem by (auto simp: write_spec_def)
  qed
qed

text \<open>
  \<^bold>\<open>C26\<close>. SADD on a missing key or a set with room for the request adds exactly the
  given members, keeps every other key, and answers how many distinct ones are new; SMEMBERS afterwards
  answers the union in ascending order.
\<close>

theorem sadd_then_smembers:
  assumes "db_inv s c" "args_ok (cmd # k # xs)" "set_at k c \<noteq> Some None"
    "cache_bytes c + request_bytes (k # xs) \<le> LRU_MAX_MEMORY"
  defines "n \<equiv> card (set xs - members k c)"
  shows "\<exists>s1 s2. command_sadd fd (cmd # k # xs) s = Inr (s1, n > 0) \<and>
    command_smembers fd [''SMEMBERS'', k] s1 = Inr (s2, False) \<and>
    out s2 = out s @ reply fd (integer_reply (int n)) @ reply fd (array_reply (sorted_list_of_set (members k c \<union> set xs))) \<and>
    (\<forall>j. j \<noteq> k \<longrightarrow> kv_view s2 j = kv_view s j)"
proof -
  have "sum_list (map set_elem_bytes xs) \<le> request_bytes xs" by (rule elems_bound(2))
  then have "sum_list (map set_elem_bytes xs) < 2 ^ 31" using assms(4) by (simp add: LRU_MAX_MEMORY_def)
  then have ex: "sadd_exact k xs c" by (simp add: sadd_exact_def)
  obtain c1 t e where c1: "sadd_spec k xs c = Inr (c1, integer_reply (int n), n > 0)"
    "map_of c1 = (map_of c)(k \<mapsto> new_set t e)" "set t = members k c \<union> set xs"
    using sadd_write_fits [OF db_inv_storable [OF assms(1)] assms(3,4)] unfolding n_def by blast
  with command_sadd_ok [OF assms(1,2), of fd] ex obtain s1 where s1: "command_sadd fd (cmd # k # xs) s = Inr (s1, n > 0)"
    "db_inv s1 c1" "out s1 = out s @ reply fd (integer_reply (int n))" by (auto elim!: yieldsE)
  have "unat (memory_usage (new_set t e)) < 2 ^ 27" using value_small(1) [OF s1(2), of k] c1(2) by simp
  then have "unat (1024 + memory_usage (new_set t e)) < 2 ^ 62"
    using unat_of_nat_size [of "1024 + unat (memory_usage (new_set t e))"] by simp
  then have "smembers_spec [''SMEMBERS'', k] c1 = Inr (c1, array_reply (sorted_list_of_set (members k c \<union> set xs)), False)"
    using c1(2,3) by (simp add: smembers_spec_def typed_spec_def new_set_def)
  with exact.smembers_ok [OF s1(2), of fd "[''SMEMBERS'', k]"] obtain s2 where
    s2: "command_smembers fd [''SMEMBERS'', k] s1 = Inr (s2, False)" "db_inv s2 c1"
    "out s2 = out s1 @ reply fd (array_reply (sorted_list_of_set (members k c \<union> set xs)))" by (auto elim!: yieldsE)
  moreover have "\<forall>j. j \<noteq> k \<longrightarrow> kv_view s2 j = kv_view s j"
    using c1(2) db_inv_view [OF s2(2)] db_inv_view [OF assms(1)] by simp
  ultimately show ?thesis using s1(1,3) by auto
qed

theorem sadd_then_smembers_witness:
  "\<exists>s1 s2. command_sadd 5 [''SADD'', ''s'', ''b'', ''a'', ''b''] (empty_db (\<lambda>_. 0)) = Inr (s1, True) \<and>
     command_smembers 5 [''SMEMBERS'', ''s''] s1 = Inr (s2, False)"
proof -
  let ?n = "card (set [''b'', ''a'', ''b''] - members ''s'' [])"
  have a: "args_ok [''SADD'', ''s'', ''b'', ''a'', ''b'']" "set_at ''s'' [] \<noteq> Some None"
    "cache_bytes [] + request_bytes [''s'', ''b'', ''a'', ''b''] \<le> LRU_MAX_MEMORY"
    by (simp_all add: args_ok_def set_at_def LRU_MAX_MEMORY_def)
  obtain s1 s2 where "command_sadd 5 [''SADD'', ''s'', ''b'', ''a'', ''b''] (empty_db (\<lambda>_. 0)) = Inr (s1, ?n > 0)"
    "command_smembers 5 [''SMEMBERS'', ''s''] s1 = Inr (s2, False)"
    using sadd_then_smembers [OF db_inv_empty [of "\<lambda>_. 0"] a, of 5] by blast
  moreover have "(?n > 0) = True" by (simp add: members_def set_at_def card_gt_0_iff)
  ultimately show ?thesis by metis
qed

text \<open>
  \<^bold>\<open>C27\<close>. When no named key holds another type, SINTER, SUNION and SDIFF answer the
  intersection, the union and the difference of the first set with all others, in ascending order and
  without duplicates, with missing keys as empty sets, and change nothing in the store.
\<close>

theorem set_algebra:
  assumes "db_inv s c" "\<forall>j\<in>set (k # ks). set_at j c \<noteq> Some None"
  shows "meets db_inv s (command_sinter fd (cmd # k # ks) s) fd
      (Inr (c, array_reply (sorted_list_of_set (members k c \<inter> (\<Inter>j\<in>set ks. members j c))), False)) \<and>
    meets db_inv s (command_sunion fd (cmd # k # ks) s) fd
      (Inr (c, array_reply (sorted_list_of_set (members k c \<union> (\<Union>j\<in>set ks. members j c))), False)) \<and>
    meets db_inv s (command_sdiff fd (cmd # k # ks) s) fd
      (Inr (c, array_reply (sorted_list_of_set (members k c - (\<Union>j\<in>set ks. members j c))), False))"
proof -
  have "inter_all ks (members k c) c = Some (members k c \<inter> (\<Inter>j\<in>set ks. members j c))"
    using assms(2) by (intro inter_all_sets) simp
  then show ?thesis using assms(2) exact.sinter_ok [OF assms(1), of fd "cmd # k # ks"]
      exact.sunion_ok [OF assms(1), of fd "cmd # k # ks"] exact.sdiff_ok [OF assms(1), of fd "cmd # k # ks"]
    by (simp add: sinter_spec_def sunion_spec_def sdiff_spec_def)
qed

theorem set_algebra_witness:
  "\<exists>s :: io_state. meets db_inv s (command_sdiff 5 [''SDIFF'', ''s'', ''t'', ''u''] s) 5
     (Inr ([(''s'', new_set [''a'', ''b''] 0), (''t'', new_set [''b''] 0)], array_reply [''a''], False))"
proof -
  let ?c = "[(''s'', new_set [''a'', ''b''] 0), (''t'', new_set [''b''] 0)]"
  have "storable ?c" by (rule storableI) code_simp
  from sample_db [OF this] obtain s :: io_state where s: "db_inv s ?c" by blast
  have m: "members ''s'' ?c = {''a'', ''b''}" "members ''t'' ?c = {''b''}" "members ''u'' ?c = {}"
    by (simp_all add: members_def set_at_def new_set_def)
  have "\<forall>j\<in>set [''s'', ''t'', ''u'']. set_at j ?c \<noteq> Some None" by (simp add: set_at_def new_set_def)
  from set_algebra [OF s this, of 5 "''SDIFF''"] show ?thesis by (auto simp: m insert_Diff_if)
qed

end
