(* ===== verification/Pubsub.thy ===== *)
theory Pubsub
  imports Server_State
begin

text \<open>
  Publish/subscribe (pubsub.cpp, client.hpp): who is subscribed to what is kept twice, per client
  (\<open>subscribed_channels\<close>) and per channel (\<open>channels_subscribers\<close>). The invariant \<open>pubsub_inv\<close> says
  that the two agree, that a client's mode flag is set exactly while it has subscriptions and that no
  client has more than 128; every operation keeps it. \<open>send\<close> in pubsub.cpp is the system call itself,
  without the guard of commands.cpp.
\<close>

section \<open>Operations\<close>

definition MAX_SUBSCRIPTIONS_PER_CLIENT :: nat where
  "MAX_SUBSCRIPTIONS_PER_CLIENT = 128"

text \<open>\<open>clients_map[fd]\<close> and \<open>channels_subscribers[channel]\<close> create the entry they do not find.\<close>

definition client_of :: "int \<Rightarrow> ('z) pubsub_state_scheme \<Rightarrow> Client" where
  "client_of fd s = (case clients_map s fd of None \<Rightarrow> new_client | Some c \<Rightarrow> c)"

definition upd_client :: "int \<Rightarrow> (Client \<Rightarrow> Client) \<Rightarrow> ('z) pubsub_state_scheme \<Rightarrow> ('z) pubsub_state_scheme" where
  "upd_client fd f s = s\<lparr>clients_map := (clients_map s)(fd \<mapsto> f (client_of fd s))\<rparr>"

definition channel_of :: "string \<Rightarrow> ('z) pubsub_state_scheme \<Rightarrow> int list" where
  "channel_of ch s = (case channels_subscribers s ch of None \<Rightarrow> [] | Some t \<Rightarrow> t)"

definition upd_channel :: "string \<Rightarrow> (int list \<Rightarrow> int list) \<Rightarrow> ('z) pubsub_state_scheme \<Rightarrow> ('z) pubsub_state_scheme" where
  "upd_channel ch f s = s\<lparr>channels_subscribers := (channels_subscribers s)(ch \<mapsto> f (channel_of ch s))\<rparr>"

definition pubsub_event :: "string \<Rightarrow> string \<Rightarrow> nat \<Rightarrow> string" where
  "pubsub_event kind channel count =
     resp_bulk_string (resp_bulk_string (''*3'' @ crlf) kind) channel @ '':'' @ to_string count @ crlf"

fun subscribe_loop :: "int \<Rightarrow> string list \<Rightarrow> ('z) pubsub_state_scheme \<Rightarrow> ('z) pubsub_state_scheme" where
  "subscribe_loop fd [] s = s"
| "subscribe_loop fd (channel # channels) s =
     (let already_subbed = set_contains channel (subscribed_channels (client_of fd s));
          s0 = upd_client fd id s
      in if \<not> already_subbed \<and> MAX_SUBSCRIPTIONS_PER_CLIENT \<le> length (subscribed_channels (client_of fd s))
         then sys_send fd (''-ERR maximum number of subscriptions reached'' @ crlf) s0
         else
           let s1 = upd_channel channel (set_insert fd) s0;
               s2 = upd_client fd (\<lambda>c. c\<lparr>is_subscriber := True\<rparr>) s1;
               s3 = upd_client fd (\<lambda>c. c\<lparr>subscribed_channels := set_insert channel (subscribed_channels c)\<rparr>) s2
           in subscribe_loop fd channels
                (sys_send fd (pubsub_event ''subscribe'' channel (length (subscribed_channels (client_of fd s3)))) s3))"

definition pubsub_subscribe :: "int \<Rightarrow> string list \<Rightarrow> ('z) pubsub_state_scheme \<Rightarrow> ('z) pubsub_state_scheme" where
  "pubsub_subscribe fd args s = subscribe_loop fd (drop 1 args) s"

definition unsubscribe_one :: "int \<Rightarrow> string \<Rightarrow> ('z) pubsub_state_scheme \<Rightarrow> ('z) pubsub_state_scheme" where
  "unsubscribe_one fd channel s =
     (let s1 = upd_channel channel (set_erase fd) s;
          s2 = upd_client fd (\<lambda>c. c\<lparr>subscribed_channels := set_erase channel (subscribed_channels c)\<rparr>) s1;
          s3 = (if subscribed_channels (client_of fd s2) = []
                then upd_client fd (\<lambda>c. c\<lparr>is_subscriber := False\<rparr>) s2 else s2)
      in sys_send fd (pubsub_event ''unsubscribe'' channel (length (subscribed_channels (client_of fd s3)))) s3)"

definition pubsub_unsubscribe :: "int \<Rightarrow> string list \<Rightarrow> ('z) pubsub_state_scheme \<Rightarrow> ('z) pubsub_state_scheme" where
  "pubsub_unsubscribe fd args s =
     (let s0 = (if length args = 1 then upd_client fd id s else s);
          channels_to_remove = (if length args = 1 then subscribed_channels (client_of fd s) else drop 1 args)
      in if channels_to_remove = []
         then sys_send fd (resp_bulk_string (''*3'' @ crlf) ''unsubscribe'' @ ''$-1'' @ crlf @ '':0'' @ crlf) s0
         else fold (unsubscribe_one fd) channels_to_remove s0)"

text \<open>The delivery loop: live subscribers get the message, the others are collected.\<close>

fun publish_loop :: "string \<Rightarrow> int list \<Rightarrow> ('z) pubsub_state_scheme \<Rightarrow> ('z) pubsub_state_scheme \<times> nat \<times> int list" where
  "publish_loop msg [] s = (s, 0, [])"
| "publish_loop msg (clientfd # fds) s =
     (if clients_map s clientfd = None
      then (case publish_loop msg fds s of (s', n, dead) \<Rightarrow> (s', n, clientfd # dead))
      else (case publish_loop msg fds (sys_send clientfd msg s) of (s', n, dead) \<Rightarrow> (s', Suc n, dead)))"

definition publish_message :: "string \<Rightarrow> string \<Rightarrow> string" where
  "publish_message channel message =
     resp_bulk_string (resp_bulk_string (resp_bulk_string (''*3'' @ crlf) ''message'') channel) message"

definition pubsub_publish :: "int \<Rightarrow> string list \<Rightarrow> ('z) pubsub_state_scheme \<Rightarrow> ('z) pubsub_state_scheme \<times> nat" where
  "pubsub_publish fd args s =
     (if length args < 3 then (s, 0)
      else
        let channel = args ! 1; message = args ! 2; res = publish_message channel message in
        case channels_subscribers s channel of
          None \<Rightarrow> (s, 0)
        | Some subscribers \<Rightarrow>
            (case publish_loop res subscribers s of (s1, clients_affected, dead_fds) \<Rightarrow>
              (upd_channel channel (\<lambda>t. fold set_erase dead_fds t) s1, clients_affected)))"

definition pubsub_cleanup_client :: "int \<Rightarrow> ('z) pubsub_state_scheme \<Rightarrow> ('z) pubsub_state_scheme" where
  "pubsub_cleanup_client fd s = (case clients_map s fd of
     None \<Rightarrow> s
   | Some c \<Rightarrow> fold (\<lambda>channel. upd_channel channel (set_erase fd)) (subscribed_channels c) s)"

section \<open>Invariant\<close>

definition client_wf :: "Client \<Rightarrow> bool" where
  "client_wf c = (oset (subscribed_channels c) \<and>
     length (subscribed_channels c) \<le> MAX_SUBSCRIPTIONS_PER_CLIENT \<and>
     (is_subscriber c \<longleftrightarrow> subscribed_channels c \<noteq> []))"

definition pubsub_inv :: "('z) pubsub_state_scheme \<Rightarrow> bool" where
  "pubsub_inv s = ((\<forall>fd. client_wf (client_of fd s)) \<and> (\<forall>ch. oset (channel_of ch s)) \<and>
     (\<forall>fd ch. fd \<in> set (channel_of ch s) \<longleftrightarrow> ch \<in> set (subscribed_channels (client_of fd s))))"

lemma pubsub_invD:
  assumes "pubsub_inv s"
  shows "client_wf (client_of fd s)" "oset (channel_of ch s)"
    "fd \<in> set (channel_of ch s) \<longleftrightarrow> ch \<in> set (subscribed_channels (client_of fd s))"
  using assms by (auto simp: pubsub_inv_def)

lemma view_simps [simp]:
  "client_of fd (upd_client fd' f s) = (if fd = fd' then f (client_of fd' s) else client_of fd s)"
  "channel_of ch (upd_client fd' f s) = channel_of ch s"
  "client_of fd (upd_channel ch' g s) = client_of fd s"
  "channel_of ch (upd_channel ch' g s) = (if ch = ch' then g (channel_of ch' s) else channel_of ch s)"
  "client_of fd (sys_send fd' msg s) = client_of fd s" "channel_of ch (sys_send fd' msg s) = channel_of ch s"
  "client_of fd (send fd' msg s) = client_of fd s" "channel_of ch (send fd' msg s) = channel_of ch s"
  by (simp_all add: client_of_def channel_of_def upd_client_def upd_channel_def sys_send_def send_def)

lemma pubsub_inv_view:
  "(\<And>fd. client_of fd s' = client_of fd s) \<Longrightarrow> (\<And>ch. channel_of ch s' = channel_of ch s) \<Longrightarrow>
   pubsub_inv s' = pubsub_inv s"
  by (simp add: pubsub_inv_def)

lemma pubsub_inv_touch [simp]: "pubsub_inv (upd_client fd id s) = pubsub_inv s"
  by (rule pubsub_inv_view) simp_all

lemma pubsub_inv_send [simp]: "pubsub_inv (sys_send fd msg s) = pubsub_inv s"
  by (rule pubsub_inv_view) simp_all

lemma set_ops_Nil [simp]: "set_insert x xs \<noteq> []" "set_erase x [] = []"
proof -
  have "x \<in> set (set_insert x xs)" by simp
  then show "set_insert x xs \<noteq> []" by force
qed (simp add: set_erase_def)

text \<open>One subscription added, or one removed, on both sides.\<close>

lemma subscribe_step_inv:
  assumes inv: "pubsub_inv s"
    and room: "ch \<in> set (subscribed_channels (client_of fd s)) \<or>
      length (subscribed_channels (client_of fd s)) < MAX_SUBSCRIPTIONS_PER_CLIENT"
    and view: "\<And>f. client_of f s' = (if f = fd then (client_of fd s)\<lparr>is_subscriber := True,
        subscribed_channels := set_insert ch (subscribed_channels (client_of fd s))\<rparr> else client_of f s)"
      "\<And>h. channel_of h s' = (if h = ch then set_insert fd (channel_of ch s) else channel_of h s)"
  shows "pubsub_inv s'"
proof -
  note d = pubsub_invD [OF inv]
  have "client_wf (client_of f s')" for f
  proof (cases "f = fd \<and> ch \<notin> set (subscribed_channels (client_of fd s))")
    case True
    then show ?thesis using d(1) [of fd] room
      by (auto simp: view(1) client_wf_def length_set_insert)
  next
    case False
    then show ?thesis using d(1) [of f] d(1) [of fd] by (auto simp: view(1) client_wf_def)
  qed
  moreover have "oset (channel_of h s')" for h using d(2) by (simp add: view(2))
  moreover have "f \<in> set (channel_of h s') \<longleftrightarrow> h \<in> set (subscribed_channels (client_of f s'))" for f h
    using d(3) by (auto simp: view)
  ultimately show ?thesis by (simp add: pubsub_inv_def)
qed

lemma subscribe_loop_inv: "pubsub_inv s \<Longrightarrow> pubsub_inv (subscribe_loop fd chs s)"
proof (induction chs arbitrary: s)
  case (Cons ch chs)
  let ?full = "\<not> set_contains ch (subscribed_channels (client_of fd s)) \<and>
    MAX_SUBSCRIPTIONS_PER_CLIENT \<le> length (subscribed_channels (client_of fd s))"
  show ?case
  proof (cases ?full)
    case True
    then show ?thesis using Cons.prems by (simp add: Let_def)
  next
    case False
    then have room: "ch \<in> set (subscribed_channels (client_of fd s)) \<or>
      length (subscribed_channels (client_of fd s)) < MAX_SUBSCRIPTIONS_PER_CLIENT"
      by (auto simp: set_contains_def)
    have "pubsub_inv (upd_client fd (\<lambda>c. c\<lparr>subscribed_channels := set_insert ch (subscribed_channels c)\<rparr>)
        (upd_client fd (\<lambda>c. c\<lparr>is_subscriber := True\<rparr>) (upd_channel ch (set_insert fd) (upd_client fd id s))))"
      by (rule subscribe_step_inv [OF Cons.prems room]) simp_all
    with False show ?thesis by (auto simp: Let_def intro!: Cons.IH)
  qed
qed simp

lemma set_erase_empty: "x \<notin> set xs \<Longrightarrow> set_erase x xs = xs"
  by (simp add: set_erase_def remove1_idem)

lemma length_set_erase: "length (set_erase x xs) \<le> length xs"
  by (simp add: set_erase_def length_remove1)

lemma unsubscribe_one_inv:
  assumes inv: "pubsub_inv s"
  shows "pubsub_inv (unsubscribe_one fd ch s)"
proof -
  note d = pubsub_invD [OF inv]
  let ?s = "unsubscribe_one fd ch s"
  let ?subs = "set_erase ch (subscribed_channels (client_of fd s))"
  have cl: "client_of f ?s = (if f = fd then (client_of fd s)\<lparr>subscribed_channels := ?subs,
      is_subscriber := (?subs \<noteq> [] \<and> is_subscriber (client_of fd s))\<rparr> else client_of f s)" for f
    by (cases "client_of fd s") (simp add: unsubscribe_one_def Let_def)
  have ch: "channel_of h ?s = (if h = ch then set_erase fd (channel_of ch s) else channel_of h s)" for h
    by (simp add: unsubscribe_one_def Let_def)
  have "client_wf (client_of f ?s)" for f
    using d(1) [of f] d(1) [of fd] length_set_erase [of ch "subscribed_channels (client_of fd s)"]
    by (auto simp: cl client_wf_def)
  moreover have "oset (channel_of h ?s)" for h using d(2) by (simp add: ch)
  moreover have "f \<in> set (channel_of h ?s) \<longleftrightarrow> h \<in> set (subscribed_channels (client_of f ?s))" for f h
    using d(3) [of f h] d(3) [of f ch] d(2) [of ch] d(1) [of fd] by (auto simp: ch cl client_wf_def)
  ultimately show ?thesis by (simp add: pubsub_inv_def)
qed

lemma unsubscribe_fold_inv: "pubsub_inv s \<Longrightarrow> pubsub_inv (fold (unsubscribe_one fd) chs s)"
  by (induction chs arbitrary: s) (auto intro: unsubscribe_one_inv)

lemma pubsub_unsubscribe_inv: "pubsub_inv s \<Longrightarrow> pubsub_inv (pubsub_unsubscribe fd args s)"
  by (simp add: pubsub_unsubscribe_def Let_def unsubscribe_fold_inv)

lemma pubsub_subscribe_inv: "pubsub_inv s \<Longrightarrow> pubsub_inv (pubsub_subscribe fd args s)"
  by (simp add: pubsub_subscribe_def subscribe_loop_inv)

lemma publish_loop_ok:
  "\<forall>fd\<in>set fds. clients_map s fd \<noteq> None \<Longrightarrow>
   publish_loop msg fds s = (s\<lparr>out := out s @ map (\<lambda>fd. (fd, msg)) fds\<rparr>, length fds, [])"
  by (induction fds arbitrary: s) (auto simp: sys_send_def)

lemma channel_live:
  assumes "pubsub_inv s" "fd \<in> set (channel_of ch s)"
  shows "clients_map s fd \<noteq> None"
  using pubsub_invD(3) [OF assms(1), of fd ch] assms(2) by (auto simp: client_of_def new_client_def split: option.splits)

text \<open>PUBLISH under the invariant: one message per subscriber, in increasing order of descriptors, and
  nothing to clean up.\<close>

lemma pubsub_publish_ok:
  assumes inv: "pubsub_inv s" and args: "3 \<le> length args"
  shows "pubsub_publish fd args s =
    (s\<lparr>out := out s @ map (\<lambda>fd. (fd, publish_message (args ! 1) (args ! 2))) (channel_of (args ! 1) s)\<rparr>,
     length (channel_of (args ! 1) s))"
proof (cases "channels_subscribers s (args ! 1)")
  case None
  then show ?thesis using args by (simp add: pubsub_publish_def channel_of_def Let_def)
next
  case (Some t)
  then have t: "channel_of (args ! 1) s = t" by (simp add: channel_of_def)
  have "publish_loop (publish_message (args ! 1) (args ! 2)) t s =
      (s\<lparr>out := out s @ map (\<lambda>fd. (fd, publish_message (args ! 1) (args ! 2))) t\<rparr>, length t, [])"
    by (rule publish_loop_ok) (use channel_live [OF inv] t in blast)
  moreover have "(channels_subscribers s)(args ! 1 \<mapsto> t) = channels_subscribers s" using Some by auto
  ultimately show ?thesis
    using args Some t by (simp add: pubsub_publish_def Let_def upd_channel_def channel_of_def)
qed

lemma publish_recipients:
  assumes inv: "pubsub_inv s"
  shows "set (channel_of ch s) = {fd. \<exists>c. clients_map s fd = Some c \<and> ch \<in> set (subscribed_channels c)}"
    "oset (channel_of ch s)"
  using pubsub_invD [OF inv] by (auto simp: client_of_def new_client_def split: option.splits)

section \<open>Disconnecting\<close>

lemma cleanup_channels:
  "channel_of ch (fold (\<lambda>channel. upd_channel channel (set_erase fd)) chs s) =
     (if ch \<in> set chs then set_erase fd (channel_of ch s) else channel_of ch s)"
  if "\<forall>ch. oset (channel_of ch s)"
  using that
proof (induction chs arbitrary: s)
  case (Cons c chs)
  have o: "\<forall>ch. oset (channel_of ch (upd_channel c (set_erase fd) s))" using Cons.prems by simp
  have twice: "set_erase fd (set_erase fd (channel_of ch s)) = set_erase fd (channel_of ch s)"
    using Cons.prems by (intro set_erase_empty) simp
  from Cons.IH [OF o] twice show ?case by auto
qed simp

lemma cleanup_clients:
  "clients_map (fold (\<lambda>channel. upd_channel channel (set_erase fd)) chs s) = clients_map s"
  by (induction chs arbitrary: s) (simp_all add: upd_channel_def)

text \<open>\<open>pubsub_cleanup_client(fd)\<close> followed by \<open>clients_map.erase(fd)\<close>, as main.cpp does.\<close>

definition drop_client :: "int \<Rightarrow> ('z) pubsub_state_scheme \<Rightarrow> ('z) pubsub_state_scheme" where
  "drop_client fd s = (let s1 = pubsub_cleanup_client fd s in s1\<lparr>clients_map := (clients_map s1)(fd := None)\<rparr>)"

lemma drop_client_view:
  assumes inv: "pubsub_inv s"
  shows "client_of f (drop_client fd s) = (if f = fd then new_client else client_of f s)"
    "channel_of ch (drop_client fd s) = set_erase fd (channel_of ch s)"
proof -
  note d = pubsub_invD [OF inv]
  have cm: "clients_map (pubsub_cleanup_client fd s) = clients_map s"
    by (simp add: pubsub_cleanup_client_def cleanup_clients split: option.split)
  then show "client_of f (drop_client fd s) = (if f = fd then new_client else client_of f s)"
    by (simp add: drop_client_def Let_def client_of_def)
  have "channel_of ch (pubsub_cleanup_client fd s) = set_erase fd (channel_of ch s)"
  proof (cases "ch \<in> set (subscribed_channels (client_of fd s))")
    case True
    then obtain c where "clients_map s fd = Some c" "ch \<in> set (subscribed_channels c)"
      by (auto simp: client_of_def new_client_def split: option.splits)
    then show ?thesis using d(2) by (simp add: pubsub_cleanup_client_def cleanup_channels)
  next
    case False
    then have "fd \<notin> set (channel_of ch s)" using d(3) by blast
    with False show ?thesis using d(2)
      by (auto simp: pubsub_cleanup_client_def cleanup_channels set_erase_empty client_of_def split: option.splits)
  qed
  then show "channel_of ch (drop_client fd s) = set_erase fd (channel_of ch s)"
    by (simp add: drop_client_def Let_def channel_of_def)
qed

lemma client_wf_new [simp]: "client_wf new_client"
  by (simp add: client_wf_def new_client_def)

lemma drop_client_inv:
  assumes inv: "pubsub_inv s"
  shows "pubsub_inv (drop_client fd s)"
proof -
  note d = pubsub_invD [OF inv]
  have "f \<in> set (set_erase fd (channel_of ch s)) \<longleftrightarrow>
      ch \<in> set (subscribed_channels (if f = fd then new_client else client_of f s))" for f ch
    using d(2) [of ch] d(3) [of f ch] by (auto simp: new_client_def)
  then show ?thesis unfolding pubsub_inv_def drop_client_view [OF inv] using d(1,2) by simp
qed

text \<open>A new connection: \<open>clients_map[client_fd] = Client{}\<close> for a descriptor that was not in use.\<close>

lemma new_client_inv:
  "pubsub_inv s \<Longrightarrow> clients_map s fd = None \<Longrightarrow> pubsub_inv (upd_client fd (\<lambda>_. new_client) s)"
  by (subst pubsub_inv_view [of _ s]) (simp_all, simp add: client_of_def)

section \<open>Frames\<close>

text \<open>The operations leave everything below clients and channels alone, except for what they send.\<close>

definition strip :: "('z) pubsub_state_scheme \<Rightarrow> ('z) pubsub_state_scheme" where
  "strip s = s\<lparr>out := [], clients_map := Map.empty, channels_subscribers := Map.empty\<rparr>"

lemma strip_steps [simp]:
  "strip (upd_client fd f s) = strip s" "strip (upd_channel ch g s) = strip s"
  "strip (sys_send fd msg s) = strip s" "strip (send fd msg s) = strip s"
  "strip (s\<lparr>clients_map := cm\<rparr>) = strip s" "strip (s\<lparr>out := x\<rparr>) = strip s"
  by (simp_all add: strip_def upd_client_def upd_channel_def sys_send_def send_def)

lemma strip_subscribe: "strip (pubsub_subscribe fd args s) = strip s"
proof -
  have "strip (subscribe_loop fd chs s) = strip s" for chs by (induction chs arbitrary: s) (simp_all add: Let_def)
  then show ?thesis by (simp add: pubsub_subscribe_def)
qed

lemma strip_folds:
  "strip (fold (unsubscribe_one fd) chs s) = strip s"
  "strip (fold (\<lambda>channel. upd_channel channel (set_erase fd)) chs s) = strip s"
  by (induction chs arbitrary: s) (simp_all add: unsubscribe_one_def Let_def)

lemma strip_unsubscribe: "strip (pubsub_unsubscribe fd args s) = strip s"
  by (simp add: pubsub_unsubscribe_def Let_def strip_folds)

lemma strip_publish_loop: "publish_loop msg fds s = (s', n, dead) \<Longrightarrow> strip s' = strip s"
proof (induction fds arbitrary: s s' n dead)
  case (Cons f fds)
  show ?case
  proof (cases "clients_map s f")
    case None
    then show ?thesis using Cons by (auto split: prod.splits)
  next
    case (Some c)
    obtain t m d where t: "publish_loop msg fds (sys_send f msg s) = (t, m, d)" by (metis prod_cases3)
    then show ?thesis using Cons.IH [OF t] Cons.prems Some by simp
  qed
qed simp

lemma strip_publish: "strip (fst (pubsub_publish fd args s)) = strip s"
  by (auto simp: pubsub_publish_def Let_def split: option.split prod.split dest: strip_publish_loop)

lemma strip_drop_client: "strip (drop_client fd s) = strip s"
  by (simp add: drop_client_def pubsub_cleanup_client_def Let_def strip_folds split: option.split)

section \<open>What a client sees\<close>

text \<open>SUBSCRIBE to fresh channels while there is room: exactly these channels are added.\<close>

lemma subscribe_loop_client:
  assumes "client_wf (client_of fd s)"
    "card (set (subscribed_channels (client_of fd s)) \<union> set chs) \<le> MAX_SUBSCRIPTIONS_PER_CLIENT"
  shows "set (subscribed_channels (client_of fd (subscribe_loop fd chs s))) =
      set (subscribed_channels (client_of fd s)) \<union> set chs"
    "f \<noteq> fd \<Longrightarrow> client_of f (subscribe_loop fd chs s) = client_of f s"
proof -
  let ?goal = "\<lambda>s chs. set (subscribed_channels (client_of fd (subscribe_loop fd chs s))) =
      set (subscribed_channels (client_of fd s)) \<union> set chs \<and>
      (f \<noteq> fd \<longrightarrow> client_of f (subscribe_loop fd chs s) = client_of f s)"
  have "?goal s chs" using assms
  proof (induction chs arbitrary: s)
    case (Cons ch chs)
    let ?subs = "subscribed_channels (client_of fd s)"
    have len: "length ?subs = card (set ?subs)" using Cons.prems(1) by (simp add: client_wf_def oset_def distinct_card)
    have "card (insert ch (set ?subs)) \<le> card (set ?subs \<union> set (ch # chs))" by (rule card_mono) auto
    then have room: "ch \<in> set ?subs \<or> length ?subs < MAX_SUBSCRIPTIONS_PER_CLIENT"
      using Cons.prems(2) len by (cases "ch \<in> set ?subs") auto
    then have step: "\<not> (\<not> set_contains ch ?subs \<and> MAX_SUBSCRIPTIONS_PER_CLIENT \<le> length ?subs)"
      by (auto simp: set_contains_def)
    let ?c = "(client_of fd s)\<lparr>is_subscriber := True, subscribed_channels := set_insert ch ?subs\<rparr>"
    have wf: "client_wf ?c"
      using Cons.prems(1) room by (cases "ch \<in> set ?subs") (auto simp: client_wf_def length_set_insert)
    have eq: "set ?subs \<union> set (ch # chs) = insert ch (set ?subs) \<union> set chs" by auto
    show ?case
      using step wf Cons.prems(2) Cons.IH unfolding eq by (auto simp: Let_def)
  qed simp
  then show "set (subscribed_channels (client_of fd (subscribe_loop fd chs s))) =
      set (subscribed_channels (client_of fd s)) \<union> set chs"
    "f \<noteq> fd \<Longrightarrow> client_of f (subscribe_loop fd chs s) = client_of f s" by blast+
qed

lemma unsubscribe_one_client:
  "client_of fd (unsubscribe_one fd ch s) = (client_of fd s)\<lparr>
      subscribed_channels := set_erase ch (subscribed_channels (client_of fd s)),
      is_subscriber := (set_erase ch (subscribed_channels (client_of fd s)) \<noteq> [] \<and> is_subscriber (client_of fd s))\<rparr>"
  by (cases "client_of fd s") (simp add: unsubscribe_one_def Let_def)

lemma unsubscribe_fold_client:
  assumes "subscribed_channels (client_of fd s) = chs" "chs \<noteq> []" "distinct chs"
  shows "client_of fd (fold (unsubscribe_one fd) chs s) =
    (client_of fd s)\<lparr>subscribed_channels := [], is_subscriber := False\<rparr>"
  using assms
proof (induction chs arbitrary: s)
  case (Cons ch chs)
  have er: "set_erase ch (ch # chs) = chs" by (simp add: set_erase_def)
  show ?case
  proof (cases "chs = []")
    case True
    then show ?thesis using Cons.prems unsubscribe_one_client [of fd ch s] er by simp
  next
    case False
    then show ?thesis
      using Cons.prems unsubscribe_one_client [of fd ch s] er Cons.IH [of "unsubscribe_one fd ch s"] by simp
  qed
qed simp

lemma unsubscribe_all_client:
  assumes "client_wf (client_of fd s)"
  shows "client_of fd (pubsub_unsubscribe fd [cmd] s) =
    (client_of fd s)\<lparr>subscribed_channels := [], is_subscriber := False\<rparr>"
proof (cases "subscribed_channels (client_of fd s) = []")
  case True
  then have "\<not> is_subscriber (client_of fd s)" using assms by (simp add: client_wf_def)
  with True show ?thesis by (cases "client_of fd s") (simp add: pubsub_unsubscribe_def Let_def)
next
  case False
  have "distinct (subscribed_channels (client_of fd s))" using assms by (simp add: client_wf_def oset_def)
  with False show ?thesis
    using unsubscribe_fold_client [of fd "upd_client fd id s"] by (simp add: pubsub_unsubscribe_def Let_def)
qed

section \<open>Properties\<close>

lemma publish_inv_all: "pubsub_inv s \<Longrightarrow> pubsub_inv (fst (pubsub_publish fd args s))"
proof (cases "3 \<le> length args")
  case True
  assume "pubsub_inv s"
  then show ?thesis using pubsub_publish_ok [OF _ True, of s fd] by (simp add: pubsub_inv_def client_of_def channel_of_def)
qed (simp add: pubsub_publish_def)

text \<open>
  \<^bold>\<open>C29\<close>. Subscribing, unsubscribing, publishing and dropping a client keep the two
  directions of the subscription relation in agreement (a client is in the set of a channel exactly if
  the channel is in the set of the client), both kinds of sets sorted without duplicates, the flag
  \<open>is_subscriber\<close> equal to having a channel, and at most 128 channels per client.
\<close>

theorem subscriptions_consistent:
  assumes "pubsub_inv s"
  shows "pubsub_inv (pubsub_subscribe fd args s) \<and> pubsub_inv (pubsub_unsubscribe fd args s) \<and>
    pubsub_inv (fst (pubsub_publish fd args s)) \<and> pubsub_inv (drop_client fd s)"
  using pubsub_subscribe_inv [OF assms] pubsub_unsubscribe_inv [OF assms] publish_inv_all [OF assms]
    drop_client_inv [OF assms] by blast

lemma pubsub_inv_init:
  "clients_map s = Map.empty \<Longrightarrow> channels_subscribers s = Map.empty \<Longrightarrow> pubsub_inv s"
  by (simp add: pubsub_inv_def client_of_def channel_of_def) (simp add: new_client_def)

definition empty_pubsub :: pubsub_state where
  "empty_pubsub = \<lparr>kv_store = Map.empty, heap = Map.empty, next_addr = 0, HEAD = None, TAIL = None, lru_size = 0,
     current_memory_usage = 0, out = [], clock = (\<lambda>_. 0), ticks = 0, clients_map = Map.empty, channels_subscribers = Map.empty\<rparr>"

lemma pubsub_inv_empty: "pubsub_inv empty_pubsub"
  by (rule pubsub_inv_init) (simp_all add: empty_pubsub_def)

theorem subscriptions_consistent_witness:
  "pubsub_inv (pubsub_subscribe 5 [''SUBSCRIBE'', ''c''] empty_pubsub)"
  using subscriptions_consistent [OF pubsub_inv_empty] by blast

text \<open>
  \<^bold>\<open>C30\<close>. PUBLISH sends the message once to every connected client subscribed to
  the channel and to no other, in ascending order of descriptors, changes nothing else, and counts the
  recipients.
\<close>

theorem publish_reaches_subscribers:
  assumes "pubsub_inv s" "3 \<le> length args"
  shows "\<exists>fds. pubsub_publish fd args s =
      (s\<lparr>out := out s @ map (\<lambda>f. (f, publish_message (args ! 1) (args ! 2))) fds\<rparr>, length fds) \<and>
    sorted fds \<and> distinct fds \<and>
    set fds = {f. \<exists>c. clients_map s f = Some c \<and> args ! 1 \<in> set (subscribed_channels c)}"
  using pubsub_publish_ok [OF assms] publish_recipients [OF assms(1)] by (auto simp: oset_def)

theorem publish_reaches_subscribers_witness:
  "\<exists>fds. pubsub_publish 6 [''PUBLISH'', ''c'', ''m''] (pubsub_subscribe 5 [''SUBSCRIBE'', ''c''] empty_pubsub) =
     ((pubsub_subscribe 5 [''SUBSCRIBE'', ''c''] empty_pubsub)\<lparr>out :=
        out (pubsub_subscribe 5 [''SUBSCRIBE'', ''c''] empty_pubsub) @ map (\<lambda>f. (f, publish_message ''c'' ''m'')) fds\<rparr>, length fds)"
  using publish_reaches_subscribers [OF pubsub_subscribe_inv [OF pubsub_inv_empty], of "[''PUBLISH'', ''c'', ''m'']" 6 5 "[''SUBSCRIBE'', ''c'']"]
  by fastforce

text \<open>
  \<^bold>\<open>C31\<close>. A client below the limit is subscribed to exactly its old and the named
  channels, other clients are not touched, and UNSUBSCRIBE without arguments then leaves it without a
  channel and out of the subscriber mode, whatever it was subscribed to.
\<close>

theorem subscribe_then_unsubscribe:
  assumes "pubsub_inv s" "card (set (subscribed_channels (client_of fd s)) \<union> set chs) \<le> MAX_SUBSCRIPTIONS_PER_CLIENT"
  shows "set (subscribed_channels (client_of fd (pubsub_subscribe fd (cmd # chs) s))) =
      set (subscribed_channels (client_of fd s)) \<union> set chs \<and>
    (\<forall>f. f \<noteq> fd \<longrightarrow> client_of f (pubsub_subscribe fd (cmd # chs) s) = client_of f s) \<and>
    client_of fd (pubsub_unsubscribe fd [cmd'] (pubsub_subscribe fd (cmd # chs) s)) =
      (client_of fd (pubsub_subscribe fd (cmd # chs) s))\<lparr>subscribed_channels := [], is_subscriber := False\<rparr>"
proof -
  have "client_wf (client_of fd s)" using assms(1) by (simp add: pubsub_inv_def)
  moreover have "client_wf (client_of fd (pubsub_subscribe fd (cmd # chs) s))"
    using pubsub_subscribe_inv [OF assms(1)] by (simp add: pubsub_inv_def)
  ultimately show ?thesis using subscribe_loop_client [OF _ assms(2)] unsubscribe_all_client
    by (auto simp: pubsub_subscribe_def)
qed

theorem subscribe_then_unsubscribe_witness:
  "set (subscribed_channels (client_of 5 (pubsub_subscribe 5 (''SUBSCRIBE'' # [''c'', ''d'']) empty_pubsub))) = {''c'', ''d''}"
proof -
  have "subscribed_channels (client_of 5 empty_pubsub) = []" by (simp add: client_of_def empty_pubsub_def new_client_def)
  with subscribe_then_unsubscribe [OF pubsub_inv_empty, of 5 "[''c'', ''d'']" "''SUBSCRIBE''"] show ?thesis
    by (simp add: MAX_SUBSCRIPTIONS_PER_CLIENT_def)
qed

text \<open>
  \<^bold>\<open>C32\<close>. When a client hangs up, its descriptor leaves every channel and the client
  table, and every other client and subscription stays as it is: a descriptor that is used again does
  not inherit messages.
\<close>

theorem hangup_forgets_client:
  assumes "pubsub_inv s"
  shows "clients_map (drop_client fd s) = (clients_map s)(fd := None) \<and>
    (\<forall>ch. set (channel_of ch (drop_client fd s)) = set (channel_of ch s) - {fd})"
proof -
  have "clients_map (drop_client fd s) = (clients_map s)(fd := None)"
    by (auto simp: drop_client_def pubsub_cleanup_client_def Let_def cleanup_clients split: option.split)
  moreover have "oset (channel_of ch s)" for ch using assms by (simp add: pubsub_inv_def)
  ultimately show ?thesis using drop_client_view(2) [OF assms] by simp
qed

theorem hangup_forgets_client_witness:
  "clients_map (drop_client 5 (pubsub_subscribe 5 [''SUBSCRIBE'', ''c''] empty_pubsub)) 5 = None"
  using hangup_forgets_client [OF pubsub_subscribe_inv [OF pubsub_inv_empty], of 5 5 "[''SUBSCRIBE'', ''c'']"] by simp

end
