(* ===== verification/Aof.thy ===== *)
theory Aof
  imports Druta_Db
begin

text \<open>
  The append-only file (aof.cpp). The file on disk and the buffer of the output stream are two strings;
  \<open>spill\<close> says how much of the buffer the stream writes out by itself at each insertion. \<open>steady\<close> gives
  the readings of the monotonic clock in nanoseconds and \<open>fs_ok\<close> the outcome of opening, testing and
  renaming files; both are arbitrary. The walk over the LRU list in \<open>rewrite_aof\<close> is a
  \<open>partial_function\<close>, so that not ending is the value \<open>None\<close>.
\<close>

section \<open>Which commands are logged\<close>

text \<open>\<open>std::lower_bound\<close> and \<open>std::binary_search\<close> of libstdc++ on an array.\<close>

function lower_bound :: "'a::linorder list \<Rightarrow> 'a \<Rightarrow> nat \<Rightarrow> nat \<Rightarrow> nat" where
  "lower_bound xs v first len =
     (if len = 0 then first
      else let half = len div 2; middle = first + half in
        if xs ! middle < v then lower_bound xs v (Suc middle) (len - half - 1)
        else lower_bound xs v first half)"
  by pat_completeness auto
termination
  by (relation "measure (\<lambda>(_, _, _, len). len)") auto

declare lower_bound.simps [simp del]

definition binary_search :: "'a::linorder list \<Rightarrow> 'a \<Rightarrow> bool" where
  "binary_search xs v = (let i = lower_bound xs v 0 (length xs) in i \<noteq> length xs \<and> \<not> v < xs ! i)"

definition aof_commands :: "string list" where
  "aof_commands = [''DEL'', ''HDEL'', ''HSET'', ''LPOP'', ''LPUSH'', ''RPOP'', ''RPUSH'', ''SADD'', ''SDEL'', ''SET'']"

definition is_valid :: "string \<Rightarrow> bool" where
  "is_valid cmd = binary_search aof_commands cmd"

lemma lower_bound_ok:
  assumes "sorted xs" "first + len \<le> length xs"
    "\<forall>i<first. xs ! i < v" "\<forall>i. first + len \<le> i \<and> i < length xs \<longrightarrow> v \<le> xs ! i"
  shows "lower_bound xs v first len \<le> length xs \<and> (\<forall>i<lower_bound xs v first len. xs ! i < v) \<and>
    (\<forall>i. lower_bound xs v first len \<le> i \<and> i < length xs \<longrightarrow> v \<le> xs ! i)"
  using assms
proof (induction xs v first len rule: lower_bound.induct)
  case (1 xs v first len)
  show ?case
  proof (cases "len = 0")
    case True
    then have "lower_bound xs v first len = first" by (subst lower_bound.simps) simp
    then show ?thesis using 1(4-6) True by simp
  next
    case False
    let ?h = "len div 2" let ?m = "first + ?h"
    have m: "?m < length xs" using False 1(4) by linarith
    show ?thesis
    proof (cases "xs ! ?m < v")
      case True
      have "\<forall>i<Suc ?m. xs ! i < v"
      proof (intro allI impI)
        fix i assume "i < Suc ?m"
        then have "xs ! i \<le> xs ! ?m" using sorted_nth_mono [OF 1(3), of i ?m] m by simp
        then show "xs ! i < v" using True by simp
      qed
      moreover have "Suc ?m + (len - ?h - 1) = first + len" using False by linarith
      moreover have "lower_bound xs v first len = lower_bound xs v (Suc ?m) (len - ?h - 1)"
        using False True by (subst lower_bound.simps) (simp add: Let_def)
      ultimately show ?thesis using 1(1) [OF False refl refl True 1(3)] 1(4,6) by simp
    next
      case ge: False
      have up: "\<forall>i. first + ?h \<le> i \<and> i < length xs \<longrightarrow> v \<le> xs ! i"
      proof (intro allI impI)
        fix i assume "first + ?h \<le> i \<and> i < length xs"
        then have "xs ! ?m \<le> xs ! i" using sorted_nth_mono [OF 1(3), of ?m i] by simp
        then show "v \<le> xs ! i" using ge by simp
      qed
      have eq: "lower_bound xs v first len = lower_bound xs v first ?h"
        using False ge by (subst lower_bound.simps) (simp add: Let_def)
      show ?thesis unfolding eq by (rule 1(2) [OF False refl refl ge 1(3) less_imp_le [OF m] 1(5) up])
    qed
  qed
qed

lemma binary_search_ok:
  assumes "sorted xs"
  shows "binary_search xs v \<longleftrightarrow> v \<in> set xs"
proof -
  let ?i = "lower_bound xs v 0 (length xs)"
  have i: "?i \<le> length xs" "\<forall>j<?i. xs ! j < v" "\<forall>j. ?i \<le> j \<and> j < length xs \<longrightarrow> v \<le> xs ! j"
    using lower_bound_ok [of xs 0 "length xs" v] assms by fastforce+
  show ?thesis
  proof
    assume "binary_search xs v"
    then have "?i < length xs" "xs ! ?i \<le> v" using i(1) by (auto simp: binary_search_def Let_def)
    moreover from this have "v \<le> xs ! ?i" using i(3) by simp
    ultimately show "v \<in> set xs" by (metis antisym nth_mem)
  next
    assume "v \<in> set xs"
    then obtain j where j: "j < length xs" "xs ! j = v" by (metis in_set_conv_nth)
    then have "?i \<le> j" using i(2) by (metis less_irrefl not_le)
    then have "?i < length xs" "xs ! ?i \<le> v" using j sorted_nth_mono [OF assms, of ?i j] by simp_all
    then show "binary_search xs v" by (auto simp: binary_search_def Let_def)
  qed
qed

lemma is_valid_iff: "is_valid cmd \<longleftrightarrow> cmd \<in> set aof_commands"
proof -
  have "sorted aof_commands" by code_simp
  then show ?thesis by (simp add: is_valid_def binary_search_ok)
qed

section \<open>The file\<close>

definition REWRITE_THRESHOLD :: nat where
  "REWRITE_THRESHOLD = 10 * 1024"

definition steady_now :: "('z) server_scheme \<Rightarrow> int \<times> ('z) server_scheme" where
  "steady_now s = (steady s (steady_ticks s), s\<lparr>steady_ticks := Suc (steady_ticks s)\<rparr>)"

definition fs_try :: "('z) server_scheme \<Rightarrow> bool \<times> ('z) server_scheme" where
  "fs_try s = (fs_ok s (fs_ticks s), s\<lparr>fs_ticks := Suc (fs_ticks s)\<rparr>)"

text \<open>\<open>aof_file << resp\<close>: into the buffer, of which the stream may write out a prefix.\<close>

definition aof_write :: "string \<Rightarrow> ('z) server_scheme \<Rightarrow> ('z) server_scheme" where
  "aof_write resp s = (let p = aof_pending s @ resp; n = spill s (spill_ticks s) in
     s\<lparr>aof_disk := aof_disk s @ take n p, aof_pending := drop n p, spill_ticks := Suc (spill_ticks s)\<rparr>)"

definition aof_flush :: "('z) server_scheme \<Rightarrow> ('z) server_scheme" where
  "aof_flush s = s\<lparr>aof_disk := aof_disk s @ aof_pending s, aof_pending := []\<rparr>"

definition aof_close :: "('z) server_scheme \<Rightarrow> ('z) server_scheme" where
  "aof_close s = (if aof_open s then (aof_flush s)\<lparr>aof_open := False\<rparr> else s)"

definition aof_reopen :: "('z) server_scheme \<Rightarrow> ('z) server_scheme" where
  "aof_reopen s = (case fs_try s of (ok, s1) \<Rightarrow> s1\<lparr>aof_open := ok\<rparr>)"

text \<open>\<open>format_resp_command\<close> with its size estimate. \<open>estimated_size += arg.size() + 16\<close> adds as \<open>size_t\<close> and
  converts back to \<open>int\<close>; the final \<open>estimated_size + 64\<close> is an addition of \<open>int\<close>s, which may overflow, and
  is widened for \<open>reserve\<close>.\<close>

definition estimated_size :: "string list \<Rightarrow> 32 word" where
  "estimated_size args = fold (\<lambda>arg n. n + of_nat (length arg + 16)) args 16"

definition format_command :: "string list \<Rightarrow> string res" where
  "format_command args =
     (if 2 ^ 31 - 64 \<le> sint (estimated_size args) then Inl Signed_overflow
      else rbind (reserve (scast (estimated_size args + 64))) (\<lambda>_. Inr (format_resp_command args)))"

definition append_to_aof :: "string list \<Rightarrow> ('z) server_scheme \<Rightarrow> ('z) server_scheme res" where
  "append_to_aof args s =
     (if args = [] then Inr s
      else if \<not> is_valid (toupper (hd args)) then Inr s
      else rbind (format_command args) (\<lambda>resp. Inr (if aof_open s then aof_write resp s else s)))"

definition flush_aof :: "('z) server_scheme \<Rightarrow> ('z) server_scheme" where
  "flush_aof s =
     (let s0 = (case last_flush s of
            Some t \<Rightarrow> s
          | None \<Rightarrow> (case steady_now s of (t, s') \<Rightarrow> s'\<lparr>last_flush := Some t\<rparr>));
          (now, s1) = steady_now s0;
          elapsed = (now - the (last_flush s0)) div 10 ^ 6
      in if 1000 \<le> elapsed \<and> aof_open s1 then (aof_flush s1)\<lparr>last_flush := Some now\<rparr> else s1)"

section \<open>Rewriting\<close>

text \<open>The command that recreates a node, \<open>None\<close> for an expired or empty one.\<close>

definition entry_command :: "int \<Rightarrow> DrutaNode \<Rightarrow> string list option res" where
  "entry_command current_time cur =
     (let key = node_key cur; value = node_value cur in
      if 0 < expiry_time value \<and> expiry_time value < current_time then Inr None
      else case vtype value of
        STRING \<Rightarrow> rbind (get_string value) (\<lambda>str_data.
          Inr (Some ([''SET'', key, str_data] @
            (if 0 < expiry_time value then [''PXAT'', to_string_int (expiry_time value)] else []))))
      | LIST \<Rightarrow> rbind (get_list value) (\<lambda>list_data.
          Inr (if list_data \<noteq> [] then Some ([''RPUSH'', key] @ list_data) else None))
      | HASH \<Rightarrow> rbind (get_dhash value) (\<lambda>hash. rbind (hash_size hash) (\<lambda>n.
          if 0 < n
          then rbind (if htype hash = VECTOR then get_vec hash else get_map hash) (\<lambda>es.
            Inr (Some ([''HSET'', key] @ concat (map (\<lambda>p. [chars (fst p), chars (snd p)]) es))))
          else Inr None))
      | SET \<Rightarrow> rbind (get_set value) (\<lambda>set_data.
          Inr (if set_data \<noteq> [] then Some ([''SADD'', key] @ set_data) else None)))"

definition node_text :: "int \<Rightarrow> DrutaNode \<Rightarrow> string res" where
  "node_text now n = rbind (entry_command now n) (\<lambda>r. case r of
     None \<Rightarrow> Inr [] | Some cmd \<Rightarrow> format_command cmd)"

partial_function (option) rewrite_walk :: "int \<Rightarrow> (addr \<rightharpoonup> DrutaNode) \<Rightarrow> addr option \<Rightarrow> string \<Rightarrow> string res option" where
  "rewrite_walk now h cur acc = (case cur of
     None \<Rightarrow> Some (Inr acc)
   | Some a \<Rightarrow> (case h a of
       None \<Rightarrow> Some (Inl Use_after_free)
     | Some n \<Rightarrow> (case node_text now n of
         Inl e \<Rightarrow> Some (Inl e)
       | Inr txt \<Rightarrow> rewrite_walk now h (next_ptr n) (acc @ txt))))"

definition rewrite_aof :: "('z) server_scheme \<Rightarrow> ('z) server_scheme res" where
  "rewrite_aof s =
     (case fs_try s of (temp_open, s1) \<Rightarrow>
      if \<not> temp_open then Inr s1
      else case get_current_time_ms s1 of (current_time, s2) \<Rightarrow>
        (case rewrite_walk current_time (heap s2) (TAIL s2) [] of
           None \<Rightarrow> Inl Divergence
         | Some (Inl e) \<Rightarrow> Inl e
         | Some (Inr txt) \<Rightarrow>
             (case fs_try (aof_close s2) of (renamed, s3) \<Rightarrow>
              if renamed
              then Inr ((aof_reopen (s3\<lparr>aof_disk := txt\<rparr>))\<lparr>last_rewrite_size := length txt\<rparr>)
              else Inr (aof_reopen s3))))"

definition check_and_rewrite_aof :: "('z) server_scheme \<Rightarrow> ('z) server_scheme res" where
  "check_and_rewrite_aof s =
     (let s0 = (case last_size_check s of
            Some t \<Rightarrow> s
          | None \<Rightarrow> (case steady_now s of (t, s') \<Rightarrow> s'\<lparr>last_size_check := Some t\<rparr>));
          (now, s1) = steady_now s0;
          elapsed = (now - the (last_size_check s0)) div 10 ^ 9
      in if elapsed < 5 then Inr s1
         else case fs_try (s1\<lparr>last_size_check := Some now\<rparr>) of (present, s2) \<Rightarrow>
           if present \<and> REWRITE_THRESHOLD < length (aof_disk s2) \<and> last_rewrite_size s2 * 2 < length (aof_disk s2)
           then rewrite_aof s2 else Inr s2)"

definition flush_clear_aof :: "('z) server_scheme \<Rightarrow> ('z) server_scheme" where
  "flush_clear_aof s =
     (case fs_try (aof_close s) of (ok, s1) \<Rightarrow>
      aof_reopen (if ok then s1\<lparr>aof_disk := []\<rparr> else s1))"

text \<open>\<open>replay_aof\<close>: \<open>h\<close> is \<open>handle_command\<close> for the descriptor -1. The length passes through an \<open>int\<close>.\<close>

definition replay_aof :: "(string list \<Rightarrow> ('z) server_scheme \<Rightarrow> ('z) server_scheme res) \<Rightarrow> ('z) server_scheme \<Rightarrow> ('z) server_scheme res" where
  "replay_aof h s =
     (case fs_try s of (file_open, s1) \<Rightarrow>
      if \<not> file_open then Inr s1
      else
        let buf = aof_disk s1 in
        rbind (parse_and_execute h (take (nat (to_int32 (length buf))) buf) (init_parser, s1)) (\<lambda>(p, s2).
        let s3 = s2\<lparr>last_rewrite_size := length (aof_disk s2)\<rparr> in
        if REWRITE_THRESHOLD < last_rewrite_size s3
        then rbind (rewrite_aof s3) (\<lambda>s4. Inr (s4\<lparr>last_rewrite_size := length (aof_disk s4)\<rparr>))
        else Inr s3))"

section \<open>Frames\<close>

text \<open>The file operations touch neither the store nor clients and channels.\<close>

definition core :: "('z) server_scheme \<Rightarrow> ('z) server_scheme" where
  "core s = s\<lparr>ticks := 0, aof_open := False, aof_disk := [], aof_pending := [], last_rewrite_size := 0,
     last_size_check := None, last_flush := None, steady_ticks := 0, spill_ticks := 0, fs_ticks := 0\<rparr>"

lemma core_db [simp]: "db_safe (core s) c = db_safe s c" "db_inv (core s) c = db_inv s c"
  by (simp_all add: core_def db_safe_def db_inv_def lru_inv_def lru_repr_def linked_def)

lemma core_fields [simp]:
  "clients_map (core s) = clients_map s" "channels_subscribers (core s) = channels_subscribers s"
  "out (core s) = out s" "clock (core s) = clock s" "kv_store (core s) = kv_store s" "heap (core s) = heap s"
  by (simp_all add: core_def)

lemma core_eqD:
  assumes "core s' = core s"
  shows "db_safe s' c = db_safe s c" "db_inv s' c = db_inv s c" "clients_map s' = clients_map s"
    "channels_subscribers s' = channels_subscribers s" "out s' = out s" "clock s' = clock s"
proof -
  show "db_safe s' c = db_safe s c" "db_inv s' c = db_inv s c"
    using core_db [of s' c] core_db [of s c] assms by simp_all
  show "clients_map s' = clients_map s" "channels_subscribers s' = channels_subscribers s"
    "out s' = out s" "clock s' = clock s"
    using core_fields [of s'] core_fields [of s] assms by metis+
qed

lemma core_steps [simp]:
  "core (aof_write resp s) = core s" "core (aof_flush s) = core s" "core (aof_close s) = core s"
  "core (aof_reopen s) = core s" "core (s\<lparr>aof_disk := d\<rparr>) = core s" "core (s\<lparr>last_rewrite_size := n\<rparr>) = core s"
  "core (s\<lparr>last_size_check := t\<rparr>) = core s" "core (s\<lparr>last_flush := t\<rparr>) = core s"
  "core (s\<lparr>steady_ticks := i\<rparr>) = core s" "core (s\<lparr>fs_ticks := i\<rparr>) = core s" "core (s\<lparr>ticks := i\<rparr>) = core s"
  "core (flush_clear_aof s) = core s" "core (flush_aof s) = core s"
  by (simp_all add: core_def aof_write_def aof_flush_def aof_close_def aof_reopen_def fs_try_def steady_now_def
      flush_clear_aof_def flush_aof_def Let_def split: option.split)

lemma append_core: "append_to_aof args s = Inr s' \<Longrightarrow> core s' = core s"
  by (auto simp: append_to_aof_def split: if_splits)

lemma rewrite_core: "rewrite_aof s = Inr s' \<Longrightarrow> core s' = core s"
  by (auto simp: rewrite_aof_def fs_try_def get_current_time_ms_def split: if_splits option.splits sum.splits)

lemma check_core: "check_and_rewrite_aof s = Inr s' \<Longrightarrow> core s' = core s"
  by (auto simp: check_and_rewrite_aof_def fs_try_def steady_now_def Let_def dest!: rewrite_core
      split: if_splits option.splits)

section \<open>What the log holds\<close>

text \<open>The bytes that reach the disk once the buffer is flushed.\<close>

definition aof_log :: "('z) server_scheme \<Rightarrow> string" where
  "aof_log s = aof_disk s @ aof_pending s"

lemma aof_log_steps [simp]:
  "aof_log (aof_write resp s) = aof_log s @ resp" "aof_log (aof_flush s) = aof_log s"
  "aof_log (aof_close s) = aof_log s" "aof_log (aof_reopen s) = aof_log s"
  by (simp_all add: aof_log_def aof_write_def aof_flush_def aof_close_def aof_reopen_def fs_try_def Let_def
      del: take_append drop_append)

lemma flush_aof_log: "aof_log (flush_aof s) = aof_log s"
  by (auto simp: aof_log_def flush_aof_def aof_flush_def steady_now_def Let_def split: option.split)

text \<open>The flush every second: what was pending is on disk.\<close>

lemma flush_aof_elapsed:
  assumes "last_flush s = Some t" "1000 * 10 ^ 6 \<le> steady s (steady_ticks s) - t" "aof_open s"
  shows "aof_disk (flush_aof s) = aof_log s" "aof_pending (flush_aof s) = []"
    "last_flush (flush_aof s) = Some (steady s (steady_ticks s))"
proof -
  have "1000 \<le> (steady s (steady_ticks s) - t) div 10 ^ 6" using zdiv_mono1 [OF assms(2), of "10 ^ 6"] by simp
  then show "aof_disk (flush_aof s) = aof_log s" "aof_pending (flush_aof s) = []"
    "last_flush (flush_aof s) = Some (steady s (steady_ticks s))"
    using assms(1,3) by (simp_all add: flush_aof_def steady_now_def aof_flush_def aof_log_def)
qed

lemma estimated_size_eq: "estimated_size args = of_nat (16 + sum_list (map (\<lambda>a. length a + 16) args))"
proof -
  have "fold (\<lambda>arg n. n + of_nat (length arg + 16)) args n =
      n + of_nat (sum_list (map (\<lambda>a. length a + 16) args))" for n :: "32 word"
    by (induction args arbitrary: n) (simp_all add: ac_simps)
  then show ?thesis by (simp add: estimated_size_def)
qed

lemma format_command_ok:
  assumes "sum_list (map (\<lambda>a. length a + 16) args) + 80 < 2 ^ 31"
  shows "format_command args = Inr (format_resp_command args)"
proof -
  let ?n = "16 + sum_list (map (\<lambda>a. length a + 16) args) + 64"
  have "estimated_size args + 64 = of_nat ?n" by (simp add: estimated_size_eq)
  moreover have "?n < 2 ^ 31" using assms by simp
  ultimately have "(scast (estimated_size args + 64) :: size_t) = of_nat ?n"
    using scast_small [of ?n] by simp
  moreover have "unat (of_nat ?n :: size_t) = ?n" using assms by (intro unat_of_nat_size) simp
  moreover have "sint (estimated_size args) < 2 ^ 31 - 64"
    using assms to_int32_small [of "16 + sum_list (map (\<lambda>a. length a + 16) args)"] by (simp add: estimated_size_eq to_int32_def)
  ultimately show ?thesis using assms by (simp add: format_command_def reserve_def)
qed

lemma append_to_aof_ok:
  assumes "args \<noteq> []" "is_valid (toupper (hd args))" "aof_open s"
    "sum_list (map (\<lambda>a. length a + 16) args) + 80 < 2 ^ 31"
  shows "\<exists>s'. append_to_aof args s = Inr s' \<and> aof_log s' = aof_log s @ format_resp_command args \<and> aof_open s'"
  using assms by (simp add: append_to_aof_def format_command_ok) (simp add: aof_write_def Let_def)

section \<open>The rewritten file\<close>

lemma rewrite_walk_ok:
  assumes "dll h p as None" "\<forall>a\<in>set as. \<exists>n. h a = Some n \<and> node_text now n = Inr (f a)"
  shows "rewrite_walk now h (first_or None as) acc = Some (Inr (acc @ concat (map f as)))"
  using assms
proof (induction as arbitrary: p acc)
  case Nil
  then show ?case by (simp add: rewrite_walk.simps)
next
  case (Cons a as)
  obtain n where n: "h a = Some n" "next_ptr n = first_or None as" "dll h (Some a) as None"
    using Cons.prems(1) by (auto split: option.splits)
  moreover have "node_text now n = Inr (f a)" using Cons.prems(2) n(1) by auto
  ultimately show ?case using Cons.IH [OF n(3)] Cons.prems(2)
    by (simp add: rewrite_walk.simps [of _ _ "Some a"])
qed

text \<open>The same walk faults only if a command cannot be formatted; it always ends.\<close>

lemma rewrite_walk_total:
  assumes "dll h p as None" "\<forall>a\<in>set as. \<forall>n. h a = Some n \<longrightarrow> value_wf (node_value n)"
  shows "\<exists>r. rewrite_walk now h (first_or None as) acc = Some r \<and> (\<forall>e. r = Inl e \<longrightarrow> e \<in> command_faults)"
  using assms
proof (induction as arbitrary: p acc)
  case Nil
  then show ?case by (simp add: rewrite_walk.simps)
next
  case (Cons a as)
  obtain n where n: "h a = Some n" "next_ptr n = first_or None as" "dll h (Some a) as None"
    using Cons.prems(1) by (auto split: option.splits)
  have wf: "value_wf (node_value n)" using Cons.prems(2) n(1) by simp
  have "\<exists>r. entry_command now n = Inr r"
  proof (cases "vtype (node_value n)")
    case HASH
    then obtain h where h: "get_dhash (node_value n) = Inr h" "hash_wf h"
      using value_wf_getters(3) [OF wf] by blast
    have "\<exists>es. (if htype h = VECTOR then get_vec h else get_map h) = Inr es"
      using h(2) by (cases h rule: hash_wf_cases) simp_all
    with HASH h show ?thesis by (auto simp: entry_command_def Let_def hash_size_ok)
  qed (use value_wf_getters [OF wf] in \<open>auto simp: entry_command_def Let_def\<close>)
  then obtain r where r: "entry_command now n = Inr r" by blast
  show ?case
  proof (cases "node_text now n")
    case (Inl e)
    then have "e \<in> command_faults"
      using r by (auto simp: node_text_def format_command_def reserve_def rbind_eq_Inl split: option.splits if_splits)
    then show ?thesis using n Inl by (simp add: rewrite_walk.simps [of _ _ "Some a"])
  next
    case (Inr text1)
    then show ?thesis using n Cons.IH [OF n(3)] Cons.prems(2) by (simp add: rewrite_walk.simps [of _ _ "Some a"])
  qed
qed

lemma rewrite_aof_sound:
  assumes "db_safe s c"
  shows "(\<exists>s'. rewrite_aof s = Inr s' \<and> core s' = core s) \<or> (\<exists>e\<in>command_faults. rewrite_aof s = Inl e)"
proof -
  obtain as where r: "lru_repr s as c" and wf: "\<forall>e\<in>set c. value_wf (snd e)" using assms by (auto simp: db_safe_def)
  have "\<forall>a\<in>set as. \<forall>n. heap s a = Some n \<longrightarrow> value_wf (node_value n)"
  proof (intro ballI allI impI)
    fix a n assume "a \<in> set as" "heap s a = Some n"
    then have "(node_key n, node_value n) \<in> set c" using lru_repr_node [OF r] by (metis option.inject)
    then show "value_wf (node_value n)" using wf by fastforce
  qed
  moreover have "dll (heap s) None as None" "TAIL s = first_or None as" using lru_reprD(1) [OF r] by (simp_all add: linked_def)
  ultimately obtain w where w: "rewrite_walk (clock s (ticks s)) (heap s) (TAIL s) [] = Some w"
    "\<forall>e. w = Inl e \<longrightarrow> e \<in> command_faults"
    using rewrite_walk_total [of "heap s" None as "clock s (ticks s)" "[]"] by auto
  show ?thesis
  proof (cases w)
    case (Inl e)
    then show ?thesis using w by (auto simp: rewrite_aof_def fs_try_def get_current_time_ms_def)
  next
    case (Inr text1)
    then have "\<exists>s'. rewrite_aof s = Inr s'" using w
      by (auto simp: rewrite_aof_def fs_try_def get_current_time_ms_def split: if_splits)
    then show ?thesis using rewrite_core by blast
  qed
qed

section \<open>Properties\<close>

text \<open>A server with an empty store and an open log, one choice of clocks and stream, for examples.\<close>

definition empty_server :: "(nat \<Rightarrow> bool) \<Rightarrow> server" where
  "empty_server fso =
     \<lparr>kv_store = Map.empty, heap = Map.empty, next_addr = 0, HEAD = None, TAIL = None, lru_size = 0,
      current_memory_usage = 0, out = [], clock = (\<lambda>_. 0), ticks = 0, clients_map = Map.empty,
      channels_subscribers = Map.empty, aof_open = True, aof_disk = [], aof_pending = [],
      last_rewrite_size = 0, last_size_check = Some 0, last_flush = Some 0, steady = (\<lambda>i. 10 ^ 9 * int (Suc i)), steady_ticks = 0,
      spill = (\<lambda>_. 3), spill_ticks = 0, fs_ok = fso, fs_ticks = 0\<rparr>"

end
