(* ===== verification/Dispatch.thy ===== *)
theory Dispatch
  imports Cmd_Set Pubsub Aof
begin

text \<open>
  \<open>handle_command\<close> of commands.cpp: the mode check for subscribers, the dispatch on the command name and
  the number of arguments, and the append to the log after a successful write. The store commands
  follow one specification, \<open>exec_spec\<close>; the whole handler keeps the structural invariant
  \<open>server_safe\<close>, which makes it a \<open>request_handler\<close> for the parser.
\<close>

section \<open>Handlers\<close>

definition command_flushdb :: "int \<Rightarrow> string list \<Rightarrow> ('z) server_scheme \<Rightarrow> ('z) server_scheme \<times> bool" where
  "command_flushdb fd args s =
     (if length args < 2 \<or> args ! 1 \<noteq> ''--sure''
      then (send fd (''-ERR add --sure flag to flush db'' @ crlf) s, False)
      else (send fd (''+SUCCESS Database flushed'' @ crlf) (flush_clear_aof (kv_clear (clear_lru s))), True))"

definition command_subscribe :: "int \<Rightarrow> string list \<Rightarrow> ('z) pubsub_state_scheme \<Rightarrow> ('z) pubsub_state_scheme" where
  "command_subscribe fd args s = pubsub_subscribe fd args s"

definition command_unsubscribe :: "int \<Rightarrow> string list \<Rightarrow> ('z) pubsub_state_scheme \<Rightarrow> ('z) pubsub_state_scheme" where
  "command_unsubscribe fd args s = pubsub_unsubscribe fd args s"

definition command_publish :: "int \<Rightarrow> string list \<Rightarrow> ('z) pubsub_state_scheme \<Rightarrow> ('z) pubsub_state_scheme" where
  "command_publish fd args s =
     (case pubsub_publish fd args s of (s1, clients_affected) \<Rightarrow> send_integer fd (to_int32 clients_affected) s1)"

text \<open>The commands on the store, in the order of the source; \<open>other\<close> stands for the rest of the chain. A
  handler that returns nothing leaves \<open>success\<close> false.\<close>

definition void :: "'s res \<Rightarrow> ('s \<times> bool) res" where
  "void r = rbind r (\<lambda>s. Inr (s, False))"

definition store_command :: "int \<Rightarrow> string \<Rightarrow> string list \<Rightarrow> ('z) io_state_scheme \<Rightarrow>
    (('z) io_state_scheme \<times> bool) res \<Rightarrow> (('z) io_state_scheme \<times> bool) res" where
  "store_command fd cmd args s other =
     (if cmd = ''PING'' then Inr (command_ping fd s, False)
      else if cmd = ''ECHO'' \<and> 1 < length args then void (command_echo fd args s)
      else if cmd = ''SET'' \<and> 3 \<le> length args then command_set fd args s
      else if cmd = ''GET'' \<and> length args = 2 then command_get fd args s
      else if cmd = ''RPUSH'' \<and> 3 \<le> length args then command_rpush fd args s
      else if cmd = ''LPUSH'' \<and> 3 \<le> length args then command_lpush fd args s
      else if cmd = ''LRANGE'' \<and> length args = 4 then command_lrange fd args s
      else if cmd = ''LPOP'' \<and> 2 \<le> length args then command_lpop fd args s
      else if cmd = ''RPOP'' \<and> 2 \<le> length args then command_rpop fd args s
      else if cmd = ''DEL'' \<and> 2 \<le> length args then command_del fd args s
      else if cmd = ''LLEN'' \<and> length args = 2 then command_llen fd args s
      else if cmd = ''HSET'' \<and> 4 \<le> length args then command_hset fd args s
      else if cmd = ''HGET'' \<and> length args = 3 then command_hget fd args s
      else if cmd = ''HGETALL'' \<and> length args = 2 then command_hgetall fd args s
      else if cmd = ''HDEL'' \<and> 3 \<le> length args then command_hdel fd args s
      else if cmd = ''HLEN'' \<and> length args = 2 then command_hlen fd args s
      else if cmd = ''SADD'' \<and> 3 \<le> length args then command_sadd fd args s
      else if cmd = ''SCARD'' \<and> length args = 2 then command_scard fd args s
      else if cmd = ''SISMEMBER'' \<and> length args = 3 then command_sismember fd args s
      else if cmd = ''SMEMBERS'' \<and> length args = 2 then command_smembers fd args s
      else if cmd = ''SMISMEMBER'' \<and> 3 \<le> length args then command_smismember fd args s
      else if cmd = ''SINTER'' \<and> 2 \<le> length args then command_sinter fd args s
      else if cmd = ''SUNION'' \<and> 2 \<le> length args then command_sunion fd args s
      else if cmd = ''SDIFF'' \<and> 2 \<le> length args then command_sdiff fd args s
      else if cmd = ''SDEL'' \<and> 3 \<le> length args then command_sdel fd args s
      else if cmd = ''MEMSTATS'' then Inr (command_memstats fd s, False)
      else other)"

definition unknown_command :: "string \<Rightarrow> string" where
  "unknown_command cmd = ''-ERR unknown command or incorrect number of arguments for '' @ [CHR 0x27] @ cmd
     @ [CHR 0x27] @ crlf"

definition server_command :: "int \<Rightarrow> string \<Rightarrow> string list \<Rightarrow> ('z) server_scheme \<Rightarrow> ('z) server_scheme \<times> bool" where
  "server_command fd cmd args s =
     (if cmd = ''FLUSHDB'' then command_flushdb fd args s
      else if cmd = ''SUBSCRIBE'' \<and> 2 \<le> length args then (command_subscribe fd args s, False)
      else if cmd = ''UNSUBSCRIBE'' \<and> 1 \<le> length args then (command_unsubscribe fd args s, False)
      else if cmd = ''PUBLISH'' \<and> length args = 3 then (command_publish fd args s, False)
      else if cmd = ''COMMAND'' then (send fd empty_array s, False)
      else (send fd (unknown_command cmd) s, False))"

definition pubsub_mode_error :: string where
  "pubsub_mode_error = ''-ERR clients in pub/sub mode can only subscribe/unsubscribe/ping''"

definition handle_command :: "int \<Rightarrow> string list \<Rightarrow> ('z) server_scheme \<Rightarrow> ('z) server_scheme res" where
  "handle_command fd args s =
     rbind (arg args 0) (\<lambda>a0.
     let cmd = toupper a0; s0 = upd_client fd id s in
     if is_subscriber (client_of fd s0) \<and> cmd \<noteq> ''PING'' \<and> cmd \<noteq> ''SUBSCRIBE'' \<and> cmd \<noteq> ''UNSUBSCRIBE''
     then Inr (send fd pubsub_mode_error s0)
     else
       rbind (store_command fd cmd args s0 (Inr (server_command fd cmd args s0))) (\<lambda>(s1, success).
       if fd \<noteq> -1 \<and> success
       then rbind (append_to_aof args s1) check_and_rewrite_aof
       else Inr s1))"

section \<open>The store commands follow their specification\<close>

definition memstats_reply :: "nat \<Rightarrow> string" where
  "memstats_reply n = ''+Memory Usage: '' @ to_string n @ '' bytes'' @ crlf @ '' ''
     @ ''+Memory Limit: '' @ to_string LRU_MAX_MEMORY @ '' bytes'' @ crlf"

definition exec_spec :: "string \<Rightarrow> string list \<Rightarrow> ('z) io_state_scheme \<Rightarrow> cache \<Rightarrow> command_spec \<Rightarrow> command_spec" where
  "exec_spec cmd args s c other =
     (if cmd = ''PING'' then Inr (c, ''+PONG'' @ crlf, False)
      else if cmd = ''ECHO'' \<and> 1 < length args then Inr (c, bulk (args ! 1), False)
      else if cmd = ''SET'' \<and> 3 \<le> length args then set_command_spec args s c
      else if cmd = ''GET'' \<and> length args = 2 then get_spec (clock s (ticks s)) (args ! 1) c
      else if cmd = ''RPUSH'' \<and> 3 \<le> length args then push_spec False (args ! 1) (drop 2 args) c
      else if cmd = ''LPUSH'' \<and> 3 \<le> length args then push_spec True (args ! 1) (drop 2 args) c
      else if cmd = ''LRANGE'' \<and> length args = 4 then lrange_spec args c
      else if cmd = ''LPOP'' \<and> 2 \<le> length args then pop_spec True args c
      else if cmd = ''RPOP'' \<and> 2 \<le> length args then pop_spec False args c
      else if cmd = ''DEL'' \<and> 2 \<le> length args then del_spec (drop 1 args) c
      else if cmd = ''LLEN'' \<and> length args = 2 then llen_spec args c
      else if cmd = ''HSET'' \<and> 4 \<le> length args then hset_spec args c
      else if cmd = ''HGET'' \<and> length args = 3 then hget_spec args c
      else if cmd = ''HGETALL'' \<and> length args = 2 then hgetall_spec args c
      else if cmd = ''HDEL'' \<and> 3 \<le> length args then hdel_spec args c
      else if cmd = ''HLEN'' \<and> length args = 2 then hlen_spec args c
      else if cmd = ''SADD'' \<and> 3 \<le> length args then sadd_spec (args ! 1) (drop 2 args) c
      else if cmd = ''SCARD'' \<and> length args = 2 then scard_spec args c
      else if cmd = ''SISMEMBER'' \<and> length args = 3 then sismember_spec args c
      else if cmd = ''SMEMBERS'' \<and> length args = 2 then smembers_spec args c
      else if cmd = ''SMISMEMBER'' \<and> 3 \<le> length args then smismember_spec args c
      else if cmd = ''SINTER'' \<and> 2 \<le> length args then sinter_spec args c
      else if cmd = ''SUNION'' \<and> 2 \<le> length args then sunion_spec args c
      else if cmd = ''SDIFF'' \<and> 2 \<le> length args then sdiff_spec args c
      else if cmd = ''SDEL'' \<and> 3 \<le> length args then sdel_spec (args ! 1) (drop 2 args) c
      else if cmd = ''MEMSTATS'' then Inr (c, memstats_reply (cache_bytes c), False)
      else other)"

text \<open>The accounting of this request is exact: HDEL does not wrap a hash's counter, SADD stays within an
  \<open>int\<close>.\<close>

definition accounting_exact :: "string \<Rightarrow> string list \<Rightarrow> cache \<Rightarrow> bool" where
  "accounting_exact cmd args c = ((cmd = ''HDEL'' \<longrightarrow> hdel_exact args c) \<and>
     (cmd = ''SADD'' \<longrightarrow> sadd_exact (args ! 1) (drop 2 args) c))"

lemma meets_if:
  "(b \<Longrightarrow> meets I s x fd x') \<Longrightarrow> meets I s y fd y' \<Longrightarrow> meets I s (if b then x else y) fd (if b then x' else y')"
  by simp

lemma command_memstats_ok:
  assumes inv: "db_inv s c"
  shows "meets db_inv s (Inr (command_memstats fd s, False)) fd (Inr (c, memstats_reply (cache_bytes c), False))"
proof -
  have "cache_bytes c < 2 ^ 27" using inv by (rule db_invE)
  then have "unat (current_memory_usage s) = cache_bytes c"
    using inv unat_of_nat_size [of "cache_bytes c"] by (auto simp: db_inv_def lru_inv_def)
  then show ?thesis
    using exact.meets_send [OF refl inv] by (simp add: command_memstats_def memstats_reply_def del: meets_simps)
qed

lemma command_echo_ok:
  assumes "I s c" "1 < length args" "db_reader I"
  shows "meets I s (void (command_echo fd args s)) fd (Inr (c, bulk (args ! 1), False))"
  using assms db_reader.meets_send [OF assms(3) refl assms(1)]
  by (simp add: void_def command_echo_def bulk_def)

lemma store_command_ok:
  assumes inv: "db_inv s c" and args: "args_ok args" and ex: "accounting_exact cmd args c"
    and other: "meets db_inv s other fd other'"
  shows "meets db_inv s (store_command fd cmd args s other) fd (exec_spec cmd args s c other')"
proof -
  have hd: "cmd = ''HDEL'' \<Longrightarrow> hdel_exact args c" and sa: "cmd = ''SADD'' \<Longrightarrow> sadd_exact (args ! 1) (drop 2 args) c"
    using ex by (simp_all add: accounting_exact_def)
  have two: "3 \<le> length args \<Longrightarrow> 2 \<le> length args" by simp
  show ?thesis
    unfolding store_command_def exec_spec_def command_rpush_def command_lpush_def command_lpop_def
      command_rpop_def command_ping_def
    by (intro meets_if)
       (simp_all only: exact.meets_send [OF refl inv] command_echo_ok [OF inv _ exact.db_reader_axioms]
        command_set_ok [OF inv args] exact.get_ok [OF inv] generic_push_ok [OF inv args two] command_lrange_ok [OF inv]
        generic_pop_ok [OF inv] command_del_ok [OF inv] exact.llen_ok [OF inv] command_hset_ok [OF inv args]
        exact.hget_ok [OF inv] exact.hgetall_ok [OF inv] command_hdel_ok [OF inv hd] exact.hlen_ok [OF inv]
        command_sadd_ok [OF inv args two sa] exact.scard_ok [OF inv] exact.sismember_ok [OF inv]
        exact.smembers_ok [OF inv] exact.smismember_ok [OF inv] exact.sinter_ok [OF inv] exact.sunion_ok [OF inv]
        exact.sdiff_ok [OF inv] command_sdel_ok [OF inv two] command_memstats_ok [OF inv] other)
qed

section \<open>The structural invariant of the server\<close>

definition server_safe :: "('z) server_scheme \<Rightarrow> bool" where
  "server_safe s = ((\<exists>c. db_safe s c) \<and> pubsub_inv s)"

definition safe_step :: "('z) server_scheme \<Rightarrow> (('z) server_scheme \<times> bool) res \<Rightarrow> bool" where
  "safe_step s r = (case r of Inl e \<Rightarrow> e \<in> command_faults | Inr (s', b) \<Rightarrow> server_safe s')"

lemma more_frame:
  fixes s s' :: "('z) server_scheme"
  assumes "io_state.more s' = io_state.more s"
  shows "clients_map s' = clients_map s" "channels_subscribers s' = channels_subscribers s"
  using assms by (cases s; cases s'; simp)+

lemma pubsub_inv_cong:
  "clients_map s' = clients_map s \<Longrightarrow> channels_subscribers s' = channels_subscribers s \<Longrightarrow>
   pubsub_inv s' = pubsub_inv s"
  by (rule pubsub_inv_view) (simp_all add: client_of_def channel_of_def)

lemma sound_safe_step:
  assumes "pubsub_inv s" "sound s r"
  shows "safe_step s r"
proof (cases r)
  case (Inl e)
  then show ?thesis using assms(2) by (simp add: safe_step_def)
next
  case (Inr p)
  obtain s' b where p: "p = (s', b)" by (cases p)
  then have s': "\<exists>c. db_safe s' c" "io_state.more s' = io_state.more s" using assms(2) Inr by simp_all
  then show ?thesis
    using assms(1) pubsub_inv_cong [OF more_frame [OF s'(2)]] Inr p by (simp add: safe_step_def server_safe_def)
qed

lemma store_sound:
  assumes inv: "db_safe s c"
  shows "store_command fd cmd args s other = other \<or> sound s (store_command fd cmd args s other)"
proof -
  have two: "3 \<le> length args \<Longrightarrow> 2 \<le> length args" by simp
  have step: "(b \<Longrightarrow> sound s x) \<Longrightarrow> (y = other \<or> sound s y) \<Longrightarrow>
      ((if b then x else y) = other \<or> sound s (if b then x else y))" for b x y by simp
  have echo: "1 < length args \<Longrightarrow> sound s (void (command_echo fd args s))"
    by (rule meets_sound [OF command_echo_ok [OF inv _ structural.db_reader_axioms]]) simp_all
  have mem: "sound s (Inr (command_memstats fd s, False))"
    unfolding command_memstats_def by (rule sound_send [OF refl inv])
  show ?thesis
    unfolding store_command_def command_rpush_def command_lpush_def command_lpop_def command_rpop_def command_ping_def
    by (intro step)
       (simp_all only: sound_send [OF refl inv] echo command_set_sound [OF inv] command_get_sound [OF inv]
        generic_push_sound [OF inv two] command_lrange_sound [OF inv] generic_pop_sound [OF inv]
        command_del_sound [OF inv] command_llen_sound [OF inv] command_hset_sound [OF inv]
        hash_readers_sound [OF inv] command_hdel_sound [OF inv] command_sadd_sound [OF inv two]
        set_readers_sound [OF inv] command_sdel_sound [OF inv two] mem simp_thms)
qed

lemma strip_db:
  assumes "strip s' = strip s"
  shows "db_safe s' c = db_safe s c" "db_inv s' c = db_inv s c"
proof -
  have "db_safe (strip t) c = db_safe t c" "db_inv (strip t) c = db_inv t c" for t :: "('z) pubsub_state_scheme"
    by (simp_all add: strip_def db_safe_def db_inv_def lru_inv_def lru_repr_def linked_def)
  then show "db_safe s' c = db_safe s c" "db_inv s' c = db_inv s c" using assms by metis+
qed

lemma db_safe_empty: "db_safe (kv_clear (clear_lru s)) []" "db_inv (kv_clear (clear_lru s)) []"
  by (auto simp: db_safe_def db_inv_def lru_inv_def lru_repr_def linked_def kv_clear_def clear_lru_def kvs_def)

lemma pubsub_inv_out [simp]: "pubsub_inv (s\<lparr>out := x\<rparr>) = pubsub_inv s" "pubsub_inv (send fd msg s) = pubsub_inv s"
  by (rule pubsub_inv_cong; simp add: send_def sys_send_def)+

lemma publish_inv:
  assumes inv: "pubsub_inv s" and args: "length args = 3"
  shows "pubsub_inv (command_publish fd args s)"
  using assms by (simp add: command_publish_def pubsub_publish_ok send_integer_eq)

lemma strip_command_publish: "strip (command_publish fd args s) = strip s"
  using strip_publish [of fd args s] by (cases "pubsub_publish fd args s") (simp add: command_publish_def send_integer_eq)

lemma server_safeI: "strip s' = strip s \<Longrightarrow> server_safe s \<Longrightarrow> pubsub_inv s' \<Longrightarrow> server_safe s'"
  using strip_db(1) [of s' s] by (auto simp: server_safe_def)

lemma flushdb_safe:
  assumes "server_safe s"
  shows "server_safe (fst (command_flushdb fd args s))"
proof (cases "length args < 2 \<or> args ! 1 \<noteq> ''--sure''")
  case True
  then show ?thesis using server_safeI [of _ s] assms by (simp add: command_flushdb_def server_safe_def)
next
  case False
  let ?t = "flush_clear_aof (kv_clear (clear_lru s))"
  note core = core_eqD [OF core_steps(12), of "kv_clear (clear_lru s)"]
  have "db_safe ?t []" using core(1) db_safe_empty(1) by blast
  moreover have "pubsub_inv ?t"
    using assms core(3,4) pubsub_inv_cong [of ?t s] by (simp add: server_safe_def kv_clear_def clear_lru_def)
  ultimately show ?thesis using False by (auto simp: command_flushdb_def server_safe_def)
qed

lemma server_command_safe:
  assumes safe: "server_safe s"
  shows "server_safe (fst (server_command fd cmd args s))"
proof -
  have inv: "pubsub_inv s" using safe by (simp add: server_safe_def)
  have if_safe: "(b \<Longrightarrow> server_safe (fst x)) \<Longrightarrow> server_safe (fst y) \<Longrightarrow> server_safe (fst (if b then x else y))"
    for b and x y :: "('a) server_scheme \<times> bool" by simp
  show ?thesis
    unfolding server_command_def command_subscribe_def command_unsubscribe_def
    by (intro if_safe; (rule flushdb_safe [OF safe])?)
       (auto intro!: server_safeI [OF _ safe]
         simp: strip_subscribe strip_unsubscribe strip_command_publish pubsub_subscribe_inv pubsub_unsubscribe_inv
           publish_inv inv)
qed

lemma append_faults: "append_to_aof args s = Inl e \<Longrightarrow> e \<in> command_faults"
  by (auto simp: append_to_aof_def format_command_def reserve_def rbind_eq_Inl split: if_splits)

lemma server_safe_core: "core s' = core s \<Longrightarrow> server_safe s' = server_safe s"
  using core_eqD [of s' s] pubsub_inv_cong [of s' s] by (auto simp: server_safe_def)

lemma check_sound:
  assumes "server_safe s"
  shows "(\<exists>s'. check_and_rewrite_aof s = Inr s' \<and> server_safe s') \<or> (\<exists>e\<in>command_faults. check_and_rewrite_aof s = Inl e)"
proof (cases "check_and_rewrite_aof s")
  case (Inr s')
  then show ?thesis using server_safe_core [OF check_core [OF Inr]] assms by simp
next
  case (Inl e)
  then obtain t where t: "rewrite_aof t = Inl e" "core t = core s"
    by (auto simp: check_and_rewrite_aof_def steady_now_def fs_try_def Let_def split: if_splits option.splits)
  then have "\<exists>c. db_safe t c" using assms core_eqD(1) [OF t(2)] by (auto simp: server_safe_def)
  then show ?thesis using rewrite_aof_sound [of t] t(1) Inl by auto
qed

lemma handle_command_safe:
  assumes safe: "server_safe s" and args: "args \<noteq> []"
  shows "guarded command_faults server_safe (handle_command fd args s)"
proof -
  let ?s = "upd_client fd id s" and ?cmd = "toupper (args ! 0)"
  have safe0: "server_safe ?s" using safe by (intro server_safeI [OF _ safe]) (simp_all add: server_safe_def)
  then obtain c where c: "db_safe ?s c" "pubsub_inv ?s" by (auto simp: server_safe_def)
  let ?r = "store_command fd ?cmd args ?s (Inr (server_command fd ?cmd args ?s))"
  have "safe_step ?s (Inr (server_command fd ?cmd args ?s))"
    using server_command_safe [OF safe0, of fd ?cmd args] by (auto simp: safe_step_def split: prod.splits)
  then have "safe_step ?s ?r"
    using store_sound [OF c(1), of fd ?cmd args "Inr (server_command fd ?cmd args ?s)"] sound_safe_step [OF c(2)]
    by metis
  moreover have "server_safe (send fd pubsub_mode_error ?s)"
    using safe0 by (intro server_safeI [OF _ safe0]) (simp_all add: server_safe_def)
  moreover have "guarded command_faults server_safe (rbind (append_to_aof args t) check_and_rewrite_aof)" if "server_safe t" for t :: "('a) server_scheme"
  proof (cases "append_to_aof args t")
    case (Inl e)
    then show ?thesis using append_faults [OF Inl] by simp
  next
    case (Inr u)
    then have "server_safe u" using that server_safe_core [OF append_core [OF Inr]] by simp
    from check_sound [OF this] Inr show ?thesis by auto
  qed
  ultimately show ?thesis
    using args unfolding handle_command_def
    by (cases ?r) (auto simp: safe_step_def Let_def split: prod.splits)
qed

interpretation server: request_handler "handle_command fd" server_safe command_faults
  by unfold_locales (auto intro: handle_command_safe)

section \<open>Refinement of a request\<close>

definition server_names :: "string set" where
  "server_names = {''FLUSHDB'', ''SUBSCRIBE'', ''UNSUBSCRIBE'', ''PUBLISH'', ''COMMAND''}"

text \<open>The specification of a request on the store, wrong names and numbers of arguments included.\<close>

definition request_spec :: "string list \<Rightarrow> ('z) io_state_scheme \<Rightarrow> cache \<Rightarrow> command_spec" where
  "request_spec args s c = exec_spec (toupper (args ! 0)) args s c (Inr (c, unknown_command (toupper (args ! 0)), False))"

lemma server_command_unknown:
  "cmd \<notin> server_names \<Longrightarrow> server_command fd cmd args s = (send fd (unknown_command cmd) s, False)"
  by (simp add: server_names_def server_command_def)

definition logged :: "int \<Rightarrow> string list \<Rightarrow> ('z) server_scheme \<times> bool \<Rightarrow> ('z) server_scheme res" where
  "logged fd args = (\<lambda>(s, success).
     if fd \<noteq> -1 \<and> success then rbind (append_to_aof args s) check_and_rewrite_aof else Inr s)"

lemma handle_command_eq:
  assumes "args \<noteq> []" "\<not> is_subscriber (client_of fd s)" "toupper (args ! 0) \<notin> server_names"
  shows "handle_command fd args s =
    rbind (store_command fd (toupper (args ! 0)) args (upd_client fd id s)
      (Inr (send fd (unknown_command (toupper (args ! 0))) (upd_client fd id s), False))) (logged fd args)"
  using assms by (simp add: handle_command_def Let_def server_command_unknown logged_def)

lemma handle_command_meets:
  assumes inv: "db_inv s c" and args: "args_ok args" and cl: "\<not> is_subscriber (client_of fd s)"
    and name: "toupper (args ! 0) \<notin> server_names" and ex: "accounting_exact (toupper (args ! 0)) args c"
  shows "\<exists>r. meets db_inv (upd_client fd id s) r fd (request_spec args (upd_client fd id s) c) \<and>
    handle_command fd args s = rbind r (logged fd args)"
proof -
  let ?s = "upd_client fd id s" and ?cmd = "toupper (args ! 0)"
  have inv0: "db_inv ?s c" using strip_db(2) [of ?s s c] inv by simp
  have "meets db_inv ?s (Inr (send fd (unknown_command ?cmd) ?s, False)) fd (Inr (c, unknown_command ?cmd, False))"
    by (rule exact.meets_send [OF refl inv0])
  from store_command_ok [OF inv0 args ex this] have
    "meets db_inv ?s (store_command fd ?cmd args ?s (Inr (send fd (unknown_command ?cmd) ?s, False))) fd
      (request_spec args ?s c)" by (simp add: request_spec_def)
  moreover have "args \<noteq> []" using args by (simp add: args_ok_def)
  ultimately show ?thesis using handle_command_eq [OF _ cl name] by blast
qed

lemma toupper_names [simp]:
  "toupper ''SET'' = ''SET''" "toupper ''RPUSH'' = ''RPUSH''" "toupper ''SADD'' = ''SADD''" "toupper ''HSET'' = ''HSET''"
  by code_simp+

section \<open>Properties\<close>

text \<open>
  \<^bold>\<open>C3\<close>. A request of a client that is not in subscriber mode, for any command on the store
  with any arguments (unknown names and wrong arities included), does what the abstract command does to
  the abstract contents, a list of entries in LRU order: same reply, same faults, same new contents with
  index, list, sizes and byte counter in agreement and below the limit; it then logs the request if the
  command reports success. Two commands need exact counters: HDEL that its hash does not grow, SADD that
  the added members are below 2 GiB.
\<close>

theorem request_refines:
  assumes "db_inv s c" "args_ok args" "\<not> is_subscriber (client_of fd s)" "toupper (args ! 0) \<notin> server_names"
    "accounting_exact (toupper (args ! 0)) args c"
  shows "\<exists>r. meets db_inv (upd_client fd id s) r fd (request_spec args (upd_client fd id s) c) \<and>
    handle_command fd args s = rbind r (\<lambda>(s1, success).
      if fd \<noteq> -1 \<and> success then rbind (append_to_aof args s1) check_and_rewrite_aof else Inr s1)"
  using handle_command_meets [OF assms] by (simp add: logged_def)

lemma db_inv_empty_server: "db_inv (empty_server fso) []"
  by (auto simp: empty_server_def db_inv_def lru_inv_def lru_repr_def linked_def kvs_def)

lemma empty_server_client: "\<not> is_subscriber (client_of fd (empty_server fso))"
  by (simp add: empty_server_def client_of_def new_client_def)

theorem request_refines_witness:
  "\<exists>s'. handle_command 5 [''GET'', ''k''] (empty_server (\<lambda>_. True)) = Inr s' \<and> out s' = [(5, nil_reply)] \<and> db_inv s' []"
proof -
  let ?s = "empty_server (\<lambda>_. True)"
  have up: "toupper ''GET'' = ''GET''" by code_simp
  have "request_spec [''GET'', ''k''] (upd_client 5 id ?s) [] = Inr ([], nil_reply, False)"
    by (simp add: request_spec_def up exec_spec_def get_spec_def typed_spec_def)
  moreover have "out (upd_client 5 id ?s) = []" by (simp add: upd_client_def empty_server_def)
  ultimately show ?thesis
    using request_refines [OF db_inv_empty_server [of "\<lambda>_. True"] _ empty_server_client, of "[''GET'', ''k'']" 5]
    by (auto simp: args_ok_def up server_names_def accounting_exact_def reply_def elim!: yieldsE)
qed

lemma write_logged:
  assumes "db_inv s c" "args_ok args" "\<not> is_subscriber (client_of fd s)" "toupper (args ! 0) \<in> set aof_commands"
    "accounting_exact (toupper (args ! 0)) args c" "request_spec args (upd_client fd id s) c = Inr (c', msg, True)"
    "fd \<noteq> -1" "aof_open s" "sum_list (map (\<lambda>a. length a + 16) args) + 80 < 2 ^ 31"
    "last_size_check s = Some t" "steady s (steady_ticks s) - t < 5 * 10 ^ 9"
  shows "\<exists>s'. handle_command fd args s = Inr s' \<and> db_inv s' c' \<and> out s' = out s @ [(fd, msg)] \<and>
    aof_log s' = aof_log s @ format_resp_command args \<and> clients_map s' = clients_map (upd_client fd id s) \<and> clock s' = clock s"
proof -
  let ?s = "upd_client fd id s"
  have "toupper (args ! 0) \<notin> server_names" using assms(4) by (auto simp: aof_commands_def server_names_def)
  from handle_command_meets [OF assms(1-3) this assms(5)] assms(6) obtain s1 where
    s1: "handle_command fd args s = logged fd args (s1, True)" "db_inv s1 c'" "out s1 = out ?s @ reply fd msg"
      "io_state.more s1 = io_state.more ?s" "clock s1 = clock ?s" by (auto elim!: yieldsE)
  have more: "aof_open s1 = aof_open s \<and> aof_log s1 = aof_log s \<and> last_size_check s1 = last_size_check s \<and>
      steady s1 = steady s \<and> steady_ticks s1 = steady_ticks s"
    using s1(4) by (cases s; cases s1) (simp add: upd_client_def aof_log_def)
  have ne: "args \<noteq> []" using assms(2) by (simp add: args_ok_def)
  then have "is_valid (toupper (hd args))" using assms(4) by (simp add: is_valid_iff hd_conv_nth)
  then have app: "append_to_aof args s1 = Inr (aof_write (format_resp_command args) s1)"
    using ne more assms(8,9) by (simp add: append_to_aof_def format_command_ok)
  let ?s2 = "aof_write (format_resp_command args) s1"
  have s2: "last_size_check ?s2 = Some t" "steady ?s2 = steady s" "steady_ticks ?s2 = steady_ticks s"
    "aof_log ?s2 = aof_log s @ format_resp_command args" "out ?s2 = out s1"
    using more assms(10) by (simp_all add: aof_write_def Let_def aof_log_def del: take_append drop_append)
  have "(steady s (steady_ticks s) - t) div 10 ^ 9 < 5" using assms(11) by (simp add: div_less_iff_less_mult)
  then have chk: "check_and_rewrite_aof ?s2 = Inr (?s2\<lparr>steady_ticks := Suc (steady_ticks s)\<rparr>)"
    using s2 by (simp add: check_and_rewrite_aof_def steady_now_def)
  let ?s3 = "?s2\<lparr>steady_ticks := Suc (steady_ticks s)\<rparr>"
  have core: "core ?s3 = core s1" by simp
  have "db_inv ?s3 c'" using core_eqD(2) [OF core] s1(2) by simp
  moreover have "clients_map ?s3 = clients_map ?s" using core_eqD(3) [OF core] more_frame(1) [OF s1(4)] by (rule trans)
  moreover have "clock ?s3 = clock s" using core_eqD(6) [OF core] s1(5) by (simp add: upd_client_def)
  moreover have "out ?s3 = out s @ [(fd, msg)]" using s1(3) s2(5) assms(7) by (simp add: reply_def upd_client_def)
  moreover have "aof_log ?s3 = aof_log s @ format_resp_command args" using s2(4) by (simp add: aof_log_def)
  ultimately show ?thesis using s1(1) app chk assms(7) by (simp add: logged_def)
qed

text \<open>
  \<^bold>\<open>C34\<close>. A request that its abstract command reports as a successful write is in
  the log, as its RESP encoding and after everything logged before, once the handler returns, when no
  rewrite of the log is due.
\<close>

theorem successful_write_logged:
  assumes "db_inv s c" "args_ok args" "\<not> is_subscriber (client_of fd s)" "toupper (args ! 0) \<in> set aof_commands"
    "accounting_exact (toupper (args ! 0)) args c" "request_spec args (upd_client fd id s) c = Inr (c', msg, True)"
    "fd \<noteq> -1" "aof_open s" "sum_list (map (\<lambda>a. length a + 16) args) + 80 < 2 ^ 31"
    "last_size_check s = Some t" "steady s (steady_ticks s) - t < 5 * 10 ^ 9"
  shows "\<exists>s'. handle_command fd args s = Inr s' \<and> db_inv s' c' \<and> out s' = out s @ [(fd, msg)] \<and>
    aof_log s' = aof_log s @ format_resp_command args"
proof -
  from write_logged [OF assms] show ?thesis by blast
qed

theorem successful_write_logged_witness:
  "\<exists>s'. handle_command 5 [''SET'', ''k'', ''v''] (empty_server (\<lambda>_. True)) = Inr s' \<and>
     aof_log s' = format_resp_command [''SET'', ''k'', ''v'']"
proof -
  let ?s = "empty_server (\<lambda>_. True)" and ?a = "[''SET'', ''k'', ''v'']"
  have "cache_bytes [] + entry_size (''k'', new_string ''v'' 0) \<le> LRU_MAX_MEMORY" by (rule small_fits) code_simp
  then have "survives ''k'' (new_string ''v'' 0) []" by (simp add: survives_def)
  then have spec: "request_spec ?a (upd_client 5 id ?s) [] = Inr (set_spec ''k'' (new_string ''v'' 0) [], ''+OK'' @ crlf, True)"
    by (simp add: request_spec_def exec_spec_def set_command_spec_def write_spec_def)
  have "args_ok ?a" "toupper (?a ! 0) \<in> set aof_commands" "accounting_exact (toupper (?a ! 0)) ?a []"
    by (simp_all add: args_ok_def aof_commands_def accounting_exact_def)
  from successful_write_logged [OF db_inv_empty_server [of "\<lambda>_. True"] this(1) empty_server_client this(2,3) spec, of 0]
  show ?thesis by (auto simp: empty_server_def aof_log_def)
qed

text \<open>
  \<^bold>\<open>C38\<close>. HSET that only overwrites existing fields changes the stored hash but
  reports no success, since it created no field: the request is answered with 0 and leaves no trace in
  the log, so that a restart brings the old value back.
\<close>

theorem hset_overwrite_not_logged:
  assumes "db_inv s c" "args_ok [''HSET'', k, f, v]" "\<not> is_subscriber (client_of fd s)"
    "f \<in> dom (fields_at k c)" "cache_bytes c + request_bytes [k, f, v] \<le> LRU_MAX_MEMORY"
  shows "\<exists>s' c'. handle_command fd [''HSET'', k, f, v] s = Inr s' \<and> db_inv s' c' \<and>
    fields_at k c' = (fields_at k c)(f \<mapsto> v) \<and> aof_log s' = aof_log s"
proof -
  let ?a = "[''HSET'', k, f, v]"
  have "hash_or_missing k c" using assms(4)
    by (auto simp: fields_at_def hash_or_missing_def split: option.splits value_data.splits)
  then obtain c1 h e where c1: "hset_spec ?a c = Inr (c1, integer_reply 0, False)" "map_of c1 = (map_of c)(k \<mapsto> new_hash h e)"
    "hash_map h = (fields_at k c)(f \<mapsto> v)"
    using hset_spec_fits [OF db_inv_storable [OF assms(1)], of "[f, v]" k "''HSET''"] assms(4,5) by auto
  have "request_spec ?a (upd_client fd id s) c = Inr (c1, integer_reply 0, False)"
    using c1(1) by (simp add: request_spec_def exec_spec_def)
  with handle_command_meets [OF assms(1,2,3)] obtain s1 where
    s1: "handle_command fd ?a s = Inr s1" "db_inv s1 c1" "io_state.more s1 = io_state.more (upd_client fd id s)"
    by (auto simp: server_names_def accounting_exact_def logged_def elim!: yieldsE)
  have "aof_log s1 = aof_log s" using s1(3) by (cases s; cases s1) (simp add: upd_client_def aof_log_def)
  moreover have "fields_at k c1 = (fields_at k c)(f \<mapsto> v)" using c1(2,3) by (simp add: fields_at_def new_hash_def)
  ultimately show ?thesis using s1(1,2) by blast
qed

theorem hset_overwrite_not_logged_witness:
  "\<exists>(s :: server) s'. handle_command 5 [''HSET'', ''h'', ''f'', ''w''] s = Inr s' \<and> aof_log s' = aof_log s"
proof -
  let ?h = "new_hash_vec [(str_copy ''f'', str_copy ''v'')] 0"
  let ?c = "[(''h'', new_hash ?h 0)]"
  have st: "storable ?c" by (rule storableI) code_simp
  obtain s where s: "db_inv s ?c" "lru_state.more s = lru_state.more (empty_server (\<lambda>_. True))"
    using db_inv_inhabited [OF db_inv_empty_server st] by blast
  have "clients_map s = Map.empty" using s(2) by (cases s) (simp add: empty_server_def)
  then have "\<not> is_subscriber (client_of 5 s)" by (simp add: client_of_def new_client_def)
  moreover have "''f'' \<in> dom (fields_at ''h'' ?c)"
    by (simp add: fields_at_def new_hash_def hash_map_def new_hash_vec_def entries_def)
  moreover have "cache_bytes ?c \<le> 1000" by code_simp
  then have "cache_bytes ?c + request_bytes [''h'', ''f'', ''w''] \<le> LRU_MAX_MEMORY"
    by (simp only: LRU_MAX_MEMORY_def request_bytes_Cons request_bytes_Nil) simp
  moreover have "args_ok [''HSET'', ''h'', ''f'', ''w'']" by (simp add: args_ok_def)
  ultimately show ?thesis using hset_overwrite_not_logged [OF s(1)] by blast
qed

end
