(* ===== verification/Server.thy ===== *)
theory Server
  imports Dispatch
begin

text \<open>
  The server as a step system over events: a new connection, bytes from a client, the end of a
  connection, and the flush of the log. \<open>handle_event\<close> is what \<open>main\<close> does to the globals for an event;
  \<open>server_step\<close> has the guarantees of the operating system as guards (\<open>accept\<close> returns a descriptor that
  is not in use, events come from open descriptors, \<open>recv\<close> delivers between 1 and 16384 bytes). The
  theory \<open>Event_Loop\<close> has \<open>main\<close> itself, with its system calls, as a refinement of this.
\<close>

section \<open>Events\<close>

datatype event = Accept int | Receive int string | Hangup int

fun handle_event :: "event \<Rightarrow> ('z) server_scheme \<Rightarrow> ('z) server_scheme res" where
  "handle_event (Accept fd) s = Inr (upd_client fd (\<lambda>_. new_client) s)"
| "handle_event (Receive fd buffer) s =
     (let s0 = upd_client fd id s in
      rbind (parse_and_execute (handle_command fd) buffer (parser (client_of fd s0), s0)) (\<lambda>(p, s1).
      Inr (upd_client fd (\<lambda>c. c\<lparr>parser := p\<rparr>) s1)))"
| "handle_event (Hangup fd) s = Inr (drop_client fd s)"

fun handle_events :: "event list \<Rightarrow> ('z) server_scheme \<Rightarrow> ('z) server_scheme res" where
  "handle_events [] s = Inr s"
| "handle_events (e # es) s = rbind (handle_event e s) (handle_events es)"

text \<open>The process before \<open>main\<close>: globals as initialised, the log opened for appending.\<close>

definition boot :: "(nat \<Rightarrow> int) \<Rightarrow> (nat \<Rightarrow> int) \<Rightarrow> (nat \<Rightarrow> nat) \<Rightarrow> (nat \<Rightarrow> bool) \<Rightarrow> string \<Rightarrow> server" where
  "boot clk tick spl fso disk =
     \<lparr>kv_store = Map.empty, heap = Map.empty, next_addr = 0, HEAD = None, TAIL = None, lru_size = 0,
      current_memory_usage = 0, out = [], clock = clk, ticks = 0, clients_map = Map.empty,
      channels_subscribers = Map.empty, aof_open = fso 0, aof_disk = disk, aof_pending = [],
      last_rewrite_size = 0, last_size_check = None, last_flush = None, steady = tick, steady_ticks = 0,
      spill = spl, spill_ticks = 0, fs_ok = fso, fs_ticks = 1\<rparr>"

definition startup :: "('z) server_scheme \<Rightarrow> ('z) server_scheme res" where
  "startup s = replay_aof (handle_command (-1)) s"

section \<open>Steps and reachable states\<close>

definition enabled :: "event \<Rightarrow> ('z) server_scheme \<Rightarrow> bool" where
  "enabled e s = (case e of
     Accept fd \<Rightarrow> 0 \<le> fd \<and> clients_map s fd = None
   | Receive fd buffer \<Rightarrow> clients_map s fd \<noteq> None \<and> buffer \<noteq> [] \<and> length buffer \<le> 16384
   | Hangup fd \<Rightarrow> clients_map s fd \<noteq> None)"

inductive server_step :: "('z) server_scheme \<Rightarrow> ('z) server_scheme \<Rightarrow> bool" where
  event: "enabled e s \<Longrightarrow> handle_event e s = Inr s' \<Longrightarrow> server_step s s'"
| flush: "server_step s (flush_aof s)"

inductive_cases server_stepE: "server_step s s'"

inductive reachable :: "('z) server_scheme \<Rightarrow> ('z) server_scheme \<Rightarrow> bool" for s0 where
  start: "startup s0 = Inr s \<Longrightarrow> reachable s0 s"
| step: "reachable s0 s \<Longrightarrow> server_step s s' \<Longrightarrow> reachable s0 s'"

section \<open>Invariants\<close>

lemma server_safe_client:
  assumes "server_safe s" "\<And>c. subscribed_channels (f c) = subscribed_channels c \<and> is_subscriber (f c) = is_subscriber c"
  shows "server_safe (upd_client fd f s)"
proof (rule server_safeI [OF _ assms(1)])
  have "pubsub_inv s" using assms(1) by (simp add: server_safe_def)
  then show "pubsub_inv (upd_client fd f s)" using assms(2) by (simp add: pubsub_inv_def client_wf_def)
qed simp

lemma receive_safe:
  assumes "server_safe s"
  shows "guarded command_faults server_safe (handle_event (Receive fd buffer) s)"
proof -
  let ?s = "upd_client fd id s"
  have "server_safe ?s" using assms by (rule server_safe_client) simp
  from server.parse_keeps [OF this, of fd buffer "parser (client_of fd ?s)"] show ?thesis
    by (cases "parse_and_execute (handle_command fd) buffer (parser (client_of fd ?s), ?s)")
       (auto intro!: server_safe_client)
qed

lemma handle_event_safe:
  assumes safe: "server_safe s" and en: "enabled e s"
  shows "guarded command_faults server_safe (handle_event e s)"
proof (cases e)
  case (Accept fd)
  then have "pubsub_inv (upd_client fd (\<lambda>_. new_client) s)"
    using safe en by (intro new_client_inv) (simp_all add: server_safe_def enabled_def)
  then show ?thesis using Accept by (auto intro: server_safeI [OF _ safe])
next
  case (Receive fd buffer)
  then show ?thesis using receive_safe [OF safe] by blast
next
  case (Hangup fd)
  have "pubsub_inv (drop_client fd s)" using safe by (intro drop_client_inv) (simp add: server_safe_def)
  then show ?thesis using Hangup by (auto intro: server_safeI [OF strip_drop_client safe])
qed

lemma step_safe: "server_step s s' \<Longrightarrow> server_safe s \<Longrightarrow> server_safe s'"
proof (erule server_stepE)
  fix e assume "server_safe s" "enabled e s" "handle_event e s = Inr s'"
  then show "server_safe s'" using handle_event_safe [of s e] by simp
next
  assume "s' = flush_aof s" "server_safe s"
  then show "server_safe s'" using server_safe_core [of "flush_aof s" s] by simp
qed

lemma rewrite_safe:
  assumes "server_safe t"
  shows "guarded command_faults server_safe (rbind (rewrite_aof t) (\<lambda>u. Inr (u\<lparr>last_rewrite_size := f u\<rparr>)))"
proof -
  obtain c where "db_safe t c" using assms by (auto simp: server_safe_def)
  from rewrite_aof_sound [OF this] show ?thesis
  proof (elim disjE exE conjE)
    fix u assume u: "rewrite_aof t = Inr u" "core u = core t"
    then have "server_safe (u\<lparr>last_rewrite_size := f u\<rparr>)"
      using assms server_safe_core [of "u\<lparr>last_rewrite_size := f u\<rparr>" t] by simp
    with u show ?thesis by simp
  qed auto
qed

lemma startup_safe:
  assumes "server_safe s"
  shows "guarded command_faults server_safe (startup s)"
proof -
  obtain ok s1 where s1: "fs_try s = (ok, s1)" "core s1 = core s" by (simp add: fs_try_def)
  have safe1: "server_safe s1" using assms server_safe_core [OF s1(2)] by simp
  let ?buf = "take (nat (to_int32 (length (aof_disk s1)))) (aof_disk s1)"
  let ?p = "parse_and_execute (handle_command (-1)) ?buf (init_parser, s1)"
  from server.parse_keeps [OF safe1, of "-1" ?buf init_parser] show ?thesis
  proof (cases ?p)
    case (Inr q)
    obtain p s2 where q: "q = (p, s2)" by (cases q)
    have safe2: "server_safe s2" using server.parse_keeps [OF safe1, of "-1" ?buf init_parser] Inr q by simp
    let ?t = "s2\<lparr>last_rewrite_size := length (aof_disk s2)\<rparr>"
    have "server_safe ?t" using safe2 server_safe_core [of ?t s2] by simp
    then show ?thesis using s1 safe1 Inr q rewrite_safe [OF \<open>server_safe ?t\<close>]
      by (auto simp: startup_def replay_aof_def Let_def simp del: rbind_eq_Inr)
  qed (use s1 safe1 in \<open>auto simp: startup_def replay_aof_def Let_def\<close>)
qed

lemma reachable_safe: "reachable s0 s \<Longrightarrow> server_safe s0 \<Longrightarrow> server_safe s"
proof (induction rule: reachable.induct)
  case (start s)
  then show ?case using startup_safe [of s0] by simp
next
  case (step s s')
  then show ?case using step_safe by blast
qed

lemma boot_safe: "server_safe (boot clk tick spl fso disk)"
proof -
  have "db_safe (boot clk tick spl fso disk) []"
    by (auto simp: boot_def db_safe_def lru_repr_def linked_def kvs_def)
  moreover have "pubsub_inv (boot clk tick spl fso disk)"
    by (simp add: pubsub_inv_def client_of_def channel_of_def boot_def) (simp add: new_client_def)
  ultimately show ?thesis by (auto simp: server_safe_def)
qed

section \<open>Properties\<close>

text \<open>
  \<^bold>\<open>C1\<close>. In every state that the process reaches from its start, whatever the log on
  disk holds, whatever bytes any number of clients send in whatever order and pieces, however the clocks,
  the file system and the output stream behave: the LRU list is a well-formed doubly linked list of
  exactly the allocated nodes, its index maps each key to its node and nothing else, every value has the
  alternative its tag says, and clients and channels agree about subscriptions.
\<close>

theorem reachable_states_safe:
  assumes "reachable (boot clk tick spl fso disk) s"
  shows "(\<exists>as c. lru_repr s as c \<and> (\<forall>e\<in>set c. value_wf (snd e))) \<and> pubsub_inv s"
  using reachable_safe [OF assms boot_safe] by (auto simp: server_safe_def db_safe_def)

theorem reachable_states_safe_witness:
  "\<exists>s. reachable (boot (\<lambda>_. 0) (\<lambda>_. 0) (\<lambda>_. 0) (\<lambda>_. False) []) s \<and> clients_map s 5 = Some new_client \<and> pubsub_inv s"
proof -
  let ?b = "boot (\<lambda>_. 0) (\<lambda>_. 0) (\<lambda>_. 0) (\<lambda>_. False) []"
  let ?s = "?b\<lparr>fs_ticks := 2\<rparr>"
  have "startup ?b = Inr ?s" by (simp add: startup_def replay_aof_def fs_try_def boot_def)
  then have "reachable ?b ?s" by (rule reachable.start)
  moreover have "server_step ?s (upd_client 5 (\<lambda>_. new_client) ?s)"
    by (rule server_step.event [of "Accept 5"]) (simp_all add: enabled_def boot_def)
  ultimately have "reachable ?b (upd_client 5 (\<lambda>_. new_client) ?s)" by (rule reachable.step)
  with reachable_states_safe [OF this] show ?thesis by (intro exI [of _ "upd_client 5 (\<lambda>_. new_client) ?s"]) (simp add: upd_client_def)
qed

text \<open>
  \<^bold>\<open>C10\<close>. Handling any event that the operating system can deliver in a reachable state
  either ends in a safe state again or in one of the four faults recorded for the commands: a node used
  after its eviction, the front of an empty list, a signed overflow, an uncaught exception. It never reads
  an argument that is not there, never takes the wrong alternative of a value and always ends.
\<close>

theorem events_contained:
  assumes "reachable (boot clk tick spl fso disk) s" "enabled e s"
  shows "(\<exists>s'. handle_event e s = Inr s' \<and> server_safe s') \<or>
    handle_event e s \<in> Inl ` {Use_after_free, Empty_container, Signed_overflow, Uncaught_exception}"
  using handle_event_safe [OF reachable_safe [OF assms(1) boot_safe] assms(2)]
  by (cases "handle_event e s") (auto simp: command_faults_def)

theorem events_contained_witness:
  "(\<exists>s'. handle_event (Accept 5) ((boot (\<lambda>_. 0) (\<lambda>_. 0) (\<lambda>_. 0) (\<lambda>_. False) [])\<lparr>fs_ticks := 2\<rparr>) = Inr s' \<and> server_safe s') \<or>
     handle_event (Accept 5) ((boot (\<lambda>_. 0) (\<lambda>_. 0) (\<lambda>_. 0) (\<lambda>_. False) [])\<lparr>fs_ticks := 2\<rparr>) \<in>
       Inl ` {Use_after_free, Empty_container, Signed_overflow, Uncaught_exception}"
proof -
  let ?b = "boot (\<lambda>_. 0) (\<lambda>_. 0) (\<lambda>_. 0) (\<lambda>_. False) []"
  have "startup ?b = Inr (?b\<lparr>fs_ticks := 2\<rparr>)" by (simp add: startup_def replay_aof_def fs_try_def boot_def)
  then have "reachable ?b (?b\<lparr>fs_ticks := 2\<rparr>)" by (rule reachable.start)
  then show ?thesis by (rule events_contained) (simp add: enabled_def boot_def)
qed

end
