(* ===== verification/Sessions.thy ===== *)
theory Sessions
  imports Server
begin

text \<open>
  The connections that \<open>clients_map\<close> knows and the state of each one's parser, as one map. A command
  of a client changes nothing of it but to add the client's own entry; so the parser of a connection
  advances only by the bytes of that connection. The clients of the map and its parsers are thereby an
  invariant that the handler keeps, and \<open>request_handler\<close> is interpreted for it.
\<close>

section \<open>Parsers of the connections\<close>

definition sessions :: "('z) pubsub_state_scheme \<Rightarrow> int \<rightharpoonup> RespParser" where
  "sessions s = (\<lambda>fd. map_option parser (clients_map s fd))"

lemma dom_sessions: "dom (sessions s) = dom (clients_map s)"
  by (auto simp: sessions_def)

lemma sessions_cong: "clients_map s' = clients_map s \<Longrightarrow> sessions s' = sessions s"
  by (simp add: sessions_def)

lemma sessions_steps [simp]:
  "sessions (upd_client fd f s) = (sessions s)(fd \<mapsto> parser (f (client_of fd s)))"
  "sessions (upd_channel ch g s) = sessions s" "sessions (sys_send fd msg s) = sessions s"
  "sessions (send fd msg s) = sessions s" "sessions (s\<lparr>out := x\<rparr>) = sessions s"
  by (auto simp: sessions_def upd_client_def upd_channel_def sys_send_def send_def)

lemma sessions_same:
  "sessions s fd = Some p \<Longrightarrow> parser (client_of fd s) = p"
  by (auto simp: sessions_def client_of_def)

lemma sessions_touch:
  "sessions s fd = Some p \<Longrightarrow> (sessions s)(fd \<mapsto> parser (client_of fd s)) = sessions s"
  by (auto simp: sessions_same)

lemma sessions_subscribe:
  "sessions s fd = Some p \<Longrightarrow> sessions (pubsub_subscribe fd args s) = sessions s"
proof -
  have "sessions s fd = Some p \<Longrightarrow> sessions (subscribe_loop fd chs s) = sessions s" for chs
    by (induction chs arbitrary: s) (simp_all add: Let_def sessions_touch sessions_same fun_upd_idem)
  then show "sessions s fd = Some p \<Longrightarrow> ?thesis" by (simp add: pubsub_subscribe_def)
qed

lemma sessions_unsubscribe:
  assumes "sessions s fd = Some p"
  shows "sessions (pubsub_unsubscribe fd args s) = sessions s"
proof -
  have one: "sessions t fd = Some p \<Longrightarrow> sessions (unsubscribe_one fd ch t) = sessions t" for ch and t :: "('a) pubsub_state_scheme"
    by (simp add: unsubscribe_one_def Let_def sessions_touch sessions_same fun_upd_idem)
  have "sessions t fd = Some p \<Longrightarrow> sessions (fold (unsubscribe_one fd) chs t) = sessions t" for chs and t :: "('a) pubsub_state_scheme"
    by (induction chs arbitrary: t) (simp_all add: one)
  with assms show ?thesis by (simp add: pubsub_unsubscribe_def Let_def sessions_touch)
qed

lemma sessions_publish:
  assumes "pubsub_inv s" "length args = 3"
  shows "sessions (command_publish fd args s) = sessions s"
  using assms by (simp add: command_publish_def pubsub_publish_ok send_integer_eq)

lemma sessions_flushdb: "sessions (fst (command_flushdb fd args s)) = sessions s"
proof -
  have "sessions (flush_clear_aof t) = sessions t" for t :: "('a) server_scheme"
    by (rule sessions_cong) (rule core_eqD(3) [OF core_steps(12)])
  then show ?thesis
    by (simp add: command_flushdb_def) (simp add: sessions_def kv_clear_def clear_lru_def)
qed

lemma sessions_server_command:
  assumes "pubsub_inv s" "sessions s fd = Some p"
  shows "sessions (fst (server_command fd cmd args s)) = sessions s"
proof -
  have if_same: "(b \<Longrightarrow> sessions (fst x) = sessions s) \<Longrightarrow> sessions (fst y) = sessions s \<Longrightarrow>
      sessions (fst (if b then x else y)) = sessions s" for b and x y :: "('a) server_scheme \<times> bool" by simp
  show ?thesis
    unfolding server_command_def command_subscribe_def command_unsubscribe_def
    by (intro if_same)
       (simp_all add: sessions_flushdb sessions_subscribe [OF assms(2)] sessions_unsubscribe [OF assms(2)]
         sessions_publish [OF assms(1)])
qed

lemma sessions_logged: "logged fd args (s, ok) = Inr s' \<Longrightarrow> sessions s' = sessions s"
  by (auto simp: logged_def split: if_splits intro!: sessions_cong core_eqD(3) dest!: append_core check_core)

text \<open>The handler adds the entry of its own client, as \<open>clients_map[client_fd]\<close> does, and nothing else.\<close>

theorem handle_command_sessions:
  assumes safe: "server_safe s" and run: "handle_command fd args s = Inr s'"
  shows "sessions s' = (sessions s)(fd \<mapsto> parser (client_of fd s))"
proof -
  let ?s = "upd_client fd id s" and ?cmd = "toupper (args ! 0)"
  have "server_safe ?s" using safe by (intro server_safeI [OF _ safe]) (simp_all add: server_safe_def)
  then obtain c where c: "db_safe ?s c" "pubsub_inv ?s" by (auto simp: server_safe_def)
  have mine: "sessions ?s fd = Some (parser (client_of fd s))" by simp
  let ?o = "server_command fd ?cmd args ?s"
  let ?r = "store_command fd ?cmd args ?s (Inr ?o)"
  have r: "sessions s1 = sessions ?s" if s1: "?r = Inr (s1, ok)" for s1 ok
  proof (cases "?r = Inr ?o")
    case True
    then have "?o = (s1, ok)" using s1 by simp
    then show ?thesis using sessions_server_command [OF c(2) mine, of ?cmd args] by simp
  next
    case False
    then have "io_state.more s1 = io_state.more ?s" using store_sound [OF c(1), of fd ?cmd args "Inr ?o"] s1 by auto
    then show ?thesis by (intro sessions_cong more_frame)
  qed
  have "(\<exists>s1 ok. ?r = Inr (s1, ok) \<and> logged fd args (s1, ok) = Inr s') \<or> s' = send fd pubsub_mode_error ?s"
  proof (cases ?r)
    case (Inr q)
    then show ?thesis using run
      by (cases q) (auto simp: handle_command_def logged_def Let_def arg_def split: if_splits)
  qed (use run in \<open>auto simp: handle_command_def Let_def arg_def split: if_splits\<close>)
  then show ?thesis using r sessions_logged by fastforce
qed

text \<open>As an invariant for the parser: the sessions are a fixed map, with an entry for the client.\<close>

interpretation session: request_handler "handle_command fd"
    "\<lambda>s. server_safe s \<and> sessions s = m(fd \<mapsto> p)" command_faults
proof unfold_locales
  fix s :: "('a) server_scheme" and args :: "string list"
  assume s: "server_safe s \<and> sessions s = m(fd \<mapsto> p)" and "args \<noteq> []"
  have p: "parser (client_of fd s) = p" by (rule sessions_same) (simp add: s)
  from handle_command_safe [of s args fd] s \<open>args \<noteq> []\<close> handle_command_sessions [of s fd args] p
  show "guarded command_faults (\<lambda>s. server_safe s \<and> sessions s = m(fd \<mapsto> p)) (handle_command fd args s)"
    by (cases "handle_command fd args s") auto
qed (simp add: command_faults_def)

text \<open>Or only its domain is bounded, as while the log is replayed for the descriptor -1.\<close>

interpretation session_bound: request_handler "handle_command fd"
    "\<lambda>s. server_safe s \<and> dom (sessions s) \<subseteq> insert fd D" command_faults
proof unfold_locales
  fix s :: "('a) server_scheme" and args :: "string list"
  assume "server_safe s \<and> dom (sessions s) \<subseteq> insert fd D" "args \<noteq> []"
  with handle_command_safe [of s args fd] handle_command_sessions [of s fd args]
  show "guarded command_faults (\<lambda>s. server_safe s \<and> dom (sessions s) \<subseteq> insert fd D) (handle_command fd args s)"
    by (cases "handle_command fd args s") auto
qed (simp add: command_faults_def)

lemma startup_sessions:
  assumes safe: "server_safe s" and bound: "dom (sessions s) \<subseteq> insert (-1) D" and run: "startup s = Inr s'"
  shows "dom (sessions s') \<subseteq> insert (-1) D"
proof -
  obtain ok s1 where s1: "fs_try s = (ok, s1)" "core s1 = core s" by (simp add: fs_try_def)
  have same: "sessions t' = sessions t" if "core t' = core t" for t t' :: "('a) server_scheme"
    using core_eqD(3) [OF that] by (rule sessions_cong)
  let ?buf = "take (nat (to_int32 (length (aof_disk s1)))) (aof_disk s1)"
  have "server_safe s1 \<and> dom (sessions s1) \<subseteq> insert (-1) D"
    using safe bound same [OF s1(2)] server_safe_core [OF s1(2)] by simp
  note keeps = session_bound.parse_keeps [OF this, of ?buf init_parser]
  have "core s' = core s1 \<or> (\<exists>p t. parse_and_execute (handle_command (-1)) ?buf (init_parser, s1) = Inr (p, t) \<and> core s' = core t)"
    using run s1(1) by (auto simp: startup_def replay_aof_def Let_def split: if_splits dest!: rewrite_core)
  then show ?thesis
  proof (elim disjE exE conjE)
    assume "core s' = core s1"
    from same [OF this] same [OF s1(2)] bound show ?thesis by simp
  next
    fix p t assume t: "parse_and_execute (handle_command (-1)) ?buf (init_parser, s1) = Inr (p, t)" "core s' = core t"
    from keeps have "dom (sessions t) \<subseteq> insert (-1) D" unfolding t(1) by simp
    with same [OF t(2)] show ?thesis by simp
  qed
qed

text \<open>What an event does to the sessions.\<close>

lemma receive_sessions:
  assumes safe: "server_safe s" and run: "handle_event (Receive fd buffer) s = Inr s'"
  shows "\<exists>p s1. parse_and_execute (handle_command fd) buffer (parser (client_of fd s), upd_client fd id s) = Inr (p, s1) \<and>
    s' = upd_client fd (\<lambda>c. c\<lparr>parser := p\<rparr>) s1 \<and> sessions s' = (sessions s)(fd \<mapsto> p)"
proof -
  let ?s = "upd_client fd id s" let ?p = "parser (client_of fd s)"
  obtain p s1 where r: "parse_and_execute (handle_command fd) buffer (?p, ?s) = Inr (p, s1)"
    "s' = upd_client fd (\<lambda>c. c\<lparr>parser := p\<rparr>) s1" using run by (auto simp: Let_def)
  have "server_safe ?s" using safe by (rule server_safe_client) simp
  then have "sessions s1 = (sessions s)(fd \<mapsto> ?p)"
    using session.parse_keeps [of ?s "sessions s" fd ?p buffer ?p] r(1) by simp
  then show ?thesis using r by simp
qed

lemma event_sessions:
  assumes "server_safe s" "handle_event e s = Inr s'"
  shows "case e of Accept fd \<Rightarrow> sessions s' = (sessions s)(fd \<mapsto> init_parser)
    | Receive fd buffer \<Rightarrow> (\<exists>p. sessions s' = (sessions s)(fd \<mapsto> p))
    | Hangup fd \<Rightarrow> sessions s' = (sessions s)(fd := None)"
proof (cases e)
  case (Receive fd buffer)
  with receive_sessions [OF assms(1)] assms(2) have "\<exists>p. sessions s' = (sessions s)(fd \<mapsto> p)" by blast
  then show ?thesis using Receive by simp
next
  case (Hangup fd)
  have "clients_map (fold (\<lambda>channel. upd_channel channel (set_erase fd)) chs t) = clients_map t" for chs and t :: "('a) server_scheme"
    by (induction chs arbitrary: t) (simp_all add: upd_channel_def)
  then have "clients_map (pubsub_cleanup_client fd s) = clients_map s"
    by (simp add: pubsub_cleanup_client_def split: option.split)
  then show ?thesis using Hangup assms(2) by (auto simp: drop_client_def sessions_def)
qed (use assms in \<open>auto simp: new_client_def\<close>)

lemmas accept_sessions = event_sessions [where e = "Accept fd" for fd, unfolded event.case]
lemmas hangup_sessions = event_sessions [where e = "Hangup fd" for fd, unfolded event.case]

end
