(* ===== verification/Event_Loop.thy ===== *)
theory Event_Loop
  imports Sessions
begin

text \<open>
  \<open>main\<close> of main.cpp with its system calls. A \<open>kernel\<close> is everything outside the process: what each call
  returns, which descriptors \<open>epoll_wait\<close> reports, which bytes \<open>recv\<close> delivers, the environment; it may
  depend on the whole history of calls. The process is its globals, the calls it has made (the latest
  first) and what \<open>main\<close> has printed. The loop \<open>while (true)\<close> is a \<open>partial_function\<close>: not returning is the
  value \<open>None\<close>. Which descriptors are open and which are watched is read off the history; what the code
  relies on of the documented behaviour of the calls is the predicate \<open>posix\<close>.
\<close>

section \<open>System calls\<close>

record sockaddr_in =
  sin_addr :: "32 word"
  sin_port :: "16 word"

datatype syscall =
    Socket
  | Setsockopt int string
  | Bind int sockaddr_in
  | Listen int int
  | Epoll_create1
  | Epoll_ctl_add int int
  | Epoll_ctl_del int int
  | Epoll_wait int nat int
  | Accept_call int
  | Recv int nat
  | Close int

record kernel =
  answer :: "syscall list \<Rightarrow> int"
  ready :: "syscall list \<Rightarrow> int list"
  received :: "syscall list \<Rightarrow> string"
  getenv :: "string \<Rightarrow> string option"
  inet_addr :: "string \<Rightarrow> 32 word"

record process =
  globals :: server
  calls :: "syscall list"
  console :: "string list"

definition call_kernel :: "kernel \<Rightarrow> syscall \<Rightarrow> process \<Rightarrow> int \<times> process" where
  "call_kernel os c p = (answer os (c # calls p), p\<lparr>calls := c # calls p\<rparr>)"

definition say :: "string \<Rightarrow> process \<Rightarrow> process" where
  "say msg p = p\<lparr>console := console p @ [msg]\<rparr>"

text \<open>\<open>htons\<close> on a little-endian host.\<close>

definition htons :: "16 word \<Rightarrow> 16 word" where
  "htons w = (w div 256) + (w * 256)"

section \<open>Setting up\<close>

text \<open>\<open>Inl\<close>: \<open>main\<close> returns 1. \<open>Inr\<close>: the descriptors of the listening socket and of epoll.\<close>

definition open_server :: "kernel \<Rightarrow> process \<Rightarrow> process + (int \<times> int \<times> process)" where
  "open_server os p =
     (case call_kernel os Socket p of (server_fd, p1) \<Rightarrow>
      if server_fd < 0 then Inl (say ''Failed to create server socket'' p1)
      else case call_kernel os (Setsockopt server_fd ''SO_REUSEADDR'') p1 of (reuse, p2) \<Rightarrow>
      if reuse < 0 then Inl (say ''setsockopt failed'' p2)
      else
        let bind_ip = (case getenv os ''DRUTA_BIND_IP'' of Some ip \<Rightarrow> ip | None \<Rightarrow> ''127.0.0.1'');
            server_addr = \<lparr>sin_addr = inet_addr os bind_ip, sin_port = htons 6379\<rparr>
        in case call_kernel os (Bind server_fd server_addr) p2 of (bound, p3) \<Rightarrow>
      if bound \<noteq> 0 then Inl (say ''Failed to bind to port 6379'' p3)
      else case call_kernel os (Listen server_fd 128) p3 of (listening, p4) \<Rightarrow>
      if listening \<noteq> 0 then Inl (say ''listen failed'' p4)
      else case call_kernel os Epoll_create1 p4 of (epoll_fd, p5) \<Rightarrow>
      if epoll_fd = -1 then Inl (say ''Failed to create epoll instance'' p5)
      else case call_kernel os (Epoll_ctl_add epoll_fd server_fd) p5 of (added, p6) \<Rightarrow>
      if added = -1 then Inl (say ''Failed to add server_fd to epoll'' p6)
      else Inr (server_fd, epoll_fd, p6))"

section \<open>The loop\<close>

definition on_globals :: "(server \<Rightarrow> server res) \<Rightarrow> process \<Rightarrow> process res" where
  "on_globals f p = rbind (f (globals p)) (\<lambda>g. Inr (p\<lparr>globals := g\<rparr>))"

definition accept_client :: "kernel \<Rightarrow> int \<Rightarrow> int \<Rightarrow> process \<Rightarrow> process res" where
  "accept_client os server_fd epoll_fd p =
     (case call_kernel os (Accept_call server_fd) p of (client_fd, p1) \<Rightarrow>
      if 0 \<le> client_fd
      then case call_kernel os (Setsockopt client_fd ''TCP_NODELAY'') (say ''Client connected!'' p1) of (_, p2) \<Rightarrow>
        (case call_kernel os (Epoll_ctl_add epoll_fd client_fd) p2 of (added, p3) \<Rightarrow>
         if added = -1
         then Inr (snd (call_kernel os (Close client_fd) (say ''Failed to add client_fd to epoll'' p3)))
         else on_globals (handle_event (Accept client_fd)) p3)
      else Inr p1)"

definition BUFFER_SIZE :: nat where
  "BUFFER_SIZE = 16384"

definition serve_client :: "kernel \<Rightarrow> int \<Rightarrow> int \<Rightarrow> process \<Rightarrow> process res" where
  "serve_client os epoll_fd current_fd p =
     (case call_kernel os (Recv current_fd BUFFER_SIZE) p of (bytes_recieved, p1) \<Rightarrow>
      if bytes_recieved \<le> 0
      then case call_kernel os (Epoll_ctl_del epoll_fd current_fd) (say ''Client disconnected'' p1) of (_, p2) \<Rightarrow>
        rbind (on_globals (handle_event (Hangup current_fd)) p2) (\<lambda>p3.
        Inr (snd (call_kernel os (Close current_fd) p3)))
      else on_globals (handle_event (Receive current_fd (take (nat bytes_recieved) (received os (calls p1))))) p1)"

fun event_loop :: "kernel \<Rightarrow> int \<Rightarrow> int \<Rightarrow> int list \<Rightarrow> process \<Rightarrow> process res" where
  "event_loop os server_fd epoll_fd [] p = Inr p"
| "event_loop os server_fd epoll_fd (current_fd # fds) p =
     rbind (if current_fd = server_fd then accept_client os server_fd epoll_fd p
            else serve_client os epoll_fd current_fd p)
       (event_loop os server_fd epoll_fd fds)"

definition MAX_EVENTS :: nat where
  "MAX_EVENTS = 1024"

definition flush_log :: "process \<Rightarrow> process" where
  "flush_log p = p\<lparr>globals := flush_aof (globals p)\<rparr>"

text \<open>One round of the loop, and whether it goes on.\<close>

definition loop_round :: "kernel \<Rightarrow> int \<Rightarrow> int \<Rightarrow> process \<Rightarrow> (bool \<times> process) res" where
  "loop_round os server_fd epoll_fd p =
     (case call_kernel os (Epoll_wait epoll_fd MAX_EVENTS 100) p of (new_events, p1) \<Rightarrow>
      if new_events < 0 then Inr (False, say ''epoll_wait failed'' p1)
      else if new_events = 0 then Inr (True, flush_log p1)
      else rbind (event_loop os server_fd epoll_fd (take (nat new_events) (ready os (calls p1))) p1) (\<lambda>p2.
        Inr (True, flush_log p2)))"

partial_function (option) main_loop :: "kernel \<Rightarrow> int \<Rightarrow> int \<Rightarrow> process \<Rightarrow> process res option" where
  "main_loop os server_fd epoll_fd p = (case loop_round os server_fd epoll_fd p of
     Inl e \<Rightarrow> Some (Inl e)
   | Inr (going, p1) \<Rightarrow> if going then main_loop os server_fd epoll_fd p1
       else Some (Inr (snd (call_kernel os (Close epoll_fd) (snd (call_kernel os (Close server_fd) p1))))))"

text \<open>Returning from \<open>main\<close> destroys the globals: the stream of the log is flushed and closed.\<close>

definition return_from_main :: "int \<Rightarrow> process \<Rightarrow> int \<times> process" where
  "return_from_main code p = (code, p\<lparr>globals := aof_close (globals p)\<rparr>)"

definition main :: "kernel \<Rightarrow> process \<Rightarrow> (int \<times> process) res option" where
  "main os p =
     (case on_globals startup (say ''Replaying AOF...'' p) of
        Inl e \<Rightarrow> Some (Inl e)
      | Inr p0 \<Rightarrow>
          (case open_server os (say ''AOF Replay complete!'' p0) of
             Inl p1 \<Rightarrow> Some (Inr (return_from_main 1 p1))
           | Inr (server_fd, epoll_fd, p1) \<Rightarrow>
               map_option (\<lambda>r. rbind r (\<lambda>p2. Inr (return_from_main 0 p2))) (main_loop os server_fd epoll_fd p1)))"

section \<open>Descriptors\<close>

definition new_fd :: "int \<Rightarrow> int set" where
  "new_fd r = (if 0 \<le> r then {r} else {})"

fun open_fds :: "kernel \<Rightarrow> syscall list \<Rightarrow> int set" where
  "open_fds os [] = {}"
| "open_fds os (c # h) = (case c of
     Close fd \<Rightarrow> open_fds os h - {fd}
   | Socket \<Rightarrow> open_fds os h \<union> new_fd (answer os (c # h))
   | Epoll_create1 \<Rightarrow> open_fds os h \<union> new_fd (answer os (c # h))
   | Accept_call _ \<Rightarrow> open_fds os h \<union> new_fd (answer os (c # h))
   | _ \<Rightarrow> open_fds os h)"

text \<open>A descriptor leaves the epoll set when it is removed and when it is closed.\<close>

fun watched :: "kernel \<Rightarrow> syscall list \<Rightarrow> int set" where
  "watched os [] = {}"
| "watched os (c # h) = (case c of
     Epoll_ctl_add e fd \<Rightarrow> (if answer os (c # h) = -1 then watched os h else insert fd (watched os h))
   | Epoll_ctl_del e fd \<Rightarrow> (if answer os (c # h) = -1 then watched os h else watched os h - {fd})
   | Close fd \<Rightarrow> watched os h - {fd}
   | _ \<Rightarrow> watched os h)"

text \<open>The discipline of descriptors: a call is made on descriptors that are open at that time, a descriptor is
  added to the epoll set only if it is not in it and removed only if it is; and so for every call of the
  history, against the calls before it.\<close>

fun used_fds :: "syscall \<Rightarrow> int set" where
  "used_fds Socket = {}"
| "used_fds (Setsockopt fd opt) = {fd}"
| "used_fds (Bind fd addr) = {fd}"
| "used_fds (Listen fd backlog) = {fd}"
| "used_fds Epoll_create1 = {}"
| "used_fds (Epoll_ctl_add e fd) = {e, fd}"
| "used_fds (Epoll_ctl_del e fd) = {e, fd}"
| "used_fds (Epoll_wait e m t) = {e}"
| "used_fds (Accept_call fd) = {fd}"
| "used_fds (Recv fd n) = {fd}"
| "used_fds (Close fd) = {fd}"

definition allowed :: "kernel \<Rightarrow> syscall \<Rightarrow> syscall list \<Rightarrow> bool" where
  "allowed os c h = (used_fds c \<subseteq> open_fds os h \<and> (case c of
     Epoll_ctl_add e fd \<Rightarrow> fd \<notin> watched os h
   | Epoll_ctl_del e fd \<Rightarrow> fd \<in> watched os h
   | _ \<Rightarrow> True))"

fun disciplined :: "kernel \<Rightarrow> syscall list \<Rightarrow> bool" where
  "disciplined os [] = True"
| "disciplined os (c # h) = (allowed os c h \<and> disciplined os h)"

text \<open>The documented behaviour the program relies on: a new descriptor is one that is not open, an
  \<open>epoll_create1\<close> that fails returns -1, \<open>epoll_wait\<close> reports different watched descriptors,
  \<open>recv\<close> returns at most the size of the buffer, which then holds that many bytes.\<close>

definition posix :: "kernel \<Rightarrow> bool" where
  "posix os = ((\<forall>h c. c = Socket \<or> c = Epoll_create1 \<or> (\<exists>fd. c = Accept_call fd) \<longrightarrow> answer os (c # h) \<notin> open_fds os h) \<and>
     (\<forall>h. -1 \<le> answer os (Epoll_create1 # h)) \<and>
     (\<forall>h e m t. let n = nat (answer os (Epoll_wait e m t # h)); fds = take n (ready os (Epoll_wait e m t # h)) in
        distinct fds \<and> set fds \<subseteq> watched os h) \<and>
     (\<forall>h fd m. let n = nat (answer os (Recv fd m # h)) in n \<le> m \<and> n \<le> length (received os (Recv fd m # h))))"

section \<open>The invariant of the loop\<close>

definition clients :: "process \<Rightarrow> int set" where
  "clients p = dom (clients_map (globals p)) - {-1}"

definition loop_inv :: "kernel \<Rightarrow> int \<Rightarrow> int \<Rightarrow> process \<Rightarrow> bool" where
  "loop_inv os server_fd epoll_fd p = (server_safe (globals p) \<and> server_fd \<noteq> epoll_fd \<and>
     server_fd \<notin> clients p \<and> epoll_fd \<notin> clients p \<and>
     open_fds os (calls p) = {server_fd, epoll_fd} \<union> clients p \<and>
     watched os (calls p) = insert server_fd (clients p) \<and> disciplined os (calls p))"

lemma process_frames [simp]:
  "globals (say msg p) = globals p" "calls (say msg p) = calls p"
  "globals (snd (call_kernel os c p)) = globals p" "calls (snd (call_kernel os c p)) = c # calls p"
  "calls (flush_log p) = calls p" "globals (flush_log p) = flush_aof (globals p)"
  by (simp_all add: say_def call_kernel_def flush_log_def)

lemma clients_frames [simp]:
  "clients (say msg p) = clients p" "clients (p\<lparr>calls := h\<rparr>) = clients p" "clients (flush_log p) = clients p"
  using core_eqD(3) [OF core_steps(13), of "globals p"] by (simp_all add: clients_def)

lemma clients_sessions: "clients p = dom (sessions (globals p)) - {-1}"
  by (simp add: clients_def dom_sessions)

lemma posixD:
  assumes "posix os"
  shows "c = Socket \<or> c = Epoll_create1 \<or> c = Accept_call fd \<Longrightarrow> answer os (c # h) \<notin> open_fds os h"
    "-1 \<le> answer os (Epoll_create1 # h)"
    "distinct (take (nat (answer os (Epoll_wait e m t # h))) (ready os (Epoll_wait e m t # h)))"
    "set (take (nat (answer os (Epoll_wait e m t # h))) (ready os (Epoll_wait e m t # h))) \<subseteq> watched os h"
    "nat (answer os (Recv fd m # h)) \<le> m" "nat (answer os (Recv fd m # h)) \<le> length (received os (Recv fd m # h))"
  using assms by (auto simp: posix_def Let_def)

text \<open>The outcome of handling one event: the invariant again, at most the descriptor of the event lost,
  and nothing but steps of the abstract server.\<close>

definition advances :: "kernel \<Rightarrow> int \<Rightarrow> int \<Rightarrow> int \<Rightarrow> process \<Rightarrow> process \<Rightarrow> bool" where
  "advances os server_fd epoll_fd fd p p' = (loop_inv os server_fd epoll_fd p' \<and>
     clients p - {fd} \<subseteq> clients p' \<and> server_step\<^sup>*\<^sup>* (globals p) (globals p'))"

lemma handled:
  assumes "server_safe (globals p)" "enabled e (globals p)"
  shows "guarded command_faults (\<lambda>p'. \<exists>g. p' = p\<lparr>globals := g\<rparr> \<and> handle_event e (globals p) = Inr g \<and>
    server_safe g \<and> server_step\<^sup>*\<^sup>* (globals p) g) (on_globals (handle_event e) p)"
  using handle_event_safe [OF assms] server_step.event [OF assms(2)]
  by (cases "handle_event e (globals p)") (auto simp: on_globals_def)

lemma accept_client_ok:
  assumes os: "posix os" and inv: "loop_inv os sfd efd p"
  shows "guarded command_faults (advances os sfd efd sfd p) (accept_client os sfd efd p)"
proof -
  let ?h = "Accept_call sfd # calls p" let ?fd = "answer os ?h"
  have fresh: "?fd \<notin> open_fds os (calls p)" using posixD(1) [OF os] by blast
  let ?p = "(say ''Client connected!'' (p\<lparr>calls := ?h\<rparr>))\<lparr>calls :=
    Epoll_ctl_add efd ?fd # Setsockopt ?fd ''TCP_NODELAY'' # ?h\<rparr>"
  consider (none) "?fd < 0" | (unwatched) "0 \<le> ?fd" "answer os (calls ?p) = -1"
    | (watched) "0 \<le> ?fd \<and> answer os (calls ?p) \<noteq> -1" by linarith
  then show ?thesis
  proof cases
    case none
    then show ?thesis using inv
      by (simp add: accept_client_def call_kernel_def advances_def loop_inv_def new_fd_def allowed_def)
  next
    case unwatched
    then have "accept_client os sfd efd p =
        Inr (snd (call_kernel os (Close ?fd) (say ''Failed to add client_fd to epoll'' ?p)))"
      by (simp add: accept_client_def call_kernel_def)
    then show ?thesis using unwatched inv fresh
      by (auto simp: call_kernel_def advances_def loop_inv_def new_fd_def allowed_def)
  next
    case True: watched
    have "clients_map (globals p) ?fd = None" using True inv fresh by (auto simp: loop_inv_def clients_def)
    then have en: "enabled (Accept ?fd) (globals ?p)" using True by (simp add: enabled_def)
    have safe: "server_safe (globals ?p)" using inv by (simp add: loop_inv_def)
    have run: "accept_client os sfd efd p = on_globals (handle_event (Accept ?fd)) ?p"
      using True by (simp add: accept_client_def call_kernel_def)
    have "advances os sfd efd sfd p (?p\<lparr>globals := g\<rparr>)"
      if g: "handle_event (Accept ?fd) (globals ?p) = Inr g" "server_safe g" "server_step\<^sup>*\<^sup>* (globals ?p) g" for g
    proof -
      have cl: "clients (?p\<lparr>globals := g\<rparr>) = insert ?fd (clients p)"
        using accept_sessions [OF safe g(1)] True by (auto simp: clients_sessions)
      show ?thesis using inv fresh True g(2,3) unfolding advances_def loop_inv_def cl by (auto simp: new_fd_def allowed_def)
    qed
    then show ?thesis using handled [OF safe en] unfolding run
      by (cases "on_globals (handle_event (Accept ?fd)) ?p") auto
  qed
qed

lemma serve_client_ok:
  assumes os: "posix os" and inv: "loop_inv os sfd efd p" and fd: "fd \<in> clients p"
  shows "guarded command_faults (advances os sfd efd fd p) (serve_client os efd fd p)"
proof -
  let ?h = "Recv fd BUFFER_SIZE # calls p" let ?n = "answer os ?h"
  have safe: "server_safe (globals p)" using inv by (simp add: loop_inv_def)
  have live: "clients_map (globals p) fd \<noteq> None" "fd \<noteq> -1" "fd \<noteq> sfd" "fd \<noteq> efd"
    using fd inv by (auto simp: clients_def loop_inv_def)
  show ?thesis
  proof (cases "0 < ?n")
    case True
    let ?e = "Receive fd (take (nat ?n) (received os ?h))" and ?p = "p\<lparr>calls := ?h\<rparr>"
    have run: "serve_client os efd fd p = on_globals (handle_event ?e) ?p"
      using True by (simp add: serve_client_def call_kernel_def)
    have "enabled ?e (globals ?p)"
      using live posixD(5,6) [OF os, of fd BUFFER_SIZE "calls p"] True by (auto simp: enabled_def BUFFER_SIZE_def)
    note ev = handled [of ?p, OF _ this]
    have "advances os sfd efd fd p (?p\<lparr>globals := g\<rparr>)"
      if g: "handle_event ?e (globals ?p) = Inr g" "server_safe g" "server_step\<^sup>*\<^sup>* (globals ?p) g" for g
    proof -
      obtain q where "sessions g = (sessions (globals p))(fd \<mapsto> q)"
        using event_sessions [OF safe, of ?e g] g(1) by (auto simp del: handle_event.simps)
      then have "clients (?p\<lparr>globals := g\<rparr>) = clients p" using fd by (auto simp: clients_sessions simp del: fun_upd_apply)
      then show ?thesis using inv fd g(2,3) by (auto simp: advances_def loop_inv_def allowed_def)
    qed
    then show ?thesis using ev safe unfolding run
      by (cases "on_globals (handle_event ?e) ?p") auto
  next
    case False
    let ?p = "(say ''Client disconnected'' (p\<lparr>calls := ?h\<rparr>))\<lparr>calls := Epoll_ctl_del efd fd # ?h\<rparr>"
    let ?e = "Hangup fd"
    have run: "serve_client os efd fd p =
      rbind (on_globals (handle_event ?e) ?p) (\<lambda>p3. Inr (snd (call_kernel os (Close fd) p3)))"
      using False by (simp add: serve_client_def call_kernel_def)
    have "enabled ?e (globals ?p)" using live by (simp add: enabled_def)
    note ev = handled [of ?p, OF _ this]
    have "advances os sfd efd fd p (snd (call_kernel os (Close fd) (?p\<lparr>globals := g\<rparr>)))"
      if g: "handle_event ?e (globals ?p) = Inr g" "server_safe g" "server_step\<^sup>*\<^sup>* (globals ?p) g" for g
    proof -
      have cl: "clients (snd (call_kernel os (Close fd) (?p\<lparr>globals := g\<rparr>))) = clients p - {fd}"
        using hangup_sessions [of "globals ?p" fd g] safe g(1) by (auto simp: clients_sessions call_kernel_def)
      show ?thesis using inv live fd g(2,3) unfolding advances_def loop_inv_def cl
        by (auto simp: call_kernel_def allowed_def)
    qed
    then show ?thesis using ev safe unfolding run
      by (cases "on_globals (handle_event ?e) ?p") auto
  qed
qed

lemma event_loop_ok:
  assumes os: "posix os" and "loop_inv os sfd efd p" "distinct fds" "set fds \<subseteq> insert sfd (clients p)"
  shows "guarded command_faults (\<lambda>p'. loop_inv os sfd efd p' \<and> server_step\<^sup>*\<^sup>* (globals p) (globals p'))
    (event_loop os sfd efd fds p)"
  using assms(2-)
proof (induction fds arbitrary: p)
  case (Cons fd fds)
  let ?r = "if fd = sfd then accept_client os sfd efd p else serve_client os efd fd p"
  have one: "guarded command_faults (advances os sfd efd fd p) ?r"
    using accept_client_ok [OF os Cons.prems(1)] serve_client_ok [OF os Cons.prems(1), of fd] Cons.prems(3) by auto
  show ?case
  proof (cases ?r)
    case (Inl e)
    then show ?thesis using one by simp
  next
    case (Inr p1)
    then have p1: "loop_inv os sfd efd p1" "clients p - {fd} \<subseteq> clients p1" "server_step\<^sup>*\<^sup>* (globals p) (globals p1)"
      using one by (simp_all add: advances_def)
    have "set fds \<subseteq> insert sfd (clients p1)" using Cons.prems(2,3) p1(2) by auto
    from Cons.IH [OF p1(1) _ this] Cons.prems(2) Inr p1(3) show ?thesis
      by (cases "event_loop os sfd efd fds p1") auto
  qed
qed simp

lemma loop_inv_frames [simp]:
  "loop_inv os sfd efd (say msg p) = loop_inv os sfd efd p"
  "loop_inv os sfd efd (p\<lparr>calls := Epoll_wait efd m t # calls p\<rparr>) = loop_inv os sfd efd p"
  "loop_inv os sfd efd (flush_log p) = loop_inv os sfd efd p"
  using server_safe_core [OF core_steps(13), of "globals p"] by (auto simp: loop_inv_def allowed_def)

lemma loop_round_ok:
  assumes os: "posix os" and inv: "loop_inv os sfd efd p"
  shows "guarded command_faults (\<lambda>(going, p'). loop_inv os sfd efd p' \<and> server_step\<^sup>*\<^sup>* (globals p) (globals p'))
    (loop_round os sfd efd p)"
proof -
  let ?h = "Epoll_wait efd MAX_EVENTS 100 # calls p"
  let ?p = "p\<lparr>calls := ?h\<rparr>" and ?fds = "take (nat (answer os ?h)) (ready os ?h)"
  have "distinct ?fds" "set ?fds \<subseteq> insert sfd (clients ?p)"
    using posixD(3,4) [OF os, of efd MAX_EVENTS 100 "calls p"] inv by (simp_all add: loop_inv_def)
  from event_loop_ok [OF os _ this] inv
  have ev: "guarded command_faults (\<lambda>p'. loop_inv os sfd efd p' \<and> server_step\<^sup>*\<^sup>* (globals p) (globals p'))
    (event_loop os sfd efd ?fds ?p)" by simp
  consider "answer os ?h < 0" | "answer os ?h = 0" | "0 < answer os ?h" by linarith
  then show ?thesis
  proof cases
    case 2
    then show ?thesis using inv server_step.flush [of "globals p"] by (simp add: loop_round_def call_kernel_def r_into_rtranclp)
  next
    case 3
    then show ?thesis using ev
      by (cases "event_loop os sfd efd ?fds ?p")
         (auto simp: loop_round_def call_kernel_def intro: rtranclp.rtrancl_into_rtrancl server_step.flush)
  qed (use inv in \<open>simp add: loop_round_def call_kernel_def\<close>)
qed

section \<open>From the start of the process\<close>

definition new_process :: "server \<Rightarrow> process" where
  "new_process g = \<lparr>globals = g, calls = [], console = []\<rparr>"

inductive serving :: "kernel \<Rightarrow> process \<Rightarrow> int \<Rightarrow> int \<Rightarrow> process \<Rightarrow> bool" for os p0 where
  set_up: "on_globals startup (say ''Replaying AOF...'' p0) = Inr p1 \<Longrightarrow>
    open_server os (say ''AOF Replay complete!'' p1) = Inr (sfd, efd, p) \<Longrightarrow> serving os p0 sfd efd p"
| round: "serving os p0 sfd efd p \<Longrightarrow> loop_round os sfd efd p = Inr (True, p') \<Longrightarrow> serving os p0 sfd efd p'"

lemma open_server_ok:
  assumes os: "posix os" and start: "calls p = []" "clients p = {}" "server_safe (globals p)"
    and opened: "open_server os p = Inr (sfd, efd, p')"
  shows "loop_inv os sfd efd p'" "globals p' = globals p"
proof -
  define h where "h = tl (calls p')"
  have p': "calls p' = Epoll_ctl_add efd sfd # h" "answer os (calls p') \<noteq> -1" "answer os h = efd" "efd \<noteq> -1"
    "h = [Epoll_create1, Listen sfd 128, Bind sfd a, Setsockopt sfd ''SO_REUSEADDR'', Socket]"
    "answer os [Socket] = sfd" "0 \<le> sfd" "globals p' = globals p"
    if "a = \<lparr>sin_addr = inet_addr os (case getenv os ''DRUTA_BIND_IP'' of None \<Rightarrow> ''127.0.0.1'' | Some ip \<Rightarrow> ip),
      sin_port = htons 6379\<rparr>" for a
    using opened start that by (auto simp: open_server_def call_kernel_def h_def Let_def split: if_splits)
  note p' = p' [OF refl]
  have "efd \<notin> open_fds os (tl h)" "-1 \<le> efd"
    using posixD(1) [OF os, of Epoll_create1 0 "tl h"] posixD(2) [OF os, of "tl h"] p'(3) unfolding p'(5) by simp_all
  then have "open_fds os (calls p') = {sfd, efd}" "watched os (calls p') = {sfd}" "sfd \<noteq> efd" "disciplined os (calls p')"
    using p'(2-4,6,7) unfolding p'(1) p'(5) by (simp_all add: new_fd_def insert_commute allowed_def)
  moreover have "clients p' = {}" using p'(8) start(2) by (simp add: clients_def)
  ultimately show "loop_inv os sfd efd p'" "globals p' = globals p"
    using start(3) p'(8) by (simp_all add: loop_inv_def)
qed

lemma serving_inv:
  assumes "serving os (new_process (boot clk tick spl fso disk)) sfd efd p" "posix os"
  shows "loop_inv os sfd efd p \<and> reachable (boot clk tick spl fso disk) (globals p)"
  using assms
proof (induction rule: serving.induct)
  case (set_up p1 sfd efd p)
  let ?b = "boot clk tick spl fso disk" and ?p = "say ''AOF Replay complete!'' p1"
  have p1: "startup ?b = Inr (globals ?p)" "calls ?p = []"
    using set_up(1) by (auto simp: on_globals_def new_process_def say_def)
  have safe: "server_safe (globals ?p)" using startup_safe [OF boot_safe] p1(1) by (metis guarded_simps(2))
  have "dom (sessions (globals ?p)) \<subseteq> insert (-1) {}"
    by (rule startup_sessions [OF boot_safe _ p1(1)]) (simp add: sessions_def boot_def)
  then have "clients ?p = {}" by (auto simp: clients_sessions)
  from open_server_ok [OF set_up(3) p1(2) this safe set_up(2)] reachable.start [OF p1(1)] show ?case by simp
next
  case (round sfd efd p p')
  then have p: "loop_inv os sfd efd p" "reachable (boot clk tick spl fso disk) (globals p)" by simp_all
  have p': "loop_inv os sfd efd p'" "server_step\<^sup>*\<^sup>* (globals p) (globals p')"
    using loop_round_ok [OF round.prems p(1)] round.hyps(2) by simp_all
  from p'(2) p(2) have "reachable (boot clk tick spl fso disk) (globals p')"
    by (induction rule: rtranclp_induct) (auto intro: reachable.step)
  with p'(1) show ?case by simp
qed

text \<open>The loop as long as it goes on, and its end.\<close>

lemma serving_main:
  assumes "serving os p0 sfd efd p"
  shows "main os p0 = map_option (\<lambda>r. rbind r (\<lambda>p2. Inr (return_from_main 0 p2))) (main_loop os sfd efd p)"
  using assms
proof (induction rule: serving.induct)
  case (round sfd efd p p')
  then show ?case using main_loop.simps [of os sfd efd p] by simp
qed (simp add: main_def)

lemma main_loop_diverges:
  assumes "\<And>q. P q \<Longrightarrow> \<exists>q'. loop_round os sfd efd q = Inr (True, q') \<and> P q'" "P p"
  shows "main_loop os sfd efd p = None"
proof -
  let ?Q = "\<lambda>os' s e q y. os' = os \<and> s = sfd \<and> e = efd \<longrightarrow> \<not> P q"
  have "?Q os sfd efd q y" if "main_loop os sfd efd q = Some y" for q y
  proof (rule main_loop.raw_induct [where P = ?Q, OF _ that], intro impI notI, elim conjE)
    fix f os' s e q y
    assume IH: "\<And>os' s e q y. f os' s e q = Some y \<Longrightarrow> ?Q os' s e q y"
      and step: "(case loop_round os' s e q of Inl e \<Rightarrow> Some (Inl e)
        | Inr (going, p1) \<Rightarrow> if going then f os' s e p1
          else Some (Inr (snd (call_kernel os' (Close e) (snd (call_kernel os' (Close s) p1)))))) = Some y"
      and q: "P q" "os' = os" "s = sfd" "e = efd"
    obtain q' where "loop_round os sfd efd q = Inr (True, q')" "P q'" using assms(1) q(1) by blast
    then show False using IH [of os sfd efd q' y] step q(2-4) by simp
  qed
  then show ?thesis using assms(2) by (metis option.exhaust)
qed

text \<open>The loop returns only through a failed \<open>epoll_wait\<close>.\<close>

definition closed_down :: "kernel \<Rightarrow> int \<Rightarrow> int \<Rightarrow> process \<Rightarrow> process" where
  "closed_down os server_fd epoll_fd p =
     snd (call_kernel os (Close epoll_fd) (snd (call_kernel os (Close server_fd) (say ''epoll_wait failed''
       (snd (call_kernel os (Epoll_wait epoll_fd MAX_EVENTS 100) p))))))"

lemma closed_down_eq:
  "snd (return_from_main 0 (closed_down os sfd efd p)) = \<lparr>globals = aof_close (globals p),
     calls = [Close efd, Close sfd, Epoll_wait efd MAX_EVENTS 100] @ calls p,
     console = console p @ [''epoll_wait failed'']\<rparr>"
  by (cases p) (simp add: return_from_main_def closed_down_def call_kernel_def say_def)

lemma loop_round_stops:
  "loop_round os sfd efd p = Inr (False, p') \<longleftrightarrow> answer os (Epoll_wait efd MAX_EVENTS 100 # calls p) < 0 \<and>
     p' = say ''epoll_wait failed'' (snd (call_kernel os (Epoll_wait efd MAX_EVENTS 100) p))"
  by (auto simp: loop_round_def call_kernel_def)

lemma main_loop_returns:
  assumes "main_loop os sfd efd p = Some (Inr p')" "serving os p0 sfd efd p"
  shows "\<exists>q. serving os p0 sfd efd q \<and> answer os (Epoll_wait efd MAX_EVENTS 100 # calls q) < 0 \<and> p' = closed_down os sfd efd q"
proof -
  let ?Q = "\<lambda>os s e p (y :: process res). serving os p0 s e p \<longrightarrow> (\<forall>p'. y = Inr p' \<longrightarrow>
    (\<exists>q. serving os p0 s e q \<and> answer os (Epoll_wait e MAX_EVENTS 100 # calls q) < 0 \<and> p' = closed_down os s e q))"
  have "?Q os sfd efd p (Inr p')"
  proof (rule main_loop.raw_induct [where P = ?Q, OF _ assms(1)], intro impI allI)
    fix f os s e p y p'
    assume IH: "\<And>os s e p y. f os s e p = Some y \<Longrightarrow> ?Q os s e p y"
      and step: "(case loop_round os s e p of Inl e \<Rightarrow> Some (Inl e)
        | Inr (going, p1) \<Rightarrow> if going then f os s e p1
          else Some (Inr (snd (call_kernel os (Close e) (snd (call_kernel os (Close s) p1)))))) = Some y"
      and p: "serving os p0 s e p" "y = Inr p'"
    obtain going p1 where p1: "loop_round os s e p = Inr (going, p1)" using step p(2) by (auto split: sum.splits)
    show "\<exists>q. serving os p0 s e q \<and> answer os (Epoll_wait e MAX_EVENTS 100 # calls q) < 0 \<and> p' = closed_down os s e q"
    proof (cases going)
      case True
      then have "f os s e p1 = Some y" "serving os p0 s e p1" using step p1 p(1) serving.round by simp_all
      then show ?thesis using IH p(2) by blast
    next
      case False
      then have "answer os (Epoll_wait e MAX_EVENTS 100 # calls p) < 0" "p' = closed_down os s e p"
        using step p1 p(2) loop_round_stops [of os s e p p1] by (simp_all add: closed_down_def)
      then show ?thesis using p(1) by blast
    qed
  qed
  then show ?thesis using assms(2) by blast
qed

lemma main_loop_stops:
  "answer os (Epoll_wait efd MAX_EVENTS 100 # calls p) < 0 \<Longrightarrow> main_loop os sfd efd p = Some (Inr (closed_down os sfd efd p))"
  by (subst main_loop.simps) (simp add: closed_down_def loop_round_def call_kernel_def)

section \<open>The calls of the set-up\<close>

definition setup_calls :: "kernel \<Rightarrow> syscall list \<Rightarrow> syscall list" where
  "setup_calls os h =
     (let sfd = answer os (Socket # h);
          ip = (case getenv os ''DRUTA_BIND_IP'' of Some ip \<Rightarrow> ip | None \<Rightarrow> ''127.0.0.1'');
          cs = [Socket, Setsockopt sfd ''SO_REUSEADDR'', Bind sfd \<lparr>sin_addr = inet_addr os ip, sin_port = htons 6379\<rparr>,
            Listen sfd 128, Epoll_create1]
      in cs @ [Epoll_ctl_add (answer os (rev cs @ h)) sfd])"

fun call_failed :: "syscall \<Rightarrow> int \<Rightarrow> bool" where
  "call_failed Socket r = (r < 0)"
| "call_failed (Setsockopt _ _) r = (r < 0)"
| "call_failed (Bind _ _) r = (r \<noteq> 0)"
| "call_failed (Listen _ _) r = (r \<noteq> 0)"
| "call_failed _ r = (r = -1)"

text \<open>The index of the first of the calls \<open>cs\<close>, made in order, that fails.\<close>

fun first_failure :: "kernel \<Rightarrow> syscall list \<Rightarrow> syscall list \<Rightarrow> nat option" where
  "first_failure os h [] = None"
| "first_failure os h (c # cs) =
     (if call_failed c (answer os (c # h)) then Some 0 else map_option Suc (first_failure os (c # h) cs))"

definition setup_messages :: "string list" where
  "setup_messages = [''Failed to create server socket'', ''setsockopt failed'', ''Failed to bind to port 6379'',
     ''listen failed'', ''Failed to create epoll instance'', ''Failed to add server_fd to epoll'']"

lemma open_server_eq:
  "open_server os p = (let cs = setup_calls os (calls p) in
     case first_failure os (calls p) cs of
       Some i \<Rightarrow> Inl (say (setup_messages ! i) (p\<lparr>calls := rev (take (Suc i) cs) @ calls p\<rparr>))
     | None \<Rightarrow> Inr (answer os (Socket # calls p), answer os (rev (take 5 cs) @ calls p), p\<lparr>calls := rev cs @ calls p\<rparr>))"
  by (simp add: open_server_def setup_calls_def call_kernel_def setup_messages_def Let_def)

section \<open>Properties\<close>

text \<open>A kernel for examples: descriptors 3, 4 and 5 for the listening socket, epoll and one client; the
  first \<open>epoll_wait\<close> returns \<open>first\<close>, the later ones \<open>later\<close>.\<close>

definition is_accept :: "syscall \<Rightarrow> bool" where
  "is_accept c = (case c of Accept_call _ \<Rightarrow> True | _ \<Rightarrow> False)"

definition demo_answer :: "int \<Rightarrow> int \<Rightarrow> syscall list \<Rightarrow> int" where
  "demo_answer first later h = (case h of [] \<Rightarrow> 0 | c # t \<Rightarrow> (case c of
     Socket \<Rightarrow> if Socket \<in> set t then -1 else 3
   | Epoll_create1 \<Rightarrow> if Epoll_create1 \<in> set t then -1 else 4
   | Accept_call _ \<Rightarrow> if \<exists>c\<in>set t. is_accept c then -1 else 5
   | Epoll_wait _ _ _ \<Rightarrow> (case t of Epoll_ctl_add _ fd # _ \<Rightarrow> if fd = 3 then first else later | _ \<Rightarrow> later)
   | _ \<Rightarrow> 0))"

definition demo_kernel :: "int \<Rightarrow> int \<Rightarrow> kernel" where
  "demo_kernel first later = \<lparr>answer = demo_answer first later, ready = (\<lambda>_. [3]), received = (\<lambda>_. []),
     getenv = (\<lambda>_. None), inet_addr = (\<lambda>_. 0)\<rparr>"

lemma demo_open:
  "open_fds (demo_kernel first later) h \<subseteq> {0..}"
  "3 \<in> open_fds (demo_kernel first later) h \<Longrightarrow> Socket \<in> set h"
  "4 \<in> open_fds (demo_kernel first later) h \<Longrightarrow> Epoll_create1 \<in> set h"
  "5 \<in> open_fds (demo_kernel first later) h \<Longrightarrow> \<exists>c\<in>set h. is_accept c"
proof (induction h)
  case (Cons c h)
  { case 1 show ?case using Cons by (cases c) (auto simp: new_fd_def) }
  { case 2 then show ?case using Cons by (cases c) (auto simp: new_fd_def demo_kernel_def demo_answer_def split: if_splits) }
  { case 3 then show ?case using Cons by (cases c) (auto simp: new_fd_def demo_kernel_def demo_answer_def split: if_splits) }
  { case 4 then show ?case using Cons by (cases c) (auto simp: new_fd_def demo_kernel_def demo_answer_def is_accept_def split: if_splits) }
qed simp_all

lemma demo_posix:
  assumes "first \<le> 1" "later \<le> 0"
  shows "posix (demo_kernel first later)"
proof -
  let ?os = "demo_kernel first later"
  have neg: "-1 \<notin> open_fds ?os h" for h using demo_open(1) [of first later h] by fastforce
  have "answer ?os (c # h) \<notin> open_fds ?os h" if "c = Socket \<or> c = Epoll_create1 \<or> (\<exists>fd. c = Accept_call fd)" for c h
  proof -
    have "answer ?os (c # h) = -1 \<or> answer ?os (c # h) = 3 \<and> Socket \<notin> set h \<or>
        answer ?os (c # h) = 4 \<and> Epoll_create1 \<notin> set h \<or> answer ?os (c # h) = 5 \<and> \<not> (\<exists>c\<in>set h. is_accept c)"
      using that by (auto simp: demo_kernel_def demo_answer_def)
    then show ?thesis using neg demo_open(2-4) by metis
  qed
  moreover have "set (take (nat (answer ?os (Epoll_wait e m t # h))) (ready ?os (Epoll_wait e m t # h))) \<subseteq> watched ?os h" for e m t h
    using assms by (cases h) (auto simp: demo_kernel_def demo_answer_def split: syscall.splits dest: in_set_takeD)
  moreover have "distinct (take n (ready ?os h))" for n h by (simp add: demo_kernel_def)
  ultimately show ?thesis
    by (auto simp: posix_def Let_def) (auto simp: demo_kernel_def demo_answer_def)
qed

definition demo_boot :: server where
  "demo_boot = boot (\<lambda>_. 0) (\<lambda>_. 0) (\<lambda>_. 0) (\<lambda>_. False) []"

lemma demo_set_up: "\<exists>p. serving (demo_kernel first later) (new_process demo_boot) 3 4 p \<and>
    calls p = rev [Socket, Setsockopt 3 ''SO_REUSEADDR'', Bind 3 \<lparr>sin_addr = 0, sin_port = htons 6379\<rparr>, Listen 3 128,
      Epoll_create1, Epoll_ctl_add 4 3] \<and> globals p = demo_boot\<lparr>fs_ticks := 2\<rparr>"
proof -
  let ?os = "demo_kernel first later"
  let ?p = "(new_process (demo_boot\<lparr>fs_ticks := 2\<rparr>))\<lparr>console := [''Replaying AOF...'']\<rparr>"
  have one: "on_globals startup (say ''Replaying AOF...'' (new_process demo_boot)) = Inr ?p"
    by (simp add: on_globals_def startup_def replay_aof_def fs_try_def boot_def demo_boot_def new_process_def say_def)
  obtain p where two: "open_server ?os (say ''AOF Replay complete!'' ?p) = Inr (3, 4, p)"
    "calls p = rev [Socket, Setsockopt 3 ''SO_REUSEADDR'', Bind 3 \<lparr>sin_addr = 0, sin_port = htons 6379\<rparr>, Listen 3 128,
      Epoll_create1, Epoll_ctl_add 4 3]" "globals p = demo_boot\<lparr>fs_ticks := 2\<rparr>"
    by (simp add: open_server_def call_kernel_def demo_kernel_def demo_answer_def new_process_def)
  from serving.set_up [OF one two(1)] two(2,3) show ?thesis by blast
qed

text \<open>
  \<^bold>\<open>C2\<close>. The loop of \<open>main\<close> refines the abstract server: with a kernel that
  behaves as documented, the globals of the process in every round are a reachable state of the step
  system, and the next round consists of steps of it (accepted connections, received bytes, closed
  connections, a flush) or ends in one of the four faults of the commands. Failed \<open>accept\<close> and \<open>epoll_ctl\<close>
  calls are no steps at all.
\<close>

theorem main_refines_server:
  assumes "posix os" "serving os (new_process (boot clk tick spl fso disk)) server_fd epoll_fd p"
  shows "reachable (boot clk tick spl fso disk) (globals p) \<and>
    ((\<exists>going p'. loop_round os server_fd epoll_fd p = Inr (going, p') \<and> server_step\<^sup>*\<^sup>* (globals p) (globals p')) \<or>
     loop_round os server_fd epoll_fd p \<in> Inl ` {Use_after_free, Empty_container, Signed_overflow, Uncaught_exception})"
proof -
  have p: "loop_inv os server_fd epoll_fd p" "reachable (boot clk tick spl fso disk) (globals p)"
    using serving_inv [OF assms(2,1)] by simp_all
  then show ?thesis using loop_round_ok [OF assms(1) p(1)]
    by (cases "loop_round os server_fd epoll_fd p") (auto simp: command_faults_def)
qed

theorem main_refines_server_witness:
  "\<exists>p. serving (demo_kernel 1 (-1)) (new_process demo_boot) 3 4 p \<and> reachable demo_boot (globals p)"
proof -
  obtain p where "serving (demo_kernel 1 (-1)) (new_process demo_boot) 3 4 p" using demo_set_up by blast
  with main_refines_server [OF demo_posix this [unfolded demo_boot_def]] show ?thesis
    by (auto simp: demo_boot_def)
qed

text \<open>
  \<^bold>\<open>C11\<close>. No descriptor is leaked and none is used after it was closed. Before every
  round of the loop the open descriptors are exactly the listening socket, the epoll instance and those of
  the clients in \<open>clients_map\<close> (the entry -1 of the replay apart), and the watched ones are exactly the
  listening socket and the clients; whatever the kernel answers to \<open>accept\<close>, \<open>epoll_ctl\<close> and \<open>recv\<close>. And
  every call that \<open>main\<close> has made since its start, in the middle of a round too, was made on
  descriptors that were open at that time: nothing is received on, watched, removed or closed once it has
  been closed, nothing is watched twice. The closing calls at the end keep this.
\<close>

theorem descriptors_accounted:
  assumes "posix os" "serving os (new_process (boot clk tick spl fso disk)) server_fd epoll_fd p"
  shows "open_fds os (calls p) = {server_fd, epoll_fd} \<union> (dom (clients_map (globals p)) - {-1}) \<and>
    watched os (calls p) = {server_fd} \<union> (dom (clients_map (globals p)) - {-1}) \<and>
    server_fd \<noteq> epoll_fd \<and> {server_fd, epoll_fd} \<inter> (dom (clients_map (globals p)) - {-1}) = {} \<and>
    disciplined os ([Close epoll_fd, Close server_fd, Epoll_wait epoll_fd MAX_EVENTS 100] @ calls p)"
  using serving_inv [OF assms(2,1)] by (auto simp: loop_inv_def clients_def allowed_def)

theorem descriptors_accounted_witness:
  "\<exists>p. serving (demo_kernel 1 (-1)) (new_process demo_boot) 3 4 p \<and> open_fds (demo_kernel 1 (-1)) (calls p) = {3, 4, 5} \<and>
     disciplined (demo_kernel 1 (-1)) (calls p)"
proof -
  let ?os = "demo_kernel 1 (-1)"
  obtain p where p: "serving ?os (new_process demo_boot) 3 4 p"
    "calls p = rev [Socket, Setsockopt 3 ''SO_REUSEADDR'', Bind 3 \<lparr>sin_addr = 0, sin_port = htons 6379\<rparr>, Listen 3 128,
      Epoll_create1, Epoll_ctl_add 4 3]" "globals p = demo_boot\<lparr>fs_ticks := 2\<rparr>" using demo_set_up by blast
  have "\<exists>p'. loop_round ?os 3 4 p = Inr (True, p') \<and> dom (clients_map (globals p')) = {5}"
    by (simp add: loop_round_def call_kernel_def p(2,3) demo_kernel_def demo_answer_def accept_client_def is_accept_def
        on_globals_def flush_log_def flush_aof_def steady_now_def aof_flush_def upd_client_def boot_def demo_boot_def Let_def)
  then obtain p' where p': "loop_round ?os 3 4 p = Inr (True, p')" "dom (clients_map (globals p')) = {5}" by blast
  have run: "serving ?os (new_process demo_boot) 3 4 p'" by (rule serving.round [OF p(1) p'(1)])
  have "open_fds ?os (calls p') = {3, 4, 5}" "disciplined ?os (calls p')"
    using descriptors_accounted [OF demo_posix run [unfolded demo_boot_def]] p'(2) by auto
  with run show ?thesis by blast
qed

text \<open>
  \<^bold>\<open>C18\<close>. After the replay, \<open>main\<close> makes the six calls of the set-up in order, each
  on the descriptors that the earlier ones returned and the address on 127.0.0.1 or \<open>DRUTA_BIND_IP\<close>; at
  the first that fails it prints that call's message, makes no further call, and returns 1 with the log
  closed. It goes on to serve exactly if none fails.
\<close>

theorem setup_stops_at_failure:
  assumes "startup (globals p) = Inr g"
  shows "let cs = setup_calls os (calls p); log = console p @ [''Replaying AOF...'', ''AOF Replay complete!''] in
    case first_failure os (calls p) cs of
      Some i \<Rightarrow> main os p = Some (Inr (1, \<lparr>globals = aof_close g, calls = rev (take (Suc i) cs) @ calls p,
        console = log @ [setup_messages ! i]\<rparr>))
    | None \<Rightarrow> serving os p (answer os (Socket # calls p)) (answer os (rev (take 5 cs) @ calls p))
        \<lparr>globals = g, calls = rev cs @ calls p, console = log\<rparr>"
proof -
  let ?p = "p\<lparr>globals := g, console := console p @ [''Replaying AOF...'']\<rparr>"
  have one: "on_globals startup (say ''Replaying AOF...'' p) = Inr ?p" using assms by (simp add: on_globals_def say_def)
  have "calls (say ''AOF Replay complete!'' ?p) = calls p" by simp
  note two = open_server_eq [of os "say ''AOF Replay complete!'' ?p", unfolded this Let_def]
  show ?thesis
    using one two serving.set_up [OF one]
    by (cases "first_failure os (calls p) (setup_calls os (calls p))")
       (simp_all add: main_def return_from_main_def say_def Let_def)
qed

theorem setup_stops_at_failure_witness:
  "let os = (demo_kernel 1 (-1))\<lparr>answer := (\<lambda>_. -1)\<rparr> in
    main os (new_process demo_boot) = Some (Inr (1, \<lparr>globals = aof_close (demo_boot\<lparr>fs_ticks := 2\<rparr>), calls = [Socket],
      console = [''Replaying AOF...'', ''AOF Replay complete!'', ''Failed to create server socket'']\<rparr>))"
proof -
  have "startup (globals (new_process demo_boot)) = Inr (demo_boot\<lparr>fs_ticks := 2\<rparr>)"
    by (simp add: startup_def replay_aof_def fs_try_def boot_def demo_boot_def new_process_def)
  from setup_stops_at_failure [OF this, of "(demo_kernel 1 (-1))\<lparr>answer := (\<lambda>_. -1)\<rparr>"] show ?thesis
    by (simp add: setup_calls_def Let_def new_process_def setup_messages_def)
qed

text \<open>
  \<^bold>\<open>C16\<close>. \<open>main\<close> returns 0 exactly if some round's \<open>epoll_wait\<close> fails (a signal is enough),
  and then with the globals of that round, the log's stream closed and the two descriptors of the server
  closed, in this order; the descriptors of the clients are not closed.
\<close>

theorem main_returns_iff:
  "main os p0 = Some (Inr (0, p')) \<longleftrightarrow> (\<exists>server_fd epoll_fd p. serving os p0 server_fd epoll_fd p \<and>
     answer os (Epoll_wait epoll_fd MAX_EVENTS 100 # calls p) < 0 \<and>
     p' = \<lparr>globals = aof_close (globals p),
       calls = [Close epoll_fd, Close server_fd, Epoll_wait epoll_fd MAX_EVENTS 100] @ calls p,
       console = console p @ [''epoll_wait failed'']\<rparr>)"
  (is "?l \<longleftrightarrow> ?r")
proof
  assume ?l
  then obtain p1 sfd efd p p2 where
    "on_globals startup (say ''Replaying AOF...'' p0) = Inr p1"
    "open_server os (say ''AOF Replay complete!'' p1) = Inr (sfd, efd, p)"
    and run: "main_loop os sfd efd p = Some (Inr p2)" "p' = snd (return_from_main 0 p2)"
    by (auto simp: main_def return_from_main_def split: sum.splits)
  then have "serving os p0 sfd efd p" by (rule_tac serving.set_up)
  from main_loop_returns [OF run(1) this] run(2) show ?r by (metis closed_down_eq)
next
  assume ?r
  then obtain sfd efd p where p: "serving os p0 sfd efd p" "answer os (Epoll_wait efd MAX_EVENTS 100 # calls p) < 0"
    "p' = \<lparr>globals = aof_close (globals p), calls = [Close efd, Close sfd, Epoll_wait efd MAX_EVENTS 100] @ calls p,
       console = console p @ [''epoll_wait failed'']\<rparr>" by blast
  have "return_from_main 0 (closed_down os sfd efd p) = (0, p')"
    using closed_down_eq [of os sfd efd p] p(3) by (simp add: return_from_main_def)
  with serving_main [OF p(1)] main_loop_stops [OF p(2)] show ?l by simp
qed

text \<open>
  \<^bold>\<open>C17\<close>. As long as \<open>epoll_wait\<close> does not fail and no request faults, the server goes on
  serving: there is a next round after every round, and \<open>main\<close> does not return.
\<close>

theorem main_serves_on:
  assumes "serving os p0 server_fd epoll_fd p"
    "\<And>q. serving os p0 server_fd epoll_fd q \<Longrightarrow> 0 \<le> answer os (Epoll_wait epoll_fd MAX_EVENTS 100 # calls q) \<and>
      (\<forall>e. loop_round os server_fd epoll_fd q \<noteq> Inl e)"
  shows "(\<exists>q. loop_round os server_fd epoll_fd p = Inr (True, q) \<and> serving os p0 server_fd epoll_fd q) \<and> main os p0 = None"
proof -
  have next_round: "\<exists>q'. loop_round os server_fd epoll_fd q = Inr (True, q') \<and> serving os p0 server_fd epoll_fd q'"
    if q: "serving os p0 server_fd epoll_fd q" for q
  proof (cases "loop_round os server_fd epoll_fd q")
    case (Inr r)
    obtain going q' where "r = (going, q')" by (cases r)
    then show ?thesis
      using Inr assms(2) [OF q] loop_round_stops [of os server_fd epoll_fd q q'] serving.round [OF q] by (cases going) auto
  qed (use assms(2) [OF q] in blast)
  have "main_loop os server_fd epoll_fd p = None"
    by (rule main_loop_diverges [where P = "serving os p0 server_fd epoll_fd"]) (rule next_round, assumption, rule assms(1))
  with next_round [OF assms(1)] serving_main [OF assms(1)] show ?thesis by simp
qed

theorem main_serves_on_witness: "main (demo_kernel 0 0) (new_process demo_boot) = None"
proof -
  have "answer (demo_kernel 0 0) (Epoll_wait 4 MAX_EVENTS 100 # h) = 0" for h
    by (auto simp: demo_kernel_def demo_answer_def split: list.split syscall.split)
  then have "0 \<le> answer (demo_kernel 0 0) (Epoll_wait 4 MAX_EVENTS 100 # calls q) \<and>
      (\<forall>e. loop_round (demo_kernel 0 0) 3 4 q \<noteq> Inl e)" for q
    by (simp add: loop_round_def call_kernel_def)
  with demo_set_up [of 0 0] show ?thesis using main_serves_on [of "demo_kernel 0 0" "new_process demo_boot" 3 4] by blast
qed

end
