(* ===== verification/Workload.thy ===== *)
theory Workload
  imports Sessions
begin

text \<open>
  Long runs of requests. A predicate on values that every command keeps, for requests of some kind, is
  the locale \<open>value_invariant\<close>: its laws are the obligations of the writing commands, its consequences
  that the handler keeps the exact store invariant, and answers, along any sequence of requests. It is
  interpreted for \<open>regular\<close> values (only strings carry an expiry time, a \<open>long long\<close>, hashes hold short
  strings and are counted exactly) and \<open>modest\<close> requests.
\<close>

section \<open>Values of a store\<close>

definition stored :: "DrutaValue \<Rightarrow> bool" where
  "stored v = (value_ok v \<and> unat (memory_usage v) < 2 ^ 27)"

lemma db_inv_stored:
  assumes "db_inv s c" "map_of c k = Some v"
  shows "stored v"
proof -
  have kv: "(k, v) \<in> set c" using assms(2) by (rule map_of_SomeD)
  have "cache_bytes c < 2 ^ 27" "\<forall>e\<in>set c. value_ok (snd e)" using assms(1) by (auto elim: db_invE)
  then show ?thesis using entry_size_ge [OF kv] kv by (auto simp: stored_def entry_size_def)
qed

definition values_all :: "(DrutaValue \<Rightarrow> bool) \<Rightarrow> cache \<Rightarrow> bool" where
  "values_all P c = (\<forall>e\<in>set c. P (snd e))"

lemma values_all_ops [simp]:
  "values_all P []" "values_all P (c @ [(k, v)]) \<longleftrightarrow> values_all P c \<and> P v"
  "values_all P c \<Longrightarrow> values_all P (cache_del k c)" "values_all P c \<Longrightarrow> values_all P (cache_touch k c)"
  "values_all P c \<Longrightarrow> values_all P (evict_spec c)" "values_all P c \<Longrightarrow> P v \<Longrightarrow> values_all P (cache_upd k v c)"
  "values_all P c \<Longrightarrow> P v \<Longrightarrow> values_all P (set_spec k v c)"
proof -
  have sub: "values_all P c \<Longrightarrow> set c' \<subseteq> set c \<Longrightarrow> values_all P c'" for c c' by (auto simp: values_all_def)
  show "values_all P []" "values_all P (c @ [(k, v)]) \<longleftrightarrow> values_all P c \<and> P v" by (auto simp: values_all_def)
  show "values_all P c \<Longrightarrow> values_all P (cache_del k c)" using sub cache_op_sets(1) by blast
  show t: "values_all P c \<Longrightarrow> values_all P (cache_touch k c)" for c by (simp add: values_all_def cache_op_sets(2))
  show e: "values_all P c \<Longrightarrow> values_all P (evict_spec c)" for c using sub cache_op_sets(3) by blast
  show u: "values_all P c \<Longrightarrow> P v \<Longrightarrow> values_all P (cache_upd k v c)" for c
    using cache_op_sets(4) [of k v c] by (auto simp: values_all_def)
  show "values_all P c \<Longrightarrow> P v \<Longrightarrow> values_all P (set_spec k v c)"
    unfolding set_spec_def by (auto intro!: t e u) (auto simp: values_all_def)
qed

lemma values_all_lookup: "values_all P c \<Longrightarrow> map_of c k = Some v \<Longrightarrow> P v"
  by (auto simp: values_all_def dest!: map_of_SomeD)

text \<open>All values that a specified outcome leaves in the store have the property.\<close>

definition leaves :: "(DrutaValue \<Rightarrow> bool) \<Rightarrow> command_spec \<Rightarrow> bool" where
  "leaves P spec = (case spec of Inl e \<Rightarrow> True | Inr (c, _, _) \<Rightarrow> values_all P c)"

lemma leaves_simps [simp]: "leaves P (Inl e)" "leaves P (Inr (c, msg, b)) = values_all P c"
  by (simp_all add: leaves_def)

lemma leaves_if: "(b \<Longrightarrow> leaves P x) \<Longrightarrow> leaves P y \<Longrightarrow> leaves P (if b then x else y)"
  by simp

lemma leaves_typed:
  assumes "leaves P missing" "\<And>v x. map_of c k = Some v \<Longrightarrow> f (data v) = Some x \<Longrightarrow> leaves P (found v x)" "values_all P c"
  shows "leaves P (typed_spec f k c missing found)"
  using assms by (auto simp: typed_spec_def split: option.split)

lemma leaves_write: "values_all P c \<Longrightarrow> P w \<Longrightarrow> leaves P (write_spec k w c msg b)"
  by (simp add: write_spec_def)

section \<open>Answers\<close>

text \<open>After everything sent before and whatever is sent to others meanwhile, the client gets a reply.\<close>

definition answered :: "int \<Rightarrow> ('z) io_state_scheme \<Rightarrow> ('z) io_state_scheme \<Rightarrow> bool" where
  "answered fd s s' = (\<exists>ms. out s' = out s @ ms \<and> (fd \<noteq> -1 \<longrightarrow> ms \<noteq> [] \<and> fst (last ms) = fd))"

lemma answered_send [simp]: "answered fd s (send fd msg s)" "answered fd s (sys_send fd msg s)"
  by (auto simp: answered_def sys_send_def)

lemma answered_cong: "answered fd s s' \<Longrightarrow> out t = out s \<Longrightarrow> answered fd t s'"
  by (simp add: answered_def)

lemma upd_out [simp]: "out (upd_client fd f s) = out s" "out (upd_channel ch g s) = out s"
  by (simp_all add: upd_client_def upd_channel_def)

lemma subscribe_out: "\<exists>ms. out (subscribe_loop fd chs s) = out s @ map (Pair fd) ms \<and> (chs \<noteq> [] \<longrightarrow> ms \<noteq> [])"
proof (induction chs arbitrary: s)
  case (Cons ch chs)
  let ?full = "\<not> set_contains ch (subscribed_channels (client_of fd s)) \<and>
    MAX_SUBSCRIPTIONS_PER_CLIENT \<le> length (subscribed_channels (client_of fd s))"
  show ?case
  proof (cases ?full)
    case True
    then show ?thesis
      by (intro exI [of _ "[''-ERR maximum number of subscriptions reached'' @ crlf]"]) (simp add: sys_send_def)
  next
    case False
    then obtain s' msg where s': "subscribe_loop fd (ch # chs) s = subscribe_loop fd chs s'" "out s' = out s @ [(fd, msg)]"
      by (auto simp: Let_def sys_send_def split del: if_split)
    obtain ms where "out (subscribe_loop fd chs s') = out s' @ map (Pair fd) ms" using Cons.IH by blast
    then show ?thesis using s' by (intro exI [of _ "msg # ms"]) simp
  qed
qed simp

lemma unsubscribe_out: "\<exists>ms. out (pubsub_unsubscribe fd args s) = out s @ map (Pair fd) ms \<and> ms \<noteq> []"
proof -
  have one: "\<exists>msg. out (unsubscribe_one fd ch s) = out s @ [(fd, msg)]" for ch and s :: "('a) pubsub_state_scheme"
    by (simp add: unsubscribe_one_def Let_def sys_send_def)
  have many: "\<exists>ms. out (fold (unsubscribe_one fd) chs s) = out s @ map (Pair fd) ms \<and> length ms = length chs"
    for chs and s :: "('a) pubsub_state_scheme"
  proof (induction chs arbitrary: s)
    case (Cons ch chs)
    obtain msg where msg: "out (unsubscribe_one fd ch s) = out s @ [(fd, msg)]" using one by blast
    obtain ms where "out (fold (unsubscribe_one fd) chs (unsubscribe_one fd ch s)) = out (unsubscribe_one fd ch s) @ map (Pair fd) ms \<and>
      length ms = length chs" using Cons.IH by blast
    then show ?case using msg by (intro exI [of _ "msg # ms"]) simp
  qed simp
  let ?chs = "if length args = 1 then subscribed_channels (client_of fd s) else drop 1 args"
  let ?s = "if length args = 1 then upd_client fd id s else s"
  have out: "out ?s = out s" by simp
  show ?thesis
  proof (cases "?chs = []")
    case True
    then have "\<exists>msg. out (pubsub_unsubscribe fd args s) = out s @ [(fd, msg)]"
      using out by (simp add: pubsub_unsubscribe_def Let_def sys_send_def)
    then obtain msg where "out (pubsub_unsubscribe fd args s) = out s @ [(fd, msg)]" by blast
    then show ?thesis by (intro exI [of _ "[msg]"]) simp
  next
    case False
    then have "pubsub_unsubscribe fd args s = fold (unsubscribe_one fd) ?chs ?s" by (simp add: pubsub_unsubscribe_def Let_def)
    moreover obtain ms where "out (fold (unsubscribe_one fd) ?chs ?s) = out ?s @ map (Pair fd) ms" "length ms = length ?chs"
      using many by blast
    moreover have "ms \<noteq> []" using calculation(3) False by auto
    ultimately show ?thesis using out by metis
  qed
qed

lemma answeredI: "out s' = out s @ map (Pair fd) ms \<Longrightarrow> ms \<noteq> [] \<Longrightarrow> answered fd s s'"
  by (auto simp: answered_def last_map)

lemma server_command_answers:
  assumes "pubsub_inv s"
  shows "answered fd s (fst (server_command fd cmd args s))"
proof -
  have if_same: "(b \<Longrightarrow> answered fd s (fst x)) \<Longrightarrow> answered fd s (fst y) \<Longrightarrow>
      answered fd s (fst (if b then x else y))" for b and x y :: "('a) server_scheme \<times> bool" by simp
  have flush: "answered fd s (fst (command_flushdb fd args s))"
  proof -
    have "out (flush_clear_aof (kv_clear (clear_lru s))) = out s"
      using core_eqD(5) [OF core_steps(12), of "kv_clear (clear_lru s)"] by (simp add: kv_clear_def clear_lru_def)
    then show ?thesis by (auto simp: command_flushdb_def answered_def)
  qed
  have sub: "2 \<le> length args \<Longrightarrow> answered fd s (command_subscribe fd args s)"
    using subscribe_out [of fd "drop 1 args" s] answeredI by (fastforce simp: command_subscribe_def pubsub_subscribe_def)
  have unsub: "answered fd s (command_unsubscribe fd args s)"
    using unsubscribe_out [of fd args s] answeredI by (auto simp: command_unsubscribe_def)
  have pub: "length args = 3 \<Longrightarrow> answered fd s (command_publish fd args s)"
    using assms by (auto simp: command_publish_def pubsub_publish_ok send_integer_eq answered_def)
  show ?thesis
    unfolding server_command_def by (intro if_same) (simp_all add: flush sub unsub pub)
qed

lemma store_command_server: "cmd \<in> server_names \<Longrightarrow> store_command fd cmd args s other = other"
  unfolding server_names_def by (elim insertE emptyE; simp add: store_command_def)

definition refused :: "int \<Rightarrow> string \<Rightarrow> ('z) pubsub_state_scheme \<Rightarrow> bool" where
  "refused fd cmd s = (is_subscriber (client_of fd s) \<and> cmd \<noteq> ''PING'' \<and> cmd \<noteq> ''SUBSCRIBE'' \<and> cmd \<noteq> ''UNSUBSCRIBE'')"

lemma handle_command_cases:
  assumes "args \<noteq> []"
  shows "handle_command fd args s =
    (if refused fd (toupper (args ! 0)) s then Inr (send fd pubsub_mode_error (upd_client fd id s))
     else rbind (store_command fd (toupper (args ! 0)) args (upd_client fd id s)
       (Inr (server_command fd (toupper (args ! 0)) args (upd_client fd id s)))) (logged fd args))"
  using assms by (simp add: handle_command_def logged_def refused_def Let_def)

section \<open>The state of a run\<close>

definition store_inv :: "(DrutaValue \<Rightarrow> bool) \<Rightarrow> ('z) server_scheme \<Rightarrow> bool" where
  "store_inv P s = ((\<exists>c. db_inv s c \<and> values_all P c) \<and> pubsub_inv s)"

lemma store_inv_safe: "store_inv P s \<Longrightarrow> server_safe s"
  by (auto simp: store_inv_def server_safe_def dest: db_inv_safe)

lemma store_inv_strip: "strip s' = strip s \<Longrightarrow> pubsub_inv s' \<Longrightarrow> store_inv P s \<Longrightarrow> store_inv P s'"
  using strip_db(2) [of s' s] by (auto simp: store_inv_def)

lemma store_inv_core: "core s' = core s \<Longrightarrow> store_inv P s' = store_inv P s"
  using core_eqD [of s' s] pubsub_inv_cong [of s' s] by (auto simp: store_inv_def)

lemma store_inv_empty: "store_inv P (empty_server fso)"
proof -
  have "pubsub_inv (empty_server fso)"
    by (simp add: pubsub_inv_def client_of_def channel_of_def empty_server_def) (simp add: new_client_def)
  then show ?thesis using db_inv_empty_server [of fso] by (auto simp: store_inv_def intro!: exI [of _ "[]"])
qed

lemma logged_keeps:
  assumes "store_inv P s"
  shows "guarded command_faults (\<lambda>s'. store_inv P s' \<and> out s' = out s) (logged fd args (s, ok))"
proof (cases "fd \<noteq> -1 \<and> ok")
  case True
  show ?thesis
  proof (cases "append_to_aof args s")
    case (Inl e)
    then show ?thesis using append_faults [OF Inl] True by (simp add: logged_def)
  next
    case (Inr u)
    have u: "core u = core s" by (rule append_core [OF Inr])
    have "server_safe u" using store_inv_safe [OF assms] server_safe_core [OF u] by simp
    from check_sound [OF this] show ?thesis
    proof (elim disjE exE conjE)
      fix t assume t: "check_and_rewrite_aof u = Inr t"
      have "core t = core s" using check_core [OF t] u by simp
      then show ?thesis using True Inr t assms store_inv_core [of t s] core_eqD(5) [of t s] by (simp add: logged_def)
    qed (use True Inr in \<open>auto simp: logged_def\<close>)
  qed
qed (use assms in \<open>auto simp: logged_def\<close>)

lemma server_command_keeps:
  assumes inv: "store_inv P s"
  shows "store_inv P (fst (server_command fd cmd args s))"
proof -
  have ps: "pubsub_inv s" using inv by (simp add: store_inv_def)
  have if_same: "(b \<Longrightarrow> store_inv P (fst x)) \<Longrightarrow> store_inv P (fst y) \<Longrightarrow> store_inv P (fst (if b then x else y))"
    for b and x y :: "('a) server_scheme \<times> bool" by simp
  have flush: "store_inv P (fst (command_flushdb fd args s))"
  proof (cases "length args < 2 \<or> args ! 1 \<noteq> ''--sure''")
    case True
    then show ?thesis using store_inv_strip [OF _ _ inv, of "send fd msg s" for msg] ps by (simp add: command_flushdb_def)
  next
    case False
    let ?t = "kv_clear (clear_lru s)"
    have "pubsub_inv ?t" using ps pubsub_inv_cong [of ?t s] by (simp add: kv_clear_def clear_lru_def)
    then have "store_inv P ?t" using db_safe_empty(2) [of s] by (auto simp: store_inv_def intro!: exI [of _ "[]"])
    then have t: "store_inv P (flush_clear_aof ?t)" using store_inv_core [OF core_steps(12)] by blast
    then have "store_inv P (send fd msg (flush_clear_aof ?t))" for msg
      by (rule store_inv_strip [rotated 2]) (use t in \<open>simp_all add: store_inv_def\<close>)
    then show ?thesis using False by (simp add: command_flushdb_def)
  qed
  show ?thesis
    unfolding server_command_def command_subscribe_def command_unsubscribe_def
    by (intro if_same; (rule flush)?)
       (auto intro!: store_inv_strip [OF _ _ inv]
         simp: strip_subscribe strip_unsubscribe strip_command_publish pubsub_subscribe_inv pubsub_unsubscribe_inv publish_inv ps)
qed

text \<open>Requests of any clients, in the order in which they are handled.\<close>

fun serve_requests :: "(int \<times> string list) list \<Rightarrow> ('z) server_scheme \<Rightarrow> ('z) server_scheme res" where
  "serve_requests [] s = Inr s"
| "serve_requests ((fd, args) # rs) s = rbind (handle_command fd args s) (serve_requests rs)"

lemma serve_append: "serve_requests (rs @ rs') s = rbind (serve_requests rs s) (serve_requests rs')"
proof (induction rs arbitrary: s)
  case (Cons r rs)
  obtain fd args where "r = (fd, args)" by (cases r)
  then show ?case using Cons by (cases "handle_command fd args s") simp_all
qed simp

section \<open>The interface: a property of values that requests keep\<close>

locale value_invariant =
  fixes P :: "DrutaValue \<Rightarrow> bool"
    and A :: "string list \<Rightarrow> bool"
  assumes string_ok: "A args \<Longrightarrow> toupper (args ! 0) = ''SET'' \<Longrightarrow> in_ll e \<Longrightarrow> (length args = 3 \<Longrightarrow> e = 0) \<Longrightarrow>
      P (new_string x e)"
    and list_new: "P (new_list l 0)"
    and list_upd: "P v \<Longrightarrow> data v = DList l \<Longrightarrow> P (new_list l' (expiry_time v))"
    and set_new: "P (new_set t 0)"
    and set_upd: "P v \<Longrightarrow> data v = DSet t \<Longrightarrow> P (new_set t' (expiry_time v))"
    and hash_new: "P (new_empty HASH)"
    and hash_put: "A args \<Longrightarrow> P v \<Longrightarrow> stored v \<Longrightarrow> data v = DHash h \<Longrightarrow>
      put_loop set_hash (pairs_of (drop 2 args)) h = Inr (h', n) \<Longrightarrow> toupper (args ! 0) = ''HSET'' \<Longrightarrow>
      P (new_hash h' (expiry_time v))"
    and hash_del: "P v \<Longrightarrow> stored v \<Longrightarrow> data v = DHash h \<Longrightarrow> del_loop del_hash fs h = Inr (h', n) \<Longrightarrow>
      P (new_hash h' (expiry_time v)) \<and> hmemory_usage h' \<le> hmemory_usage h"
    and request_ok: "A args \<Longrightarrow> args_ok args"
    and sadd_ok: "A args \<Longrightarrow> toupper (args ! 0) = ''SADD'' \<Longrightarrow> sum_list (map set_elem_bytes (drop 2 args)) < 2 ^ 31"
begin

lemma accounting:
  assumes "db_inv s c" "values_all P c" "A args"
  shows "accounting_exact (toupper (args ! 0)) args c"
proof -
  have "hdel_exact args c"
    using hash_del [OF values_all_lookup [OF assms(2)] db_inv_stored [OF assms(1)]]
    by (fastforce simp: hdel_exact_def split: option.split value_data.split sum.split)
  then show ?thesis using sadd_ok [OF assms(3)] by (simp add: accounting_exact_def sadd_exact_def)
qed

lemma list_specs:
  assumes c: "values_all P c"
  shows "leaves P (push_spec b k xs c)" "leaves P (pop_spec b args c)" "leaves P (lrange_spec args c)" "leaves P (llen_spec args c)"
proof -
  have l: "P (new_list l' (expiry_time v))" if "map_of c k = Some v" "as_list (data v) = Some l" for k v l l'
    using list_upd values_all_lookup [OF c that(1)] that(2) by (cases "data v") auto
  show "leaves P (push_spec b k xs c)" "leaves P (pop_spec b args c)" "leaves P (lrange_spec args c)" "leaves P (llen_spec args c)"
    unfolding push_spec_def pop_spec_def lrange_spec_def llen_spec_def Let_def
    using c list_new l
    by (auto intro!: leaves_typed leaves_write leaves_if split: option.split)
qed

lemma set_specs:
  assumes c: "values_all P c"
  shows "leaves P (sadd_spec k xs c)" "leaves P (sdel_spec k xs c)" "leaves P (sismember_spec args c)"
    "leaves P (smismember_spec args c)" "leaves P (scard_spec args c)" "leaves P (smembers_spec args c)"
    "leaves P (sdiff_spec args c)" "leaves P (sinter_spec args c)" "leaves P (sunion_spec args c)"
proof -
  have t: "P (new_set t' (expiry_time v))" if "map_of c k = Some v" "as_set (data v) = Some t" for k v t t'
    using set_upd values_all_lookup [OF c that(1)] that(2) by (cases "data v") auto
  show "leaves P (sadd_spec k xs c)" "leaves P (sdel_spec k xs c)" "leaves P (sismember_spec args c)"
    "leaves P (smismember_spec args c)" "leaves P (scard_spec args c)" "leaves P (smembers_spec args c)"
    unfolding sadd_spec_def sdel_spec_def sismember_spec_def smismember_spec_def scard_spec_def smembers_spec_def Let_def
    using c set_new t by (auto intro!: leaves_typed leaves_write)
  show "leaves P (sdiff_spec args c)" "leaves P (sinter_spec args c)" "leaves P (sunion_spec args c)"
    using c by (auto simp: sdiff_spec_def sinter_spec_def sunion_spec_def split: option.split)
qed

lemma hash_specs:
  assumes inv: "db_inv s c" and c: "values_all P c" and args: "A args"
  shows "toupper (args ! 0) = ''HSET'' \<Longrightarrow> leaves P (hset_spec args c)"
    "leaves P (hdel_spec args c)" "leaves P (hget_spec args c)" "leaves P (hgetall_spec args c)" "leaves P (hlen_spec args c)"
proof -
  have v: "P v \<and> stored v \<and> data v = DHash h" if "map_of c k = Some v" "as_hash (data v) = Some h" for k v h
    using values_all_lookup [OF c that(1)] db_inv_stored [OF inv that(1)] that(2) by (cases "data v") auto
  have e: "data (new_empty HASH) = DHash (new_hash_vec [] 0)" "expiry_time (new_empty HASH) = 0" "stored (new_empty HASH)"
    by (simp_all add: new_empty_def stored_def value_ok_def value_wf_def value_bytes_def new_hash_vec_def hash_wf_def entries_def)
  show "leaves P (hset_spec args c)" if "toupper (args ! 0) = ''HSET''"
  proof -
    have put: "leaves P (rbind (put_loop set_hash (pairs_of (drop 2 args)) h) (\<lambda>(h', n).
        write_spec k (new_hash h' (expiry_time v)) c' (msg n) (b n)))"
      if "P v" "stored v" "data v = DHash h" "values_all P c'" for v h c' k msg b
      using hash_put [OF args that(1-3)] that(4) \<open>toupper (args ! 0) = ''HSET''\<close>
      by (cases "put_loop set_hash (pairs_of (drop 2 args)) h") (auto intro: leaves_write)
    have found: "leaves P (rbind (put_loop set_hash (pairs_of (drop 2 args)) h) (\<lambda>(h', n).
        write_spec (args ! 1) (new_hash h' (expiry_time v)) c (integer_reply (int n)) (n > 0)))"
      if "map_of c (args ! 1) = Some v" "as_hash (data v) = Some h" for v h
      using put [of v h c "args ! 1" "\<lambda>n. integer_reply (int n)" "\<lambda>n. n > 0"] v [OF that] c by blast
    have c1: "values_all P (evict_spec (c @ [(args ! 1, new_empty HASH)]))" using c hash_new by simp
    have missing: "leaves P (rbind (put_loop set_hash (pairs_of (drop 2 args)) (new_hash_vec [] 0)) (\<lambda>(h', n).
        write_spec (args ! 1) (new_hash h' 0) (evict_spec (c @ [(args ! 1, new_empty HASH)])) (integer_reply (int n)) (n > 0)))"
      using put [OF hash_new e(3,1) c1, of "args ! 1" "\<lambda>n. integer_reply (int n)" "\<lambda>n. n > 0"] e(2) by simp
    show ?thesis unfolding hset_spec_def Let_def
      by (intro leaves_if leaves_typed missing found c) (use c in simp_all)
  qed
  have del: "leaves P (rbind (del_loop del_hash (drop 2 args) h) (\<lambda>(h', n).
      Inr (cache_touch (args ! 1) (cache_upd (args ! 1) (new_hash h' (expiry_time v)) c), integer_reply (int n), n > 0)))"
    if "map_of c (args ! 1) = Some v" "as_hash (data v) = Some h" for v h
    using v [OF that] hash_del [of v h "drop 2 args"] c by (cases "del_loop del_hash (drop 2 args) h") auto
  show "leaves P (hdel_spec args c)" unfolding hdel_spec_def
    by (intro leaves_if leaves_typed del c) (use c in simp_all)
  show "leaves P (hget_spec args c)" "leaves P (hgetall_spec args c)" "leaves P (hlen_spec args c)"
    unfolding hget_spec_def hgetall_spec_def hlen_spec_def
    using c by (auto intro!: leaves_typed split: option.split)
qed

lemma request_leaves:
  assumes inv: "db_inv s c" and c: "values_all P c" and args: "A args"
  shows "leaves P (request_spec args t c)"
proof -
  have get: "leaves P (get_spec now k c)" for now k
    unfolding get_spec_def by (intro leaves_typed) (use c in simp_all)
  have set: "leaves P (set_command_spec args t c)" if "toupper (args ! 0) = ''SET''"
  proof -
    have "P (new_string x e)" if "set_options (drop 3 args) 0 t = Inr (Some e, t')" for x e t'
      using that by (intro string_ok [OF args \<open>toupper (args ! 0) = ''SET''\<close> set_options_in_ll [OF that]]) (simp_all add: in_ll_def)
    then show ?thesis unfolding set_command_spec_def
      by (auto intro!: leaves_write c split: sum.split option.split)
  qed
  have del: "leaves P (del_spec ks c)" for ks using c by (auto simp: del_spec_def Let_def values_all_def)
  show ?thesis
    unfolding request_spec_def exec_spec_def
    by (intro leaves_if)
       (simp_all add: get set del list_specs [OF c] set_specs [OF c] hash_specs [OF inv c args] c)
qed

lemma store_request:
  assumes inv: "store_inv P s" and args: "A args" and cl: "\<not> is_subscriber (client_of fd s)"
    and name: "toupper (args ! 0) \<notin> server_names"
  shows "guarded command_faults (\<lambda>s'. store_inv P s' \<and> answered fd s s') (handle_command fd args s)"
proof -
  obtain c where c: "db_inv s c" "values_all P c" "pubsub_inv s" using inv by (auto simp: store_inv_def)
  let ?s = "upd_client fd id s"
  obtain r where r: "meets db_inv ?s r fd (request_spec args ?s c)" "handle_command fd args s = rbind r (logged fd args)"
    using handle_command_meets [OF c(1) request_ok [OF args] cl name accounting [OF c(1,2) args]] by blast
  note leaves = request_leaves [OF c(1,2) args, of ?s]
  show ?thesis
  proof (cases "request_spec args ?s c")
    case (Inl e)
    moreover have "e \<in> command_faults"
      using handle_command_safe [OF store_inv_safe [OF inv], of args fd] Inl r request_ok [OF args] by (simp add: args_ok_def)
    ultimately show ?thesis using r by simp
  next
    case (Inr q)
    obtain c' msg b where q: "q = (c', msg, b)" by (cases q)
    then obtain s1 where s1: "r = Inr (s1, b)" "db_inv s1 c'" "out s1 = out ?s @ reply fd msg" "io_state.more s1 = io_state.more ?s"
      using r(1) Inr by (auto elim!: yieldsE)
    have "pubsub_inv s1" using pubsub_inv_cong [OF more_frame [OF s1(4)]] c(3) by simp
    then have "store_inv P s1" using s1(2) leaves Inr q by (auto simp: store_inv_def)
    from logged_keeps [OF this, of fd args b] s1(1,3) r(2) show ?thesis
      by (cases "logged fd args (s1, b)") (auto simp: answered_def reply_def)
  qed
qed

lemma handle_keeps:
  assumes inv: "store_inv P s" and args: "A args"
  shows "guarded command_faults (\<lambda>s'. store_inv P s' \<and> answered fd s s') (handle_command fd args s)"
proof -
  let ?s = "upd_client fd id s" and ?cmd = "toupper (args ! 0)"
  have ne: "args \<noteq> []" using request_ok [OF args] by (simp add: args_ok_def)
  have inv0: "store_inv P ?s" using store_inv_strip [OF _ _ inv, of ?s] inv by (simp add: store_inv_def)
  have send: "store_inv P (send fd msg ?s) \<and> answered fd s (send fd msg ?s)" for msg
    using store_inv_strip [OF _ _ inv0, of "send fd msg ?s"] inv0 answered_cong [OF answered_send(1), of s ?s fd msg]
    by (simp add: store_inv_def)
  have server: ?thesis if "?cmd \<in> server_names" "\<not> refused fd ?cmd s"
  proof -
    obtain s1 ok where s1: "server_command fd ?cmd args ?s = (s1, ok)" by (cases "server_command fd ?cmd args ?s")
    have "store_command fd ?cmd args ?s (Inr (s1, ok)) = Inr (s1, ok)"
      using that(1) by (rule store_command_server)
    then have eq: "handle_command fd args s = logged fd args (s1, ok)"
      unfolding handle_command_cases [OF ne] if_not_P [OF that(2)] s1 by simp
    have "store_inv P s1" using server_command_keeps [OF inv0, of fd ?cmd args] s1 by simp
    moreover have "answered fd s s1"
      using answered_cong [OF server_command_answers [of ?s fd ?cmd args]] inv0 s1 by (simp add: store_inv_def)
    ultimately show ?thesis using logged_keeps [of P s1 fd args ok] eq
      by (cases "logged fd args (s1, ok)") (auto simp: answered_def)
  qed
  consider (store) "\<not> is_subscriber (client_of fd s)" "?cmd \<notin> server_names" | (server) "?cmd \<in> server_names"
      "\<not> refused fd ?cmd s"
    | (refused) "refused fd ?cmd s" | (ping) "\<not> refused fd ?cmd s" "?cmd = ''PING''"
    unfolding refused_def server_names_def by blast
  then show ?thesis
  proof cases
    case refused
    then have "handle_command fd args s = Inr (send fd pubsub_mode_error ?s)" by (simp add: handle_command_cases [OF ne])
    then show ?thesis using send by simp
  next
    case ping
    then have "handle_command fd args s = Inr (send fd (''+PONG'' @ crlf) ?s)"
      unfolding handle_command_cases [OF ne] if_not_P [OF ping(1)] ping(2)
      by (simp add: store_command_def command_ping_def logged_def)
    then show ?thesis using send by simp
  qed (rule store_request [OF inv args], assumption+, rule server, assumption+)
qed

lemma run_keeps:
  assumes "store_inv P s" "\<forall>(fd, args)\<in>set rs. A args"
  shows "guarded command_faults (store_inv P) (serve_requests rs s)"
  using assms
proof (induction rs arbitrary: s)
  case (Cons r rs)
  obtain fd args where r: "r = (fd, args)" by (cases r)
  have "guarded command_faults (\<lambda>s'. store_inv P s' \<and> answered fd s s') (handle_command fd args s)"
    using Cons.prems r by (intro handle_keeps) auto
  then show ?case using Cons.IH Cons.prems(2) r by (cases "handle_command fd args s") simp_all
qed simp

end

section \<open>Regular values, modest requests\<close>

definition short_hash :: "DrutaHash \<Rightarrow> bool" where
  "short_hash h = (sso_hash h \<and> unat (hmemory_usage h) = hash_bytes h \<and>
     (\<forall>v\<in>ran (hash_map h). length v \<le> sso_capacity))"

definition regular :: "DrutaValue \<Rightarrow> bool" where
  "regular v = (case data v of
     DString _ \<Rightarrow> in_ll (expiry_time v)
   | DHash h \<Rightarrow> short_hash h \<and> expiry_time v = 0
   | _ \<Rightarrow> expiry_time v = 0)"

text \<open>Arguments as the protocol delivers them; HSET with strings of the small-string buffer, SADD with less
  than 2 GiB.\<close>

definition modest :: "string list \<Rightarrow> bool" where
  "modest args = (args_ok args \<and>
     (toupper (args ! 0) = ''HSET'' \<longrightarrow> (\<forall>a\<in>set (drop 2 args). length a \<le> sso_capacity)) \<and>
     (toupper (args ! 0) = ''SADD'' \<longrightarrow> sum_list (map set_elem_bytes (drop 2 args)) < 2 ^ 31))"

lemma short_hash_size:
  assumes "short_hash h" "unat (hmemory_usage h) < 2 ^ 27"
  shows "length (entries h) < 2 ^ 27" "hash_exact h" "sso_hash h"
proof -
  have "hash_bytes h = length (entries h) * (30 + hash_overhead h)"
    using assms(1) by (simp add: short_hash_def hash_bytes_def sso_hash_def sso_bytes)
  moreover have "length (entries h) * 1 \<le> length (entries h) * (30 + hash_overhead h)" by (rule mult_le_mono2) simp
  ultimately have "length (entries h) \<le> hash_bytes h" by linarith
  also have "\<dots> < 2 ^ 27" using assms by (simp add: short_hash_def)
  finally show "length (entries h) < 2 ^ 27" .
  have "hmemory_usage h = of_nat (unat (hmemory_usage h))" by simp
  also have "unat (hmemory_usage h) = hash_bytes h" using assms(1) by (simp add: short_hash_def)
  finally show "hash_exact h" by (simp add: hash_exact_def)
  show "sso_hash h" using assms(1) by (simp add: short_hash_def)
qed

lemma short_hashI:
  assumes "sso_hash h" "hash_exact h" "length (entries h) < 2 ^ 32" "\<forall>v\<in>ran (hash_map h). length v \<le> sso_capacity"
  shows "short_hash h"
proof -
  have "30 + hash_overhead h \<le> 158" by (simp add: hash_overhead_def overhead_defs)
  then have "length (entries h) * (30 + hash_overhead h) \<le> 2 ^ 32 * 158" using assms(3) by (intro mult_le_mono) simp_all
  moreover have "hash_bytes h = length (entries h) * (30 + hash_overhead h)"
    using assms(1) by (simp add: hash_bytes_def sso_hash_def sso_bytes)
  ultimately have "hash_bytes h < 2 ^ 64" by simp
  then show ?thesis using assms(1,2,4) by (simp add: short_hash_def hash_exact_def unat_of_nat_size)
qed

lemma entries_dom: "hash_wf h \<Longrightarrow> length (entries h) = card (dom (hash_map h))"
  by (simp add: hash_wf_def hash_map_def dom_map_of_conv_image_fst distinct_card flip: set_map)

lemma pairs_of_length: "length (pairs_of xs) \<le> length xs"
  by (induction xs rule: pairs_of.induct) auto

lemma pairs_of_all: "\<forall>a\<in>set xs. Q a \<Longrightarrow> list_all (\<lambda>(f, v). Q f \<and> Q v) (pairs_of xs)"
  by (induction xs rule: pairs_of.induct) auto

lemma put_short:
  assumes h: "hash_wf h" "short_hash h" "unat (hmemory_usage h) < 2 ^ 27"
    and xs: "list_all (\<lambda>(f, v). length f \<le> 15 \<and> length v \<le> 15) xs" "length xs < 2 ^ 31"
    and run: "put_loop set_hash xs h = Inr (h', n)"
  shows "short_hash h'"
proof -
  have h': "hash_wf h'" "sso_hash h'" "hash_exact h'"
    using put_loop_sso [OF h(1) short_hash_size(3,2) [OF h(2,3)] xs(1)] run by auto
  have m: "hash_map h' = hash_map h ++ map_of (rev xs)"
    using put_loop_total [OF h(1), of xs] run by (metis Inr_inject Pair_inject)
  then have "dom (hash_map h') = fst ` set xs \<union> dom (hash_map h)" by (simp add: dom_map_of_conv_image_fst)
  then have "length (entries h') \<le> card (fst ` set xs) + card (dom (hash_map h))"
    using entries_dom [OF h'(1)] card_Un_le by metis
  also have "\<dots> \<le> length xs + length (entries h)"
    using entries_dom [OF h(1)] card_image_le [of "set xs" fst] card_length [of xs] by simp
  finally have "length (entries h') < 2 ^ 32" using xs(2) short_hash_size(1) [OF h(2,3)] by simp
  moreover have "length v \<le> sso_capacity" if "hash_map h' f = Some v" for f v
    using that h(2) xs(1) unfolding m
    by (auto simp: map_add_Some_iff short_hash_def ran_def list_all_iff sso_capacity_def dest!: map_of_SomeD)
  ultimately show ?thesis using h'(2,3) by (intro short_hashI) (auto simp: ran_def)
qed

lemma stored_hash:
  assumes "stored v" "data v = DHash h"
  shows "hash_wf h" "unat (hmemory_usage h) < 2 ^ 27"
  using assms by (auto simp: stored_def value_ok_def value_wf_def value_bytes_def)

interpretation modest: value_invariant regular modest
proof unfold_locales
  fix args v h h' n
  assume args: "modest args" and v: "regular v" "stored v" "data v = DHash h"
    and run: "put_loop set_hash (pairs_of (drop 2 args)) h = Inr (h', n)" and cmd: "toupper (args ! 0) = ''HSET''"
  have "list_all (\<lambda>(f, v). length f \<le> 15 \<and> length v \<le> 15) (pairs_of (drop 2 args))"
    using args cmd by (intro pairs_of_all) (simp add: modest_def sso_capacity_def)
  moreover have "length (pairs_of (drop 2 args)) < 2 ^ 31"
  proof -
    have "length args < 2 ^ 31" using args by (simp add: modest_def args_ok_def)
    then show ?thesis using pairs_of_length [of "drop 2 args"] by simp
  qed
  ultimately have "short_hash h'" using put_short stored_hash [OF v(2,3)] v(1,3) run by (auto simp: regular_def)
  then show "regular (new_hash h' (expiry_time v))" using v(1,3) by (simp add: regular_def new_hash_def)
next
  fix v h fs h' n
  assume v: "regular v" "stored v" "data v = DHash h" and run: "del_loop del_hash fs h = Inr (h', n)"
  have h: "hash_wf h" "unat (hmemory_usage h) < 2 ^ 27" "short_hash h"
    using stored_hash [OF v(2,3)] v by (auto simp: regular_def)
  note sz = short_hash_size [OF h(3,2)]
  have len: "length (entries h) < 2 ^ 32" using sz(1) by simp
  have "hash_map h' \<subseteq>\<^sub>m hash_map h"
    using druta_hash.del_loop_ok [OF h(1), of fs] run by (auto simp: map_le_def restrict_map_def)
  then have "ran (hash_map h') \<subseteq> ran (hash_map h)" by (auto simp: map_le_def ran_def) (metis domI)
  then have "short_hash h'" using del_loop_sso [OF h(1) sz(3,2) len run] len h(3)
    by (intro short_hashI) (auto simp: short_hash_def)
  then show "regular (new_hash h' (expiry_time v)) \<and> hmemory_usage h' \<le> hmemory_usage h"
    using hdel_exact_sso [OF h(1) sz(3,2) len run] v(1,3) by (simp add: regular_def new_hash_def)
next
  show "regular (new_empty HASH)"
    by (simp add: regular_def new_empty_def short_hash_def new_hash_vec_def sso_hash_def entries_def hash_bytes_def hash_map_def)
qed (auto simp: regular_def modest_def new_string_def new_list_def new_set_def)

section \<open>Commands of a type\<close>

text \<open>The commands that work on one type, with their numbers of arguments (the name included).\<close>

definition typed_commands :: "(string \<times> ValueType \<times> (nat \<Rightarrow> bool)) list" where
  "typed_commands = [(''GET'', STRING, \<lambda>n. n = 2), (''RPUSH'', LIST, \<lambda>n. 3 \<le> n), (''LPUSH'', LIST, \<lambda>n. 3 \<le> n),
     (''LRANGE'', LIST, \<lambda>n. n = 4), (''LPOP'', LIST, \<lambda>n. 2 \<le> n \<and> n \<le> 3), (''RPOP'', LIST, \<lambda>n. 2 \<le> n \<and> n \<le> 3),
     (''LLEN'', LIST, \<lambda>n. n = 2), (''HSET'', HASH, \<lambda>n. 4 \<le> n \<and> even n), (''HGET'', HASH, \<lambda>n. n = 3),
     (''HGETALL'', HASH, \<lambda>n. n = 2), (''HDEL'', HASH, \<lambda>n. 3 \<le> n), (''HLEN'', HASH, \<lambda>n. n = 2),
     (''SADD'', SET, \<lambda>n. 3 \<le> n), (''SCARD'', SET, \<lambda>n. n = 2), (''SISMEMBER'', SET, \<lambda>n. n = 3),
     (''SMEMBERS'', SET, \<lambda>n. n = 2), (''SMISMEMBER'', SET, \<lambda>n. 3 \<le> n), (''SINTER'', SET, \<lambda>n. 2 \<le> n),
     (''SDIFF'', SET, \<lambda>n. 2 \<le> n), (''SDEL'', SET, \<lambda>n. 3 \<le> n)]"

lemma with_type_wrong:
  "kv_store s k = Some a \<Longrightarrow> heap s a = Some n \<Longrightarrow> vtype (node_value n) \<noteq> t \<Longrightarrow>
   with_type t k fd s missing found = Inr (send fd WRONGTYPE s, False)"
  by (simp add: with_type_def deref_def)

lemma lookup_set_wrong:
  "kv_store s k = Some a \<Longrightarrow> heap s a = Some n \<Longrightarrow> vtype (node_value n) \<noteq> SET \<Longrightarrow> lookup_set k s = Inr (Some None)"
  by (simp add: lookup_set_def deref_def)

lemma store_command_wrong:
  assumes "(cmd, t, arity) \<in> set typed_commands" "arity (length args)"
    "kv_store s (args ! 1) = Some a" "heap s a = Some n" "vtype (node_value n) \<noteq> t"
  shows "store_command fd cmd args s other = Inr (send fd WRONGTYPE s, False)"
proof -
  have "2 \<le> length args" using assms(1,2) by (auto simp: typed_commands_def)
  then have arg: "arg args 1 = Inr (args ! 1)" by simp
  note wrong = with_type_wrong [OF assms(3,4)] lookup_set_wrong [OF assms(3,4)]
  note defs = command_get_def command_rpush_def command_lpush_def generic_push_def command_lrange_def command_lpop_def
    command_rpop_def generic_pop_def command_llen_def command_hset_def command_hget_def command_hgetall_def
    command_hdel_def command_hlen_def command_sadd_def command_scard_def command_sismember_def command_smembers_def
    command_smismember_def command_sinter_def command_sdiff_def command_sdel_def
  show ?thesis
    using assms(1,2,5) unfolding typed_commands_def set_simps
    by (elim insertE emptyE)
       (simp_all add: store_command_def defs arg [unfolded One_nat_def] wrong [unfolded One_nat_def] Let_def)
qed

section \<open>Properties\<close>

lemma push_sample:
  "\<exists>s a n. serve_requests [(5, [''RPUSH'', ''l'', ''x''])] (empty_server (\<lambda>_. True)) = Inr s \<and>
     kv_store s ''l'' = Some a \<and> heap s a = Some n \<and> node_value n = new_list [''x''] 0 \<and> \<not> is_subscriber (client_of 5 s)"
proof -
  let ?s = "empty_server (\<lambda>_. True)" and ?a = "[''RPUSH'', ''l'', ''x'']" and ?v = "new_list [''x''] 0"
  have fits: "cache_bytes [] + entry_size (''l'', ?v) \<le> LRU_MAX_MEMORY" by (rule small_fits) code_simp
  then have "survives ''l'' ?v []" "set_spec ''l'' ?v [] = [(''l'', ?v)]"
    by (simp_all add: survives_def set_spec_def)
  then have spec: "request_spec ?a (upd_client 5 id ?s) [] = Inr ([(''l'', ?v)], integer_reply (to_int32 1), True)"
    by (simp add: request_spec_def exec_spec_def push_spec_def typed_spec_def write_spec_def push_all_def)
  have "args_ok ?a" "toupper (?a ! 0) \<in> set aof_commands" "accounting_exact (toupper (?a ! 0)) ?a []"
    by (simp_all add: args_ok_def aof_commands_def accounting_exact_def)
  from write_logged [OF db_inv_empty_server [of "\<lambda>_. True"] this(1) empty_server_client this(2,3) spec, of 0]
  obtain s' where s': "handle_command 5 ?a ?s = Inr s'" "db_inv s' [(''l'', ?v)]" "clients_map s' = clients_map (upd_client 5 id ?s)"
    by (auto simp: empty_server_def)
  have "client_of 5 s' = client_of 5 (upd_client 5 id ?s)" using s'(3) by (simp add: client_of_def)
  then have cl: "\<not> is_subscriber (client_of 5 s')" using empty_server_client [of 5 "\<lambda>_. True"] by simp
  show ?thesis
    using db_inv_safe [OF s'(2)]
  proof (cases rule: db_lookup [where k = "''l''"])
    case (found a n)
    then have "node_value n = ?v" by simp
    then show ?thesis using s'(1) found(1,2) cl by auto
  qed simp
qed

text \<open>
  \<^bold>\<open>C15\<close>. Progress and preservation for types: in every safe state, a command for one type
  on a key that holds another (the first key of the request) answers WRONGTYPE, changes nothing else of the
  state and is not logged; it never reaches the value with the wrong alternative. SET, DEL and SUNION accept keys of any type.
\<close>

theorem wrong_type_refused:
  assumes "(toupper (args ! 0), t, arity) \<in> set typed_commands" "arity (length args)" "\<not> is_subscriber (client_of fd s)"
    "kv_store s (args ! 1) = Some a" "heap s a = Some n" "vtype (node_value n) \<noteq> t"
  shows "handle_command fd args s = Inr (send fd WRONGTYPE (upd_client fd id s))"
proof -
  let ?s = "upd_client fd id s"
  have ne: "args \<noteq> []" using assms(1,2) by (auto simp: typed_commands_def)
  have "kv_store ?s (args ! 1) = Some a" "heap ?s a = Some n" using assms(4,5) by (simp_all add: upd_client_def)
  note store_command_wrong [OF assms(1,2) this assms(6)]
  then show ?thesis using assms(3) by (simp add: handle_command_cases [OF ne] refused_def logged_def)
qed

theorem wrong_type_refused_witness:
  "\<exists>s. serve_requests [(5, [''RPUSH'', ''l'', ''x''])] (empty_server (\<lambda>_. True)) = Inr s \<and>
     handle_command 5 [''GET'', ''l''] s = Inr (send 5 WRONGTYPE (upd_client 5 id s))"
proof -
  obtain s a n where s: "serve_requests [(5, [''RPUSH'', ''l'', ''x''])] (empty_server (\<lambda>_. True)) = Inr s"
      "\<not> is_subscriber (client_of 5 s)"
    and n: "kv_store s ''l'' = Some a" "heap s a = Some n" "node_value n = new_list [''x''] 0" using push_sample by blast
  have "toupper ''GET'' = ''GET''" by code_simp
  then have "(toupper ([''GET'', ''l''] ! 0), STRING, \<lambda>n. n = 2) \<in> set typed_commands" by (simp add: typed_commands_def)
  from wrong_type_refused [OF this _ s(2), of a n] n s(1) show ?thesis by (auto simp: new_list_def)
qed

end
