(* ===== verification/Recovery.thy ===== *)
theory Recovery
  imports Workload
begin

text \<open>
  Persistence across a restart. \<open>rewrite_aof\<close> writes one command per live entry, least recently used
  first; a fresh process that replays the file has the same contents in the same LRU order. Strings,
  lists and sets come back exactly; a hash comes back with the same fields, but possibly as a vector
  where it was a map, and then smaller (\<open>rebuilt\<close>). Hashes are those of short strings, whose byte counters
  are exact.
\<close>

section \<open>The command of an entry\<close>

definition expired_at :: "int \<Rightarrow> DrutaValue \<Rightarrow> bool" where
  "expired_at now v = (0 < expiry_time v \<and> expiry_time v < now)"

definition entry_cmd :: "int \<Rightarrow> string \<times> DrutaValue \<Rightarrow> string list option" where
  "entry_cmd now e = (case e of (k, v) \<Rightarrow>
     if expired_at now v then None
     else case data v of
       DString d \<Rightarrow> Some ([''SET'', k, d] @ (if 0 < expiry_time v then [''PXAT'', to_string_int (expiry_time v)] else []))
     | DList l \<Rightarrow> if l = [] then None else Some ([''RPUSH'', k] @ l)
     | DHash h \<Rightarrow> if entries h = [] then None
         else Some ([''HSET'', k] @ concat (map (\<lambda>p. [chars (fst p), chars (snd p)]) (entries h)))
     | DSet t \<Rightarrow> if t = [] then None else Some ([''SADD'', k] @ t))"

definition live :: "int \<Rightarrow> cache \<Rightarrow> cache" where
  "live now c = filter (\<lambda>e. entry_cmd now e \<noteq> None) c"

definition rewrite_commands :: "int \<Rightarrow> cache \<Rightarrow> string list list" where
  "rewrite_commands now c = map (\<lambda>e. the (entry_cmd now e)) (live now c)"

lemma entry_command_ok:
  assumes "value_wf (node_value n)"
  shows "entry_command now n = Inr (entry_cmd now (node_key n, node_value n))"
proof (cases "data (node_value n)")
  case (DHash h)
  then have h: "vtype (node_value n) = HASH" "hash_wf h" using value_wf_data(3) [OF assms] by simp_all
  have "hash_size h = Inr (length (entries h))" "(if htype h = VECTOR then get_vec h else get_map h) = Inr (entries h)"
    using hash_entries [OF h(2)] by (auto simp: hash_size_def split: if_splits)
  with DHash h show ?thesis by (simp add: entry_command_def entry_cmd_def expired_at_def Let_def)
qed (use value_wf_data [OF assms] in
  \<open>auto simp: entry_command_def entry_cmd_def expired_at_def Let_def get_string_def get_list_def get_set_def\<close>)

section \<open>Entries that a replay restores exactly\<close>

definition restorable :: "string \<times> DrutaValue \<Rightarrow> bool" where
  "restorable e = (case data (snd e) of
     DString d \<Rightarrow> 0 \<le> expiry_time (snd e) \<and> expiry_time (snd e) < 2 ^ 63
   | DHash h \<Rightarrow> short_hash h \<and> expiry_time (snd e) = 0
   | _ \<Rightarrow> expiry_time (snd e) = 0)"

lemma restorable_regular: "restorable (k, v) \<Longrightarrow> regular v"
  by (auto simp: restorable_def regular_def in_ll_def split: value_data.splits)

lemma restorable_values: "\<forall>e\<in>set c. restorable e \<Longrightarrow> values_all regular c"
  using restorable_regular by (fastforce simp: values_all_def)

text \<open>The value that the command of an entry creates.\<close>

definition rebuilt_hash :: "DrutaHash \<Rightarrow> DrutaHash" where
  "rebuilt_hash h = (case put_loop set_hash (plain (entries h)) (new_hash_vec [] 0) of
     Inr (h', n) \<Rightarrow> h' | Inl e \<Rightarrow> h)"

definition rebuilt :: "string \<times> DrutaValue \<Rightarrow> string \<times> DrutaValue" where
  "rebuilt e = (fst e, case data (snd e) of DHash h \<Rightarrow> new_hash (rebuilt_hash h) 0 | _ \<Rightarrow> snd e)"

lemma fst_rebuilt [simp]: "fst (rebuilt e) = fst e" "map fst (map rebuilt es) = map fst es"
  by (simp_all add: rebuilt_def)

text \<open>A hash that grew from an empty vector is a map only with more than 64 fields.\<close>

definition compact :: "DrutaHash \<Rightarrow> bool" where
  "compact h = (htype h = VECTOR \<or> DRUTA_MAX_KEY < length (entries h))"

lemma set_hash_compact:
  assumes wf: "hash_wf h" and k: "compact h" and run: "set_hash f v h = Inr (h', b)"
  shows "compact h'"
proof -
  have h': "hash_wf h'" "hash_map h' = (hash_map h)(f \<mapsto> v)" using set_hash_ok [OF wf, of f v] run by auto
  have len: "length (entries h') = card (insert f (dom (hash_map h)))" using entries_dom [OF h'(1)] h'(2) by simp
  have fin: "finite (dom (hash_map h))" by (simp add: hash_map_def finite_dom_map_of)
  show ?thesis
    using wf
  proof (cases h rule: hash_wf_cases)
    case (VEC vec)
    show ?thesis
    proof (cases "htype h'")
      case MAP
      then have "vec_assign f v vec (hmemory_usage h) = None" "DRUTA_MAX_KEY < Suc (length vec)"
        using run VEC by (auto simp: set_hash_def Let_def split: option.splits if_splits)
      moreover from this(1) have "f \<notin> set (fnames vec)" by (induction vec) (auto simp: Let_def split: if_splits)
      then have "f \<notin> dom (hash_map h)" using VEC by (simp add: hash_map_def dom_map_of_conv_image_fst flip: set_map)
      ultimately show ?thesis using len entries_dom [OF wf] VEC fin by (simp add: compact_def)
    qed (simp add: compact_def)
  next
    case (MAP m)
    then have "DRUTA_MAX_KEY < card (dom (hash_map h))" using k entries_dom [OF wf] by (simp add: compact_def)
    also have "\<dots> \<le> length (entries h')" unfolding len using fin by (intro card_mono) auto
    finally show ?thesis by (simp add: compact_def)
  qed
qed

lemma put_loop_compact:
  "hash_wf h \<Longrightarrow> compact h \<Longrightarrow> put_loop set_hash xs h = Inr (h', n) \<Longrightarrow> compact h'"
proof (induction xs arbitrary: h n)
  case (Cons x xs)
  obtain f v where x: "x = (f, v)" by (cases x)
  obtain h1 b m where h1: "set_hash f v h = Inr (h1, b)" "put_loop set_hash xs h1 = Inr (h', m)" using Cons.prems(3) x by auto
  have "hash_wf h1" using set_hash_ok [OF Cons.prems(1), of f v] h1(1) by auto
  then show ?case using Cons.IH [OF _ set_hash_compact [OF Cons.prems(1,2) h1(1)] h1(2)] by simp
qed simp

lemma rebuilt_hash_ok:
  assumes wf: "hash_wf h" and short: "short_hash h" "unat (hmemory_usage h) < 2 ^ 27"
  shows "put_loop set_hash (plain (entries h)) (new_hash_vec [] 0) = Inr (rebuilt_hash h, length (entries h))"
    "hash_map (rebuilt_hash h) = hash_map h" "short_hash (rebuilt_hash h)" "hash_wf (rebuilt_hash h)"
    "unat (hmemory_usage (rebuilt_hash h)) \<le> unat (hmemory_usage h)"
proof -
  let ?xs = "plain (entries h)" and ?h = "rebuilt_hash h"
  have d: "distinct (map fst ?xs)" using wf by (simp add: hash_wf_def)
  obtain h' n where h': "put_loop set_hash ?xs (new_hash_vec [] 0) = Inr (h', n)" "hash_wf h'"
    "hash_map h' = hash_map (new_hash_vec [] 0) ++ map_of (rev ?xs)" "n = card (fst ` set ?xs - dom (hash_map (new_hash_vec [] 0)))"
    by (rule put_loop_total [OF hash_wf_new])
  have nil: "hash_map (new_hash_vec [] 0) = Map.empty" by (simp add: hash_map_def new_hash_vec_def entries_def)
  have eq: "?h = h'" using h'(1) by (simp add: rebuilt_hash_def)
  have "n = length ?xs" using h'(4) d by (simp add: nil distinct_card flip: set_map)
  then show run: "put_loop set_hash ?xs (new_hash_vec [] 0) = Inr (?h, length (entries h))" using h'(1) eq by simp
  show wf': "hash_wf ?h" using h'(2) eq by simp
  show m: "hash_map ?h = hash_map h"
    using h'(3) eq map_of_inject_set [of "rev ?xs" ?xs] d by (simp add: nil hash_map_def [of h] rev_map flip: rev_map)
  have list: "list_all (\<lambda>(f, v). length f \<le> 15 \<and> length v \<le> 15) ?xs"
    unfolding list_all_iff
  proof clarify
    fix f v assume fv: "(f, v) \<in> set ?xs"
    then have "hash_map h f = Some v" using d by (simp add: hash_map_def)
    then have "length v \<le> 15" using short(1) by (auto simp: short_hash_def ran_def sso_capacity_def)
    moreover have "length f \<le> 15" using fv short(1)
      by (auto simp: plain_def short_hash_def sso_hash_def sso_entry_def list_all_iff sso_capacity_def)
    ultimately show "length f \<le> 15 \<and> length v \<le> 15" by simp
  qed
  have small: "length ?xs < 2 ^ 31" using short_hash_size(1) [OF short] by simp
  have nil_short: "short_hash (new_hash_vec [] 0)" "unat (hmemory_usage (new_hash_vec [] 0)) < 2 ^ 27"
    by (simp_all add: short_hash_def new_hash_vec_def sso_hash_def entries_def hash_bytes_def hash_map_def)
  show short': "short_hash ?h" by (rule put_short [OF hash_wf_new nil_short list small run])
  have len: "length (entries ?h) = length (entries h)" using entries_dom [OF wf] entries_dom [OF wf'] m by simp
  have "compact (new_hash_vec [] 0)" by (simp add: compact_def new_hash_vec_def)
  then have "compact ?h" by (rule put_loop_compact [OF hash_wf_new _ run])
  then have "htype h = VECTOR \<Longrightarrow> htype ?h = VECTOR"
    using len wf by (auto simp: compact_def hash_wf_def entries_def split: hash_data.splits)
  then have "hash_overhead ?h \<le> hash_overhead h" by (auto simp: hash_overhead_def overhead_defs)
  moreover have "hash_bytes g = length (entries g) * (30 + hash_overhead g)" if "short_hash g" for g
    using that by (simp add: short_hash_def hash_bytes_def sso_hash_def sso_bytes)
  ultimately have "hash_bytes ?h \<le> hash_bytes h" using short(1) short' len by simp
  then show "unat (hmemory_usage ?h) \<le> unat (hmemory_usage h)" using short(1) short' by (simp add: short_hash_def)
qed

lemma sum_len_list: "sum_list (map (\<lambda>a. length a + 16) l) \<le> sum_list (map list_elem_bytes l)"
  by (induction l) (auto simp: list_elem_bytes_def calc_string_usage_def copy_capacity_def)

lemma sum_len_set: "sum_list (map (\<lambda>a. length a + 16) l) \<le> sum_list (map set_elem_bytes l)"
  by (induction l) (auto simp: set_elem_bytes_def copy_capacity_def)

lemma sum_len_pairs:
  "\<forall>p\<in>set es. length (chars (fst p)) + length (chars (snd p)) + 32 \<le> g p \<Longrightarrow>
   sum_list (map (\<lambda>a. length a + 16) (concat (map (\<lambda>p. [chars (fst p), chars (snd p)]) es))) \<le> sum_list (map g es)"
  by (induction es) fastforce+

lemma to_string_length: "length (to_string n) \<le> n + 1"
proof (induction n rule: to_string.induct)
  case (1 n)
  show ?case
  proof (cases "n < 10")
    case True
    then show ?thesis by (subst to_string.simps) simp
  next
    case False
    then have "length (to_string (n div 10)) \<le> n div 10 + 1" using 1 by simp
    moreover have "n div 10 + 2 \<le> n + 1" using False by linarith
    ultimately show ?thesis using False by (subst to_string.simps) simp
  qed
qed

lemma to_string_int_length: "- (2 ^ 63) < i \<Longrightarrow> i < 2 ^ 63 \<Longrightarrow> length (to_string_int i) \<le> 30"
proof -
  have len: "length (to_string n) \<le> Suc m" if "n < 10 ^ Suc m" for n m
    using that
  proof (induction m arbitrary: n)
    case 0
    then show ?case by (subst to_string.simps) simp
  next
    case (Suc m)
    show ?case
    proof (cases "n < 10")
      case True
      then show ?thesis by (subst to_string.simps) simp
    next
      case False
      have "n div 10 < 10 ^ Suc m" using Suc.prems by (simp add: div_less_iff_less_mult)
      then show ?thesis using Suc.IH [of "n div 10"] False by (subst to_string.simps) simp
    qed
  qed
  assume i: "- (2 ^ 63) < i" "i < 2 ^ 63"
  have "nat (abs i) < 10 ^ Suc 18" using i by (simp add: nat_less_iff)
  from len [OF this] show ?thesis by (auto simp: to_string_int_def abs_if split: if_splits)
qed

text \<open>The size of the command of an entry against the entry's own size.\<close>

lemma entry_cmd_size:
  assumes "value_ok v" "regular v" "entry_cmd now (k, v) = Some cmd"
  shows "sum_list (map (\<lambda>a. length a + 16) cmd) \<le> entry_size (k, v)"
proof -
  have k: "length k \<le> copy_capacity k" by simp
  have mu: "unat (memory_usage v) = value_bytes v" using assms(1) by (simp add: value_ok_def)
  show ?thesis
  proof (cases "data v")
    case (DString d)
    then have "expiry_time v < 2 ^ 63" using assms(2) by (simp add: regular_def in_ll_def)
    then have "0 < expiry_time v \<Longrightarrow> length (to_string_int (expiry_time v)) \<le> 30" by (intro to_string_int_length) simp_all
    then have "sum_list (map (\<lambda>a. length a + 16) cmd) \<le> 130 + length k + length d"
      using DString assms(3) by (auto simp: entry_cmd_def split: if_splits)
    moreover have "length d \<le> calc_string_usage d" by (simp add: calc_string_usage_def)
    moreover have "entry_size (k, v) = sizeof_DrutaNode + copy_capacity k + (32 + calc_string_usage d)"
      using DString by (simp add: entry_size_def mu value_bytes_def)
    ultimately show ?thesis unfolding sizeof_DrutaNode_def using k by linarith
  next
    case (DList l)
    then have "cmd = [''RPUSH'', k] @ l" "value_bytes v = sum_list (map list_elem_bytes l)"
      using assms(3) by (auto simp: entry_cmd_def value_bytes_def split: if_splits)
    then show ?thesis using add_mono [OF k sum_len_list [of l]] by (simp add: entry_size_def mu sizeof_DrutaNode_def)
  next
    case (DHash h)
    then have h: "short_hash h" "hash_wf h" "unat (memory_usage v) = hash_bytes h"
      "cmd = [''HSET'', k] @ concat (map (\<lambda>p. [chars (fst p), chars (snd p)]) (entries h))"
      using assms mu by (auto simp: regular_def value_ok_def value_wf_def value_bytes_def short_hash_def entry_cmd_def split: if_splits)
    have "\<forall>p\<in>set (entries h). length (chars (fst p)) + length (chars (snd p)) + 32 \<le> entry_bytes (hash_overhead h) p"
    proof
      fix p assume p: "p \<in> set (entries h)"
      have "(chars (fst p), chars (snd p)) \<in> set (plain (entries h))" using p by (auto simp: plain_def)
      moreover have "distinct (map fst (plain (entries h)))" using h(2) by (simp add: hash_wf_def)
      ultimately have "hash_map h (chars (fst p)) = Some (chars (snd p))" by (simp add: hash_map_def)
      then have "length (chars (snd p)) \<le> 15" using h(1) by (auto simp: short_hash_def ran_def sso_capacity_def)
      moreover have "capacity (fst p) = 15" "capacity (snd p) = 15" "length (chars (fst p)) \<le> 15"
        using h(1) p by (auto simp: short_hash_def sso_hash_def list_all_iff sso_entry_def sso_capacity_def)
      ultimately show "length (chars (fst p)) + length (chars (snd p)) + 32 \<le> entry_bytes (hash_overhead h) p"
        by (simp add: entry_bytes_def hash_overhead_def overhead_defs)
    qed
    then have sum: "sum_list (map (\<lambda>a. length a + 16) (concat (map (\<lambda>p. [chars (fst p), chars (snd p)]) (entries h)))) \<le> hash_bytes h"
      unfolding hash_bytes_def by (rule sum_len_pairs)
    show ?thesis using add_mono [OF k sum] h(3,4) by (simp add: entry_size_def sizeof_DrutaNode_def)
  next
    case (DSet t)
    then have "cmd = [''SADD'', k] @ t" "value_bytes v = sum_list (map set_elem_bytes t)"
      using assms(3) by (auto simp: entry_cmd_def value_bytes_def split: if_splits)
    then show ?thesis using add_mono [OF k sum_len_set [of t]] by (simp add: entry_size_def mu sizeof_DrutaNode_def)
  qed
qed

lemma entry_cmd_nonempty: "entry_cmd now e = Some cmd \<Longrightarrow> 3 \<le> length cmd"
proof -
  assume "entry_cmd now e = Some cmd"
  moreover have "2 \<le> length (concat (map (\<lambda>p. [chars (fst p), chars (snd p)]) es))" if "es \<noteq> []" for es :: "hentry list"
    using that by (cases es) simp_all
  ultimately show ?thesis
    by (cases e) (auto simp: entry_cmd_def neq_Nil_conv split: if_splits value_data.splits)
qed

lemma small_args_ok:
  assumes "cmd \<noteq> []" "sum_list (map (\<lambda>a. length a + 16) cmd) < 2 ^ 31"
  shows "args_ok cmd"
proof -
  have "length a + 16 \<le> sum_list (map (\<lambda>a. length a + 16) cmd)" if "a \<in> set cmd" for a
    using that by (intro member_le_sum_list) auto
  moreover have "length cmd \<le> sum_list (map (\<lambda>a. length a + 16) cmd)" by (induction cmd) auto
  ultimately show ?thesis using assms by (fastforce simp: args_ok_def)
qed

section \<open>Replaying one command\<close>

lemma stoll_expiry: "0 \<le> e \<Longrightarrow> e < 2 ^ 63 \<Longrightarrow> stoll (to_string_int e) = Some e"
  by (rule stoll_to_string_int) simp_all

lemma pxat_options:
  assumes "0 < e" "e < 2 ^ 63"
  shows "set_options [''PXAT'', to_string_int e] 0 s = Inr (Some e, s)"
proof -
  have "toupper ''PXAT'' = ''PXAT''" by code_simp
  then show ?thesis using stoll_expiry [of e] assms by simp
qed

lemma string_value_eq:
  assumes "value_ok v" "data v = DString d"
  shows "v = new_string d (expiry_time v)"
proof -
  have "memory_usage v = of_nat (unat (memory_usage v))" by simp
  also have "\<dots> = 32 + of_nat (calc_string_usage d)"
    using assms by (simp add: value_ok_def value_bytes_def)
  finally show ?thesis using assms by (cases v) (simp add: value_ok_def value_wf_def new_string_def)
qed

text \<open>HSET of all fields on contents without the key: the empty hash first, then the fields.\<close>

lemma pairs_of_concat: "pairs_of (concat (map (\<lambda>p. [chars (fst p), chars (snd p)]) es)) = plain es"
  by (induction es) simp_all

lemma hset_spec_new:
  assumes new: "map_of c k = None" and es: "entries h \<noteq> []"
    and put: "put_loop set_hash (plain (entries h)) (new_hash_vec [] 0) = Inr (h', n)"
    and fit: "cache_bytes (c @ [(k, new_hash h' 0)]) \<le> LRU_MAX_MEMORY"
  shows "hset_spec ([''HSET'', k] @ concat (map (\<lambda>p. [chars (fst p), chars (snd p)]) (entries h))) c =
    Inr (c @ [(k, new_hash h' 0)], integer_reply (int n), n > 0)"
proof -
  let ?e = "new_empty HASH" and ?w = "new_hash h' 0"
  let ?args = "[''HSET'', k] @ concat (map (\<lambda>p. [chars (fst p), chars (snd p)]) (entries h))"
  have even: "even (length (concat (map (\<lambda>p. [chars (fst p), chars (snd p)]) es)))" for es :: "hentry list" by (induction es) simp_all
  have len: "\<not> (length ?args < 4 \<or> odd (length ?args))" using es even [of "entries h"] by (cases "entries h") auto
  have "entry_size (k, ?e) \<le> entry_size (k, ?w)" by (simp add: entry_size_def new_empty_def)
  then have c1: "evict_spec (c @ [(k, ?e)]) = c @ [(k, ?e)]" using fit by (intro evict_spec_id) simp
  have notin: "k \<notin> fst ` set c" using new by (simp add: map_of_eq_None_iff)
  have upd: "cache_upd k ?w (c @ [(k, ?e)]) = c @ [(k, ?w)]"
    using notin by (force simp: cache_upd_def intro!: map_idI)
  have touch: "cache_touch k (c @ [(k, ?w)]) = c @ [(k, ?w)]"
  proof -
    have "filter (\<lambda>e. fst e \<noteq> k) c = c" "filter (\<lambda>e. fst e = k) c = []"
      using notin by (force simp: filter_id_conv filter_empty_conv)+
    then show ?thesis by (simp add: cache_touch_def cache_del_def)
  qed
  have found: "map_of (c @ [(k, ?e)]) k = Some ?e" using new by (simp add: map_add_def)
  have "write_spec k ?w (c @ [(k, ?e)]) msg b = Inr (c @ [(k, ?w)], msg, b)" for msg b
    using found evict_spec_id [OF fit] by (simp add: write_spec_def survives_def set_spec_def upd touch)
  then show ?thesis using new put len c1
    by (simp add: hset_spec_def typed_spec_def Let_def pairs_of_concat)
qed

text \<open>The specification of a recreating command on contents without the key appends the rebuilt entry.\<close>

lemma write_new:
  assumes "map_of c k = None" "cache_bytes (c @ [rebuilt (k, v)]) \<le> LRU_MAX_MEMORY" "rebuilt (k, v) = (k, w)"
  shows "write_spec k w c msg b = Inr (c @ [(k, w)], msg, b)"
  using assms evict_spec_id [OF assms(2)] by (simp add: write_spec_def survives_def set_spec_def)

lemma string_cmd_spec:
  assumes ok: "value_ok v" and r: "restorable (k, v)" and cmd: "entry_cmd now (k, v) = Some cmd"
    and new: "map_of c k = None" and fit: "cache_bytes (c @ [rebuilt (k, v)]) \<le> LRU_MAX_MEMORY" and DString: "data v = DString d"
  shows "(\<exists>msg b. request_spec cmd s c = Inr (c @ [rebuilt (k, v)], msg, b)) \<and>
    toupper (cmd ! 0) \<notin> server_names \<and> accounting_exact (toupper (cmd ! 0)) cmd c"
proof -
  have v: "v = new_string d (expiry_time v)" using ok DString by (rule string_value_eq)
  have e: "0 \<le> expiry_time v" "expiry_time v < 2 ^ 63" using r DString by (simp_all add: restorable_def)
  have c: "cmd = [''SET'', k, d] @ (if 0 < expiry_time v then [''PXAT'', to_string_int (expiry_time v)] else [])"
    using cmd DString by (auto simp: entry_cmd_def split: if_splits)
  have "set_options (drop 3 cmd) 0 s = Inr (Some (expiry_time v), s)"
    using e pxat_options [of "expiry_time v" s] by (cases "0 < expiry_time v") (auto simp: c)
  then have "set_command_spec cmd s c = write_spec k (new_string d (expiry_time v)) c (''+OK'' @ crlf) True"
    by (simp add: set_command_spec_def c)
  moreover have rb: "rebuilt (k, v) = (k, new_string d (expiry_time v))" using DString v by (simp add: rebuilt_def)
  ultimately show ?thesis using write_new [OF new fit rb]
    by (auto simp: request_spec_def exec_spec_def c server_names_def accounting_exact_def)
qed

lemma list_cmd_spec:
  assumes ok: "value_ok v" and r: "restorable (k, v)" and cmd: "entry_cmd now (k, v) = Some cmd"
    and new: "map_of c k = None" and fit: "cache_bytes (c @ [rebuilt (k, v)]) \<le> LRU_MAX_MEMORY" and DList: "data v = DList l"
  shows "(\<exists>msg b. request_spec cmd s c = Inr (c @ [rebuilt (k, v)], msg, b)) \<and>
    toupper (cmd ! 0) \<notin> server_names \<and> accounting_exact (toupper (cmd ! 0)) cmd c"
proof -
  have v: "v = new_list l 0" using list_value_eq [OF ok DList] r DList by (simp add: restorable_def)
  have c: "cmd = [''RPUSH'', k] @ l" "l \<noteq> []" using cmd DList by (auto simp: entry_cmd_def split: if_splits)
  have "3 \<le> length cmd" using c by (cases l) simp_all
  moreover have "push_spec False k l c = write_spec k v c (integer_reply (to_int32 (length l))) True"
    using new v by (simp add: push_spec_def typed_spec_def push_all_def)
  moreover have rb: "rebuilt (k, v) = (k, v)" using DList by (simp add: rebuilt_def)
  ultimately show ?thesis using write_new [OF new fit rb] c(1)
    by (auto simp: request_spec_def exec_spec_def server_names_def accounting_exact_def)
qed

lemma hash_cmd_spec:
  assumes ok: "value_ok v" and r: "restorable (k, v)" and cmd: "entry_cmd now (k, v) = Some cmd"
    and new: "map_of c k = None" and fit: "cache_bytes (c @ [rebuilt (k, v)]) \<le> LRU_MAX_MEMORY" and DHash: "data v = DHash h"
    and small: "unat (memory_usage v) < 2 ^ 27"
  shows "(\<exists>msg b. request_spec cmd s c = Inr (c @ [rebuilt (k, v)], msg, b)) \<and>
    toupper (cmd ! 0) \<notin> server_names \<and> accounting_exact (toupper (cmd ! 0)) cmd c"
proof -
  have h: "short_hash h" "hash_wf h" "unat (hmemory_usage h) < 2 ^ 27"
    using r ok small DHash by (auto simp: restorable_def value_ok_def value_wf_def value_bytes_def)
  have c: "cmd = [''HSET'', k] @ concat (map (\<lambda>p. [chars (fst p), chars (snd p)]) (entries h))" "entries h \<noteq> []"
    using cmd DHash by (auto simp: entry_cmd_def split: if_splits)
  have rb: "rebuilt (k, v) = (k, new_hash (rebuilt_hash h) 0)" using DHash by (simp add: rebuilt_def)
  have "4 \<le> length cmd" using c by (cases "entries h") simp_all
  moreover have "hset_spec cmd c = Inr (c @ [rebuilt (k, v)], integer_reply (int (length (entries h))), length (entries h) > 0)"
    unfolding c(1) rb by (rule hset_spec_new [OF new c(2) rebuilt_hash_ok(1) [OF h(2,1,3)]]) (use fit rb in simp)
  moreover have "cmd ! 0 = ''HSET''" using c(1) by simp
  ultimately show ?thesis
    by (auto simp: request_spec_def exec_spec_def server_names_def accounting_exact_def)
qed

lemma set_cmd_spec:
  assumes ok: "value_ok v" and r: "restorable (k, v)" and cmd: "entry_cmd now (k, v) = Some cmd"
    and new: "map_of c k = None" and fit: "cache_bytes (c @ [rebuilt (k, v)]) \<le> LRU_MAX_MEMORY" and DSet: "data v = DSet t"
  shows "(\<exists>msg b. request_spec cmd s c = Inr (c @ [rebuilt (k, v)], msg, b)) \<and>
    toupper (cmd ! 0) \<notin> server_names \<and> accounting_exact (toupper (cmd ! 0)) cmd c"
proof -
  have v: "v = new_set t 0" using set_value_eq [OF ok DSet] r DSet by (simp add: restorable_def)
  have t: "oset t" using ok DSet by (auto simp: value_ok_def value_wf_data)
  have c: "cmd = [''SADD'', k] @ t" "t \<noteq> []" using cmd DSet by (auto simp: entry_cmd_def split: if_splits)
  have "3 \<le> length cmd" using c by (cases t) simp_all
  moreover have "sadd_spec k t c = write_spec k v c (integer_reply (int (length t))) (length t > 0)"
    unfolding sadd_spec_def typed_spec_def Let_def using new v
    by (simp add: oset_sorted_list [OF t] del: length_sorted_list_of_set)
  moreover have rb: "rebuilt (k, v) = (k, v)" using DSet by (simp add: rebuilt_def)
  ultimately show ?thesis using write_new [OF new fit rb] c(1) new
    by (auto simp: request_spec_def exec_spec_def server_names_def accounting_exact_def sadd_exact_def)
qed

lemma entry_cmd_spec:
  assumes ok: "value_ok v" and r: "restorable (k, v)" and cmd: "entry_cmd now (k, v) = Some cmd"
    and new: "map_of c k = None" and fit: "cache_bytes (c @ [rebuilt (k, v)]) \<le> LRU_MAX_MEMORY"
    and small: "unat (memory_usage v) < 2 ^ 27"
  shows "\<exists>msg b. request_spec cmd s c = Inr (c @ [rebuilt (k, v)], msg, b)"
    "toupper (cmd ! 0) \<notin> server_names" "accounting_exact (toupper (cmd ! 0)) cmd c"
proof -
  have "(\<exists>msg b. request_spec cmd s c = Inr (c @ [rebuilt (k, v)], msg, b)) \<and>
    toupper (cmd ! 0) \<notin> server_names \<and> accounting_exact (toupper (cmd ! 0)) cmd c"
    by (cases "data v") (rule string_cmd_spec [OF assms(1-5)] list_cmd_spec [OF assms(1-5)] set_cmd_spec [OF assms(1-5)]
      hash_cmd_spec [OF assms(1-5) _ small]; assumption)+
  then show "\<exists>msg b. request_spec cmd s c = Inr (c @ [rebuilt (k, v)], msg, b)"
    "toupper (cmd ! 0) \<notin> server_names" "accounting_exact (toupper (cmd ! 0)) cmd c" by blast+
qed

lemma pubsub_frame:
  fixes s s' :: "('z) pubsub_state_scheme"
  assumes "io_state.more s' = io_state.more s"
  shows "clients_map s' = clients_map s" "pubsub_state.more s' = pubsub_state.more s"
  using assms by (cases s; cases s'; simp)+

text \<open>One command of the rewritten log, replayed on contents without its key.\<close>

lemma replay_one:
  fixes s :: "('z) server_scheme"
  assumes inv: "db_inv s c" and ok: "value_ok v" and r: "restorable (k, v)"
    and cmd: "entry_cmd now (k, v) = Some cmd" and new: "k \<notin> fst ` set c"
    and fit: "cache_bytes (c @ [rebuilt (k, v)]) \<le> LRU_MAX_MEMORY" "entry_size (k, v) \<le> LRU_MAX_MEMORY"
    and cl: "\<not> is_subscriber (client_of (-1) s)"
  shows "\<exists>s'. handle_command (-1) cmd s = Inr s' \<and> db_inv s' (c @ [rebuilt (k, v)]) \<and>
    (\<forall>fd. client_of fd s' = client_of fd s) \<and> pubsub_state.more s' = pubsub_state.more s \<and> out s' = out s"
proof -
  let ?s = "upd_client (-1) id s"
  have None: "map_of c k = None" using new by (simp add: map_of_eq_None_iff)
  have "sum_list (map (\<lambda>a. length a + 16) cmd) < 2 ^ 31"
    using entry_cmd_size [OF ok restorable_regular [OF r] cmd] fit(2) by (simp add: LRU_MAX_MEMORY_def)
  moreover have "cmd \<noteq> []" using entry_cmd_nonempty [OF cmd] by auto
  ultimately have args: "args_ok cmd" by (intro small_args_ok)
  have small: "unat (memory_usage v) < 2 ^ 27" using fit(2) by (simp add: entry_size_def LRU_MAX_MEMORY_def)
  note spec = entry_cmd_spec [OF ok r cmd None fit(1) small]
  obtain msg b where b: "request_spec cmd ?s c = Inr (c @ [rebuilt (k, v)], msg, b)" using spec(1) by blast
  from handle_command_meets [OF inv args cl spec(2,3)] b
  obtain s' where s': "handle_command (-1) cmd s = logged (-1) cmd (s', b)" "db_inv s' (c @ [rebuilt (k, v)])"
    "out s' = out ?s @ reply (-1) msg" "io_state.more s' = io_state.more ?s"
    by (auto simp: yields_def)
  have "clients_map s' = clients_map ?s" "pubsub_state.more s' = pubsub_state.more ?s"
    using s'(4) by (rule pubsub_frame)+
  then show ?thesis using s' cl by (auto simp: logged_def reply_def client_of_def upd_client_def)
qed

lemma replay_run:
  fixes s :: "('z) server_scheme"
  assumes "db_inv s c" "\<forall>e\<in>set es. value_ok (snd e) \<and> restorable e \<and> entry_cmd now e \<noteq> None \<and> entry_size e \<le> LRU_MAX_MEMORY"
    "distinct (map fst (c @ es))" "cache_bytes (c @ map rebuilt es) \<le> LRU_MAX_MEMORY" "\<not> is_subscriber (client_of (-1) s)"
  shows "\<exists>s'. run_commands (handle_command (-1)) (map (\<lambda>e. the (entry_cmd now e)) es) s = Inr s' \<and>
    db_inv s' (c @ map rebuilt es) \<and> (\<forall>fd. client_of fd s' = client_of fd s) \<and> pubsub_state.more s' = pubsub_state.more s \<and>
    out s' = out s"
  using assms
proof (induction es arbitrary: s c)
  case (Cons e es)
  obtain k v where e: "e = (k, v)" by (cases e)
  obtain cmd where cmd: "entry_cmd now (k, v) = Some cmd" using Cons.prems(2) e by auto
  have "k \<notin> fst ` set c" using Cons.prems(3) e by auto
  moreover have "cache_bytes (c @ [rebuilt (k, v)]) \<le> LRU_MAX_MEMORY" using Cons.prems(4) e by simp
  ultimately obtain s1 where s1: "handle_command (-1) cmd s = Inr s1" "db_inv s1 (c @ [rebuilt (k, v)])"
    "\<forall>fd. client_of fd s1 = client_of fd s" "pubsub_state.more s1 = pubsub_state.more s" "out s1 = out s"
    using replay_one [OF Cons.prems(1) _ _ cmd _ _ _ Cons.prems(5)] Cons.prems(2) e by auto
  have "\<exists>s'. run_commands (handle_command (-1)) (map (\<lambda>e. the (entry_cmd now e)) es) s1 = Inr s' \<and>
    db_inv s' ((c @ [rebuilt (k, v)]) @ map rebuilt es) \<and> (\<forall>fd. client_of fd s' = client_of fd s1) \<and>
    pubsub_state.more s' = pubsub_state.more s1 \<and> out s' = out s1"
    by (rule Cons.IH [OF s1(2)]) (use Cons.prems s1(3) e in auto)
  then show ?case using s1 cmd e by auto
qed simp

section \<open>The rewritten file\<close>

lemma format_length: "length (format_resp_command cmd) \<le> 4 + 3 * sum_list (map (\<lambda>a. length a + 16) cmd)"
proof -
  have "length (bulk a) \<le> 2 * (length a + 16)" for a
    using to_string_length [of "length a"] by (simp add: bulk_def resp_bulk_string_def crlf_def)
  then have "length (concat (map bulk cmd)) \<le> 2 * sum_list (map (\<lambda>a. length a + 16) cmd)"
    by (induction cmd) (auto intro: add_mono)
  moreover have "length cmd \<le> sum_list (map (\<lambda>a. length a + 16) cmd)" by (induction cmd) auto
  moreover have "length (to_string (length cmd)) \<le> length cmd + 1" by (rule to_string_length)
  ultimately show ?thesis by (simp add: format_resp_command_eq crlf_def)
qed

text \<open>The file is at most seven times as long as the store is large, so its length fits an \<open>int\<close>.\<close>

lemma rewrite_text_length:
  assumes "\<forall>e\<in>set c. value_ok (snd e) \<and> restorable e"
  shows "length (concat (map format_resp_command (rewrite_commands now c))) \<le> 7 * cache_bytes c"
  using assms
proof (induction c)
  case (Cons e c)
  obtain k v where e: "e = (k, v)" by (cases e)
  have IH: "length (concat (map format_resp_command (rewrite_commands now c))) \<le> 7 * cache_bytes c"
    using Cons by simp
  show ?case
  proof (cases "entry_cmd now e")
    case None
    then show ?thesis using IH by (simp add: rewrite_commands_def live_def)
  next
    case (Some cmd)
    have "sum_list (map (\<lambda>a. length a + 16) cmd) \<le> entry_size e"
      using entry_cmd_size [of v now k cmd] restorable_regular [of k v] Cons.prems Some e by simp
    moreover have "4 \<le> entry_size e" by (simp add: entry_size_def sizeof_DrutaNode_def)
    ultimately have "length (format_resp_command cmd) \<le> 7 * entry_size e" using format_length [of cmd] by linarith
    then show ?thesis using IH Some by (simp add: rewrite_commands_def live_def)
  qed
qed (simp add: rewrite_commands_def live_def)

lemma node_text_ok:
  assumes "value_ok (node_value n)" "regular (node_value n)"
    "entry_size (node_key n, node_value n) \<le> LRU_MAX_MEMORY"
  shows "node_text now n = Inr (concat (map format_resp_command (rewrite_commands now [(node_key n, node_value n)])))"
proof -
  have e: "entry_command now n = Inr (entry_cmd now (node_key n, node_value n))"
    using assms(1) by (intro entry_command_ok) (simp add: value_ok_def)
  show ?thesis
  proof (cases "entry_cmd now (node_key n, node_value n)")
    case (Some cmd)
    have "sum_list (map (\<lambda>a. length a + 16) cmd) + 80 < 2 ^ 31"
      using entry_cmd_size [OF assms(1,2) Some] assms(3) by (simp add: LRU_MAX_MEMORY_def)
    from format_command_ok [OF this] show ?thesis
      using e Some by (simp add: node_text_def rewrite_commands_def live_def)
  qed (use e in \<open>simp add: node_text_def rewrite_commands_def live_def\<close>)
qed

lemma rewrite_commands_concat:
  "concat (map format_resp_command (rewrite_commands now c)) =
     concat (map (\<lambda>e. concat (map format_resp_command (rewrite_commands now [e]))) c)"
  by (induction c) (auto simp: rewrite_commands_def live_def)

lemma entry_size_le: "e \<in> set c \<Longrightarrow> entry_size e \<le> cache_bytes c"
  by (auto simp: cache_bytes_def intro: member_le_sum_list)

lemma rewrite_aof_walk:
  assumes "rewrite_walk (clock s (ticks s)) (heap s) (TAIL s) [] = Some (Inr text1)"
  shows "\<exists>s'. rewrite_aof s = Inr s' \<and>
    (fs_ok s (fs_ticks s) \<and> fs_ok s (Suc (fs_ticks s)) \<longrightarrow> aof_disk s' = text1)"
  using assms
  by (simp add: rewrite_aof_def fs_try_def get_current_time_ms_def aof_close_def aof_flush_def aof_reopen_def)

lemma rewrite_aof_ok:
  assumes inv: "db_inv s c" and r: "values_all regular c"
  shows "\<exists>s'. rewrite_aof s = Inr s' \<and> core s' = core s \<and>
    (fs_ok s (fs_ticks s) \<and> fs_ok s (Suc (fs_ticks s)) \<longrightarrow>
      aof_disk s' = concat (map format_resp_command (rewrite_commands (clock s (ticks s)) c)))"
proof -
  let ?now = "clock s (ticks s)"
  let ?f = "\<lambda>e. concat (map format_resp_command (rewrite_commands ?now [e]))"
  obtain as where as: "lru_repr s as c" "\<forall>e\<in>set c. value_ok (snd e)" "cache_bytes c \<le> LRU_MAX_MEMORY"
    using db_invE [OF inv] by metis
  have "\<forall>a\<in>set as. \<exists>n. heap s a = Some n \<and> node_text ?now n = Inr (?f (the (kvs (heap s) a)))"
  proof
    fix a assume "a \<in> set as"
    then obtain n where n: "heap s a = Some n" "kvs (heap s) a = Some (node_key n, node_value n)"
      "(node_key n, node_value n) \<in> set c" by (metis lru_repr_node [OF as(1)])
    moreover have "entry_size (node_key n, node_value n) \<le> LRU_MAX_MEMORY"
      using entry_size_le [OF n(3)] as(3) by simp
    ultimately show "\<exists>n. heap s a = Some n \<and> node_text ?now n = Inr (?f (the (kvs (heap s) a)))"
      using node_text_ok [of n ?now] r as(2) by (fastforce simp: values_all_def)
  qed
  moreover have "dll (heap s) None as None" "TAIL s = first_or None as" using lru_reprD(1) [OF as(1)] by (simp_all add: linked_def)
  ultimately have "rewrite_walk ?now (heap s) (TAIL s) [] = Some (Inr (concat (map (\<lambda>a. ?f (the (kvs (heap s) a))) as)))"
    using rewrite_walk_ok [of "heap s" None as ?now "\<lambda>a. ?f (the (kvs (heap s) a))" "[]"] by simp
  also have "map (\<lambda>a. ?f (the (kvs (heap s) a))) as = map ?f c"
    using lru_reprD(4) [OF as(1)] by (simp add: contents_def)
  also have "concat (map ?f c) = concat (map format_resp_command (rewrite_commands ?now c))"
    by (rule rewrite_commands_concat [symmetric])
  finally show ?thesis using rewrite_aof_walk [of s] rewrite_core [of s] by blast
qed

section \<open>Restart\<close>

lemma rebuilt_entry:
  assumes "value_ok (snd e)" "restorable e" "entry_size e \<le> LRU_MAX_MEMORY"
  shows "restorable (rebuilt e)" "entry_size (rebuilt e) \<le> entry_size e"
proof -
  have "restorable (rebuilt e) \<and> entry_size (rebuilt e) \<le> entry_size e"
  proof (cases "data (snd e)")
    case (DHash h)
    have small: "unat (memory_usage (snd e)) < 2 ^ 27" using assms(3) by (cases e) (simp add: entry_size_def LRU_MAX_MEMORY_def)
    then have h: "hash_wf h" "short_hash h" "unat (hmemory_usage h) < 2 ^ 27" "memory_usage (snd e) = hmemory_usage h"
      using assms(1,2) DHash hash_value_mem [OF assms(1) DHash] by (auto simp: restorable_def value_ok_def value_wf_def)
    note r = rebuilt_hash_ok [OF h(1-3)]
    show ?thesis using DHash r(3,5) h(4) by (cases e) (simp add: rebuilt_def restorable_def new_hash_def entry_size_def)
  qed (use assms(2) in \<open>cases e, simp add: rebuilt_def\<close>)+
  then show "restorable (rebuilt e)" "entry_size (rebuilt e) \<le> entry_size e" by simp_all
qed

lemma rebuilt_bytes:
  assumes "\<forall>e\<in>set c. value_ok (snd e) \<and> restorable e \<and> entry_size e \<le> LRU_MAX_MEMORY"
  shows "cache_bytes (map rebuilt c) \<le> cache_bytes c"
  using assms by (induction c) (auto intro: add_mono rebuilt_entry(2))

lemma live_keeps:
  "set (live now c) \<subseteq> set c" "distinct (map fst c) \<Longrightarrow> distinct (map fst (live now c))" "cache_bytes (live now c) \<le> cache_bytes c"
  by (auto simp: live_def distinct_map_filter) (induction c, auto)

lemma live_entries:
  assumes c: "\<forall>e\<in>set c. value_ok (snd e) \<and> restorable e" "cache_bytes c \<le> LRU_MAX_MEMORY"
  shows "\<forall>e\<in>set (live now c). value_ok (snd e) \<and> restorable e \<and> entry_cmd now e \<noteq> None \<and> entry_size e \<le> LRU_MAX_MEMORY"
    "\<forall>e\<in>set (map rebuilt (live now c)). restorable e" "cache_bytes (map rebuilt (live now c)) \<le> cache_bytes c"
proof -
  show live: "\<forall>e\<in>set (live now c). value_ok (snd e) \<and> restorable e \<and> entry_cmd now e \<noteq> None \<and> entry_size e \<le> LRU_MAX_MEMORY"
  proof
    fix e assume e: "e \<in> set (live now c)"
    then have "e \<in> set c" using live_keeps(1) by blast
    then show "value_ok (snd e) \<and> restorable e \<and> entry_cmd now e \<noteq> None \<and> entry_size e \<le> LRU_MAX_MEMORY"
      using c entry_size_le [of e c] e by (auto simp: live_def)
  qed
  show "\<forall>e\<in>set (map rebuilt (live now c)). restorable e" using rebuilt_entry live by fastforce
  show "cache_bytes (map rebuilt (live now c)) \<le> cache_bytes c"
    using live rebuilt_bytes [of "live now c"] live_keeps(3) [of now c] by fastforce
qed

text \<open>The commands of a snapshot recreate its entries on an empty store.\<close>

lemma snapshot_runs:
  fixes s :: "('z) server_scheme"
  assumes c: "\<forall>e\<in>set c. value_ok (snd e) \<and> restorable e" "distinct (map fst c)" "cache_bytes c \<le> LRU_MAX_MEMORY"
    and s: "db_inv s []" "\<not> is_subscriber (client_of (-1) s)"
  shows "\<exists>t. run_commands (handle_command (-1)) (rewrite_commands now c) s = Inr t \<and> db_inv t (map rebuilt (live now c)) \<and>
    (\<forall>fd. client_of fd t = client_of fd s) \<and> out t = out s"
  using replay_run [of s "[]" "live now c" now] live_entries [OF c(1,3), of now] live_keeps(2) [OF c(2), of now] c(3) s
  by (auto simp: rewrite_commands_def)

lemma snapshot_args:
  assumes c: "\<forall>e\<in>set c. value_ok (snd e) \<and> restorable e" "cache_bytes c \<le> LRU_MAX_MEMORY"
  shows "\<forall>args\<in>set (rewrite_commands now c). args_ok args"
proof
  fix args assume "args \<in> set (rewrite_commands now c)"
  then obtain k v where e: "(k, v) \<in> set (live now c)" "entry_cmd now (k, v) = Some args"
    by (auto simp: rewrite_commands_def live_def)
  have kv: "value_ok v" "restorable (k, v)" "entry_size (k, v) \<le> LRU_MAX_MEMORY" using live_entries(1) [OF c, of now] e(1) by fastforce+
  have "sum_list (map (\<lambda>a. length a + 16) args) < 2 ^ 31"
    using entry_cmd_size [OF kv(1) restorable_regular [OF kv(2)] e(2)] kv(3) by (simp add: LRU_MAX_MEMORY_def)
  moreover have "args \<noteq> []" using entry_cmd_nonempty [OF e(2)] by auto
  ultimately show "args_ok args" by (intro small_args_ok)
qed

text \<open>Once the commands of the file have run, the startup may rewrite the file; the contents stay.\<close>

lemma boot_empty: "db_inv ((boot clk tick spl fso disk)\<lparr>fs_ticks := n\<rparr>) []" "out ((boot clk tick spl fso disk)\<lparr>fs_ticks := n\<rparr>) = []"
  "client_of fd ((boot clk tick spl fso disk)\<lparr>fs_ticks := n\<rparr>) = new_client"
  by (auto simp: boot_def db_inv_def lru_inv_def lru_repr_def linked_def kvs_def client_of_def)

lemma startup_parsed:
  assumes parse: "parse_and_execute (handle_command (-1)) disk (init_parser, (boot clk tick spl fso disk)\<lparr>fs_ticks := 2\<rparr>) = Inr (p, t)"
    and len: "length disk < 2 ^ 31" and readable: "fso 1" and t: "db_inv t c" "values_all regular c"
  shows "\<exists>u. startup (boot clk tick spl fso disk) = Inr u \<and> core u = core t"
proof -
  let ?b = "boot clk tick spl fso disk" and ?t = "t\<lparr>last_rewrite_size := length (aof_disk t)\<rparr>"
  have start: "startup ?b = (if REWRITE_THRESHOLD < length (aof_disk t)
      then rbind (rewrite_aof ?t) (\<lambda>u. Inr (u\<lparr>last_rewrite_size := length (aof_disk u)\<rparr>)) else Inr ?t)"
    using readable parse to_int32_small [OF len]
    by (simp add: startup_def replay_aof_def fs_try_def boot_def Let_def numeral_2_eq_2)
  have core: "core ?t = core t" by simp
  have inv: "db_inv ?t c" using core_eqD(2) [OF core] t(1) by simp
  then obtain u where u: "rewrite_aof ?t = Inr u" "core u = core ?t" using rewrite_aof_ok [OF inv t(2)] by blast
  have "core (u\<lparr>last_rewrite_size := length (aof_disk u)\<rparr>) = core t" using u(2) core by simp
  then show ?thesis using start u(1) core by auto
qed

lemma startup_restores:
  assumes c: "\<forall>e\<in>set c. value_ok (snd e) \<and> restorable e" "distinct (map fst c)" "cache_bytes c \<le> LRU_MAX_MEMORY"
    and disk: "disk = concat (map format_resp_command (rewrite_commands now c))" and readable: "fso 1"
  shows "\<exists>t. startup (boot clk tick spl fso disk) = Inr t \<and> db_inv t (map rebuilt (live now c)) \<and> out t = []"
proof -
  let ?s = "(boot clk tick spl fso disk)\<lparr>fs_ticks := 2\<rparr>"
  have len: "length disk < 2 ^ 31" using rewrite_text_length [OF c(1), of now] c(3) unfolding disk by (simp add: LRU_MAX_MEMORY_def)
  have "\<not> is_subscriber (client_of (-1) ?s)" by (simp add: boot_empty) (simp add: new_client_def)
  from snapshot_runs [OF c boot_empty(1) this, of now]
  obtain t where t: "run_commands (handle_command (-1)) (rewrite_commands now c) ?s = Inr t"
    "db_inv t (map rebuilt (live now c))" "out t = []" by (auto simp: boot_empty)
  from parse_commands [OF snapshot_args [OF c(1,3), of now], of "handle_command (-1)" ?s] t(1)
  have "parse_and_execute (handle_command (-1)) disk (init_parser, ?s) = Inr (init_parser, t)" by (simp add: disk)
  from startup_parsed [OF this len readable t(2) restorable_values [OF live_entries(2) [OF c(1,3)]]] show ?thesis
    using core_eqD(2,5) t(2,3) by metis
qed

text \<open>What a client sees of an entry is the same before and after.\<close>

definition same_entry :: "string \<times> DrutaValue \<Rightarrow> string \<times> DrutaValue \<Rightarrow> bool" where
  "same_entry e e' = (fst e' = fst e \<and> vtype (snd e') = vtype (snd e) \<and> expiry_time (snd e') = expiry_time (snd e) \<and>
     (case data (snd e) of DHash h \<Rightarrow> (case data (snd e') of DHash h' \<Rightarrow> hash_map h' = hash_map h | _ \<Rightarrow> False)
      | d \<Rightarrow> data (snd e') = d))"

lemma same_rebuilt:
  assumes "value_ok (snd e)" "restorable e" "entry_size e \<le> LRU_MAX_MEMORY"
  shows "same_entry e (rebuilt e)"
proof (cases "data (snd e)")
  case (DHash h)
  have "unat (memory_usage (snd e)) < 2 ^ 27" using assms(3) by (cases e) (simp add: entry_size_def LRU_MAX_MEMORY_def)
  then have h: "hash_wf h" "short_hash h" "unat (hmemory_usage h) < 2 ^ 27"
    using assms(1,2) DHash hash_value_mem [OF assms(1) DHash] by (auto simp: restorable_def value_ok_def value_wf_def)
  show ?thesis
    using DHash rebuilt_hash_ok(2) [OF h] assms(1,2)
    by (simp add: same_entry_def rebuilt_def new_hash_def restorable_def value_ok_def value_wf_def)
qed (simp_all add: same_entry_def rebuilt_def)

section \<open>Properties\<close>

text \<open>
  \<^bold>\<open>C5\<close>. When the log has been rewritten, a new process that reads it has, once its
  startup ends, the entries that were stored and not expired or empty at the time of the rewrite, in the
  same LRU order: same keys, types and expiry times, the same strings, lists and sets, hashes with the same
  fields; the store is not larger than before, all invariants hold, and nothing is sent to any client. This
  holds with any bytes in keys and values (fields and values of hashes of at most 15), and also when the
  startup rewrites the log again.
\<close>

theorem rewrite_then_restart:
  assumes "db_inv s c" "\<forall>e\<in>set c. restorable e" "fs_ok s (fs_ticks s)" "fs_ok s (Suc (fs_ticks s))" "fso 1"
  shows "\<exists>s' t c'. rewrite_aof s = Inr s' \<and> db_inv s' c \<and>
    startup (boot clk tick spl fso (aof_disk s')) = Inr t \<and> db_inv t c' \<and>
    list_all2 same_entry (live (clock s (ticks s)) c) c' \<and> cache_bytes c' \<le> cache_bytes c \<and> out t = []"
proof -
  let ?now = "clock s (ticks s)" let ?l = "live ?now c"
  obtain s' where s': "rewrite_aof s = Inr s'" "core s' = core s"
    "aof_disk s' = concat (map format_resp_command (rewrite_commands ?now c))"
    using rewrite_aof_ok [OF assms(1) restorable_values [OF assms(2)]] assms(3,4) by blast
  have c: "\<forall>e\<in>set c. value_ok (snd e) \<and> restorable e" "distinct (map fst c)" "cache_bytes c \<le> LRU_MAX_MEMORY"
    using assms(1,2) db_keys [OF assms(1)] by (auto simp: db_inv_def)
  have l: "\<forall>e\<in>set ?l. value_ok (snd e) \<and> restorable e \<and> entry_size e \<le> LRU_MAX_MEMORY"
    using c(1,3) live_keeps(1) [of ?now c] entry_size_le [of _ c] by fastforce
  have "cache_bytes (map rebuilt ?l) \<le> cache_bytes c" using rebuilt_bytes [OF l] live_keeps(3) [of ?now c] by linarith
  moreover have "list_all2 same_entry ?l (map rebuilt ?l)" using l same_rebuilt by (auto simp: list_all2_conv_all_nth)
  ultimately show ?thesis
    using startup_restores [of c "aof_disk s'" ?now fso clk tick spl, OF c s'(3) assms(5)] s'(1) core_eqD(2) [OF s'(2)] assms(1)
    by blast
qed

theorem rewrite_then_restart_witness:
  "\<exists>(s :: server) s' t k v h. db_inv s [(''l'', new_list [''a'', ''b''] 0), (''h'', new_hash (new_hash_vec [(str_copy ''f'', str_copy ''v'')] 0) 0)] \<and>
     rewrite_aof s = Inr s' \<and> startup (boot (\<lambda>_. 0) (\<lambda>_. 0) (\<lambda>_. 0) (\<lambda>_. True) (aof_disk s')) = Inr t \<and>
     db_inv t [(''l'', new_list [''a'', ''b''] 0), (''h'', v)] \<and> data v = DHash h \<and> hash_map h = [''f'' \<mapsto> ''v'']"
proof -
  let ?h = "new_hash_vec [(str_copy ''f'', str_copy ''v'')] 0"
  let ?c = "[(''l'', new_list [''a'', ''b''] 0), (''h'', new_hash ?h 0)]"
  have st: "storable ?c" by (rule storableI) code_simp
  obtain s where s: "db_inv s ?c" "lru_state.more s = lru_state.more (empty_server (\<lambda>_. True))"
    using db_inv_inhabited [OF db_inv_empty_server st] by blast
  have fs: "fs_ok s = (\<lambda>_. True)" using s(2) by (cases s) (simp add: empty_server_def)
  have "sso_hash ?h \<and> unat (hmemory_usage ?h) = hash_bytes ?h" by code_simp
  moreover have map: "hash_map ?h = [''f'' \<mapsto> ''v'']"
    by (simp add: hash_map_def new_hash_vec_def entries_def str_copy_def)
  ultimately have "short_hash ?h" by (auto simp: short_hash_def ran_def sso_capacity_def split: if_splits)
  then have r: "\<forall>e\<in>set ?c. restorable e" by (simp add: restorable_def new_list_def new_hash_def)
  have live: "live now ?c = ?c" for now
    by (simp add: live_def entry_cmd_def expired_at_def new_list_def new_hash_def new_hash_vec_def entries_def)
  obtain s' t c' where t: "rewrite_aof s = Inr s'" "startup (boot (\<lambda>_. 0) (\<lambda>_. 0) (\<lambda>_. 0) (\<lambda>_. True) (aof_disk s')) = Inr t"
    "db_inv t c'" "list_all2 same_entry ?c c'"
    using rewrite_then_restart [OF s(1) r, of "\<lambda>_. True" "\<lambda>_. 0" "\<lambda>_. 0" "\<lambda>_. 0"] fs live by auto
  then obtain e1 e2 where c': "c' = [e1, e2]" "same_entry (''l'', new_list [''a'', ''b''] 0) e1" "same_entry (''h'', new_hash ?h 0) e2"
    by (auto simp: list_all2_Cons1)
  have "value_ok (snd e1)" using t(3) c'(1) by (auto simp: db_inv_def)
  from list_value_eq [OF this, of "[''a'', ''b'']"] have "e1 = (''l'', new_list [''a'', ''b''] 0)"
    using c'(2) by (cases e1) (auto simp: same_entry_def new_list_def)
  moreover obtain v h where "e2 = (''h'', v)" "data v = DHash h" "hash_map h = [''f'' \<mapsto> ''v'']"
    using c'(3) map by (cases e2) (auto simp: same_entry_def new_hash_def split: value_data.splits)
  ultimately show ?thesis using s(1) t(1-3) c'(1) by blast
qed

end
