(* ===== verification/Map_Semantics.thy ===== *)
theory Map_Semantics
  imports Recovery
begin

text \<open>
  The store without its LRU order: as long as nothing has to be evicted and no value expires, the server
  is a map from keys to values, and a command is a function \<open>effect\<close> on the map, with the success flag that
  decides about the log. It is the most abstract of the three levels (code, entries in LRU order, map).
\<close>

section \<open>Commands on a map\<close>

definition typed_effect :: "(value_data \<Rightarrow> 'a option) \<Rightarrow> string \<Rightarrow> (string \<rightharpoonup> DrutaValue) \<Rightarrow>
    ((string \<rightharpoonup> DrutaValue) \<times> bool) res \<Rightarrow> (DrutaValue \<Rightarrow> 'a \<Rightarrow> ((string \<rightharpoonup> DrutaValue) \<times> bool) res) \<Rightarrow>
    ((string \<rightharpoonup> DrutaValue) \<times> bool) res" where
  "typed_effect f k m missing found = (case m k of
     None \<Rightarrow> missing
   | Some v \<Rightarrow> (case f (data v) of None \<Rightarrow> Inr (m, False) | Some x \<Rightarrow> found v x))"

definition push_effect :: "bool \<Rightarrow> string list \<Rightarrow> (string \<rightharpoonup> DrutaValue) \<Rightarrow> ((string \<rightharpoonup> DrutaValue) \<times> bool) res" where
  "push_effect at_front args m =
     (let k = args ! 1; put = (\<lambda>l e. Inr (m(k \<mapsto> new_list (push_all at_front (drop 2 args) l) e), True))
      in typed_effect as_list k m (put [] 0) (\<lambda>v l. put l (expiry_time v)))"

definition pop_effect :: "bool \<Rightarrow> string list \<Rightarrow> (string \<rightharpoonup> DrutaValue) \<Rightarrow> ((string \<rightharpoonup> DrutaValue) \<times> bool) res" where
  "pop_effect from_front args m =
     (if 3 < length args then Inr (m, False)
      else typed_effect as_list (args ! 1) m (Inr (m, False)) (\<lambda>v l.
        let n = pop_count args in
        if n < 0 then Inl (if n + 2 ^ 31 < int (length l) then Signed_overflow else Empty_container)
        else Inr (m(args ! 1 \<mapsto> new_list (remaining from_front (nat n) l) (expiry_time v)), True)))"

definition hset_effect :: "string list \<Rightarrow> (string \<rightharpoonup> DrutaValue) \<Rightarrow> ((string \<rightharpoonup> DrutaValue) \<times> bool) res" where
  "hset_effect args m =
     (let k = args ! 1;
          put = (\<lambda>h e. rbind (put_loop set_hash (pairs_of (drop 2 args)) h) (\<lambda>(h', n). Inr (m(k \<mapsto> new_hash h' e), n > 0)))
      in if odd (length args) then Inr (m, False)
         else typed_effect as_hash k m (put (new_hash_vec [] 0) 0) (\<lambda>v h. put h (expiry_time v)))"

definition hdel_effect :: "string list \<Rightarrow> (string \<rightharpoonup> DrutaValue) \<Rightarrow> ((string \<rightharpoonup> DrutaValue) \<times> bool) res" where
  "hdel_effect args m = typed_effect as_hash (args ! 1) m (Inr (m, False)) (\<lambda>v h.
     rbind (del_loop del_hash (drop 2 args) h) (\<lambda>(h', n). Inr (m(args ! 1 \<mapsto> new_hash h' (expiry_time v)), n > 0)))"

definition sadd_effect :: "string list \<Rightarrow> (string \<rightharpoonup> DrutaValue) \<Rightarrow> ((string \<rightharpoonup> DrutaValue) \<times> bool) res" where
  "sadd_effect args m =
     (let k = args ! 1;
          add = (\<lambda>t e. let t' = sorted_list_of_set (set t \<union> set (drop 2 args))
            in Inr (m(k \<mapsto> new_set t' e), length t' - length t > 0))
      in typed_effect as_set k m (add [] 0) (\<lambda>v t. add t (expiry_time v)))"

definition sdel_effect :: "string list \<Rightarrow> (string \<rightharpoonup> DrutaValue) \<Rightarrow> ((string \<rightharpoonup> DrutaValue) \<times> bool) res" where
  "sdel_effect args m = typed_effect as_set (args ! 1) m (Inr (m, False)) (\<lambda>v t.
     let t' = sorted_list_of_set (set t - set (drop 2 args))
     in Inr (m(args ! 1 \<mapsto> new_set t' (expiry_time v)), length t - length t' > 0))"

definition effect :: "string list \<Rightarrow> (string \<rightharpoonup> DrutaValue) \<Rightarrow> ((string \<rightharpoonup> DrutaValue) \<times> bool) res" where
  "effect args m =
     (let cmd = toupper (args ! 0); n = length args in
      if cmd = ''SET'' \<and> 3 \<le> n then Inr (m(args ! 1 \<mapsto> new_string (args ! 2) 0), True)
      else if cmd = ''RPUSH'' \<and> 3 \<le> n then push_effect False args m
      else if cmd = ''LPUSH'' \<and> 3 \<le> n then push_effect True args m
      else if cmd = ''LPOP'' \<and> 2 \<le> n then pop_effect True args m
      else if cmd = ''RPOP'' \<and> 2 \<le> n then pop_effect False args m
      else if cmd = ''DEL'' \<and> 2 \<le> n then Inr (m |` (- set (drop 1 args)), list_ex (\<lambda>k. m k \<noteq> None) (drop 1 args))
      else if cmd = ''HSET'' \<and> 4 \<le> n then hset_effect args m
      else if cmd = ''HDEL'' \<and> 3 \<le> n then hdel_effect args m
      else if cmd = ''SADD'' \<and> 3 \<le> n then sadd_effect args m
      else if cmd = ''SDEL'' \<and> 3 \<le> n then sdel_effect args m
      else Inr (m, False))"

section \<open>Outcomes on entries and on the map\<close>

text \<open>The specified outcome on entries has the effect on the map and grows the store by at most \<open>n\<close>.\<close>

definition settles :: "cache \<Rightarrow> nat \<Rightarrow> command_spec \<Rightarrow> ((string \<rightharpoonup> DrutaValue) \<times> bool) res \<Rightarrow> bool" where
  "settles c n spec eff = (case eff of
     Inl e \<Rightarrow> spec = Inl e
   | Inr (m, b) \<Rightarrow> (\<exists>c1 msg. spec = Inr (c1, msg, b) \<and> map_of c1 = m \<and> cache_bytes c1 \<le> cache_bytes c + n))"

lemma settles_simps [simp]:
  "settles c n spec (Inl e) \<longleftrightarrow> spec = Inl e"
  "settles c n (Inr (c1, msg, b')) (Inr (m, b)) \<longleftrightarrow> b' = b \<and> map_of c1 = m \<and> cache_bytes c1 \<le> cache_bytes c + n"
  by (auto simp: settles_def)

lemma settles_same [simp]: "settles c n (Inr (c, msg, b)) (Inr (map_of c, b))"
  by simp

lemma settles_touch: "distinct (map fst c) \<Longrightarrow> settles c n (Inr (cache_touch k c, msg, b)) (Inr (map_of c, b))"
  by (simp add: map_of_cache_touch cache_bytes_touch)

lemma settles_typed:
  assumes "map_of c k = None \<Longrightarrow> settles c n missing missing'"
    "\<And>v x. map_of c k = Some v \<Longrightarrow> f (data v) = Some x \<Longrightarrow> settles c n (found v x) (found' v x)"
  shows "settles c n (typed_spec f k c missing found) (typed_effect f k (map_of c) missing' found')"
  using assms by (auto simp: typed_spec_def typed_effect_def split: option.split)

lemma settles_read:
  assumes "settles c n missing (Inr (map_of c, False))"
    "\<And>v x. map_of c k = Some v \<Longrightarrow> f (data v) = Some x \<Longrightarrow> settles c n (found v x) (Inr (map_of c, False))"
  shows "settles c n (typed_spec f k c missing found) (Inr (map_of c, False))"
  using assms by (auto simp: typed_spec_def split: option.split)

lemma settles_write:
  assumes d: "distinct (map fst c)" and fits: "cache_bytes c + n \<le> LRU_MAX_MEMORY"
    and new: "map_of c k = None \<Longrightarrow> entry_size (k, w) \<le> n"
    and old: "\<And>v. map_of c k = Some v \<Longrightarrow> unat (memory_usage w) \<le> unat (memory_usage v) + n"
  shows "settles c n (write_spec k w c msg b) (Inr ((map_of c)(k \<mapsto> w), b))"
proof (cases "map_of c k")
  case None
  then have f: "cache_bytes c + entry_size (k, w) \<le> LRU_MAX_MEMORY" using new fits by simp
  have "set_spec k w c = c @ [(k, w)]" using None evict_spec_id [of "c @ [(k, w)]"] f by (simp add: set_spec_def)
  then show ?thesis using set_spec_fits [OF d f] new [OF None] by (simp add: write_spec_def)
next
  case (Some v)
  have u: "cache_bytes (cache_upd k w c) \<le> cache_bytes c + n" using cache_bytes_upd [OF d Some, of w] old [OF Some] by simp
  then have "cache_bytes (cache_upd k w c) \<le> LRU_MAX_MEMORY" using fits by simp
  then have "survives k w c" "map_of (set_spec k w c) = (map_of c)(k \<mapsto> w)" "evict_spec (cache_upd k w c) = cache_upd k w c"
    using set_spec_upd [OF d Some] evict_spec_id by blast+
  moreover from this(3) have "set_spec k w c = cache_touch k (cache_upd k w c)" using Some by (simp add: set_spec_def)
  ultimately show ?thesis using u by (simp add: write_spec_def cache_bytes_touch)
qed

lemma settles_upd:
  assumes d: "distinct (map fst c)" and v: "map_of c k = Some v" and le: "unat (memory_usage w) \<le> unat (memory_usage v)"
  shows "settles c n (Inr (cache_touch k (cache_upd k w c), msg, b)) (Inr ((map_of c)(k \<mapsto> w), b))"
    "settles c n (Inr (cache_upd k w (cache_touch k c), msg, b)) (Inr ((map_of c)(k \<mapsto> w), b))"
proof -
  have d': "distinct (map fst (cache_touch k c))" using d by (auto simp: cache_touch_def cache_del_def distinct_map_filter)
  have v': "map_of (cache_touch k c) k = Some v" using v d by (simp add: map_of_cache_touch)
  show "settles c n (Inr (cache_touch k (cache_upd k w c), msg, b)) (Inr ((map_of c)(k \<mapsto> w), b))"
    using d v le cache_bytes_upd [OF d v, of w]
    by (simp add: map_of_cache_touch cache_upd_keys cache_bytes_touch map_of_upd_same)
  show "settles c n (Inr (cache_upd k w (cache_touch k c), msg, b)) (Inr ((map_of c)(k \<mapsto> w), b))"
    using d v v' le cache_bytes_upd [OF d' v', of w] by (simp add: map_of_cache_touch cache_bytes_touch map_of_upd_same)
qed

section \<open>Values that stay, requests that keep them so\<close>

definition timeless :: "DrutaValue \<Rightarrow> bool" where
  "timeless v = (regular v \<and> expiry_time v = 0)"

text \<open>Modest requests for the store, SET without options.\<close>

definition plain_request :: "string list \<Rightarrow> bool" where
  "plain_request args = (modest args \<and> toupper (args ! 0) \<notin> server_names \<and>
     (toupper (args ! 0) = ''SET'' \<longrightarrow> length args = 3))"

lemma timeless_timed: "timeless v \<Longrightarrow> regular v" "regular v \<Longrightarrow> expiry_time v = 0 \<Longrightarrow> timeless v"
  by (simp_all add: timeless_def)

interpretation lasting: value_invariant timeless plain_request
proof unfold_locales
  fix args v h h' n
  assume a: "plain_request args" "timeless v" "stored v" "data v = DHash h"
    "put_loop set_hash (pairs_of (drop 2 args)) h = Inr (h', n)" "toupper (args ! 0) = ''HSET''"
  then have "regular (new_hash h' (expiry_time v))"
    by (intro modest.hash_put [of args v h h' n]) (simp_all add: plain_request_def timeless_def)
  then show "timeless (new_hash h' (expiry_time v))" using a(2) by (simp add: timeless_def new_hash_def)
next
  fix v h fs h' n
  assume a: "timeless v" "stored v" "data v = DHash h" "del_loop del_hash fs h = Inr (h', n)"
  then have "regular (new_hash h' (expiry_time v)) \<and> hmemory_usage h' \<le> hmemory_usage h"
    by (intro modest.hash_del [of v h fs h' n]) (simp_all add: timeless_def)
  then show "timeless (new_hash h' (expiry_time v)) \<and> hmemory_usage h' \<le> hmemory_usage h"
    using a(1) by (simp add: timeless_def new_hash_def)
next
  fix args :: "string list" and e :: int and x
  assume "plain_request args" "toupper (args ! 0) = ''SET''" "length args = 3 \<Longrightarrow> e = 0"
  then show "timeless (new_string x e)" by (simp add: plain_request_def timeless_def regular_def new_string_def)
next
  show "timeless (new_empty HASH)" using modest.hash_new by (simp add: timeless_def new_empty_def)
next
  fix args
  assume "plain_request args" "toupper (args ! 0) = ''SADD''"
  then show "sum_list (map set_elem_bytes (drop 2 args)) < 2 ^ 31" by (intro modest.sadd_ok) (simp_all add: plain_request_def)
qed (simp_all add: timeless_def regular_def new_list_def new_set_def plain_request_def modest_def)

section \<open>Every request has its effect on the map\<close>

lemma request_bytes_tail:
  assumes "2 \<le> length args"
  shows "request_bytes (drop 2 args) + 5000 + 2 * length (args ! 1) \<le> request_bytes args"
proof -
  obtain a k xs where "args = a # k # xs" using assms by (metis Suc_le_length_iff numeral_2_eq_2)
  then show ?thesis by simp
qed

lemma new_entry_size: "entry_size (k, w) \<le> unat (memory_usage w) + 2 * length k + 4000"
  using copy_capacity_bound [of k] by (simp add: entry_size_def sizeof_DrutaNode_def)

definition roomy :: "cache \<Rightarrow> string list \<Rightarrow> bool" where
  "roomy c args = (storable c \<and> values_all timeless c \<and> plain_request args \<and>
     cache_bytes c + request_bytes args \<le> LRU_MAX_MEMORY)"

lemma roomyD:
  assumes "roomy c args"
  shows "distinct (map fst c)" "cache_bytes c + request_bytes args \<le> LRU_MAX_MEMORY" "plain_request args" "request_bytes args < 2 ^ 31"
    "map_of c k = Some v \<Longrightarrow> value_ok v" "map_of c k = Some v \<Longrightarrow> unat (memory_usage v) \<le> LRU_MAX_MEMORY"
    "map_of c k = Some v \<Longrightarrow> timeless v" "map_of c k = Some v \<Longrightarrow> stored v"
  using assms storable_at [of c k v] values_all_lookup [of timeless c k v]
  by (auto simp: roomy_def storable_def stored_def LRU_MAX_MEMORY_def)

text \<open>A value that costs \<open>d\<close> bytes more than the old one, or \<open>d\<close> bytes where there was none.\<close>

lemma settles_grow:
  assumes r: "roomy c args" and len: "2 \<le> length args" and d: "d \<le> request_bytes (drop 2 args)"
    and mem: "unat (memory_usage w) \<le> (case map_of c (args ! 1) of None \<Rightarrow> 0 | Some v \<Rightarrow> unat (memory_usage v)) + d"
  shows "settles c (request_bytes args) (write_spec (args ! 1) w c msg b) (Inr ((map_of c)(args ! 1 \<mapsto> w), b))"
  using r roomyD(1,2) [OF r] request_bytes_tail [OF len] new_entry_size [of "args ! 1" w] mem d
  by (intro settles_write) (auto split: option.splits)

text \<open>The size of a list or set after its elements were added.\<close>

lemma push_grows:
  assumes "sum_list (map list_elem_bytes l) \<le> LRU_MAX_MEMORY" "request_bytes xs < 2 ^ 31"
  shows "unat (memory_usage (new_list (push_all ff xs l) e)) = sum_list (map list_elem_bytes l) + sum_list (map list_elem_bytes xs)"
proof -
  have "sum_list (map list_elem_bytes (push_all ff xs l)) = sum_list (map list_elem_bytes l) + sum_list (map list_elem_bytes xs)"
    by (simp add: push_all_def sum_list_rev flip: rev_map)
  then show ?thesis using new_list_ok(2) [of "push_all ff xs l" e] assms elems_bound(1) [of xs] by (simp add: LRU_MAX_MEMORY_def)
qed

lemma sadd_grows:
  assumes "oset t" "sum_list (map set_elem_bytes t) \<le> LRU_MAX_MEMORY" "request_bytes xs < 2 ^ 31"
  shows "\<exists>d\<le>request_bytes xs. unat (memory_usage (new_set (sorted_list_of_set (set t \<union> set xs)) e)) = sum_list (map set_elem_bytes t) + d"
proof -
  obtain u d where u: "oset u" "set u = set t \<union> set xs" "d \<le> sum_list (map set_elem_bytes xs)"
    "sum_list (map set_elem_bytes u) = sum_list (map set_elem_bytes t) + d"
    using sadd_loop_ok [OF assms(1), of xs 0 "0 :: size_t"] by auto
  have d: "d \<le> request_bytes xs" using u(3) elems_bound(2) [of xs] by simp
  then have "sum_list (map set_elem_bytes u) < 2 ^ 64" using u(4) assms(2,3) by (simp add: LRU_MAX_MEMORY_def)
  then have "unat (memory_usage (new_set u e)) = sum_list (map set_elem_bytes t) + d" using new_set_ok(2) [OF _ u(1)] u(4) by simp
  then show ?thesis unfolding oset_eqI [OF u(1,2), symmetric] using d by blast
qed

lemma string_size:
  assumes "args_ok args" "3 \<le> length args"
  shows "unat (memory_usage (new_string (args ! 2) e)) \<le> request_bytes (drop 2 args)"
proof -
  have "value_ok (new_string (args ! 2) e)" using assms by (intro new_string_ok(1) [of args 2 2]) simp_all
  then have "unat (memory_usage (new_string (args ! 2) e)) = 32 + calc_string_usage (args ! 2)"
    by (simp add: value_ok_def value_bytes_def new_string_def)
  moreover have "args ! 2 \<in> set (drop 2 args)" using nth_mem [of 0 "drop 2 args"] assms(2) by simp
  then have "2 * length (args ! 2) + 5000 \<le> request_bytes (drop 2 args)" by (rule request_bytes_mem)
  ultimately show ?thesis using copy_capacity_bound [of "args ! 2"] by (simp add: calc_string_usage_def)
qed

lemma list_old_size: "value_ok v \<Longrightarrow> as_list (data v) = Some l \<Longrightarrow> sum_list (map list_elem_bytes l) = unat (memory_usage v)"
  by (auto simp: value_ok_def value_bytes_def as_list_def split: value_data.splits)

lemma set_old_size:
  "value_ok v \<Longrightarrow> as_set (data v) = Some t \<Longrightarrow> oset t \<and> sum_list (map set_elem_bytes t) = unat (memory_usage v)"
  by (auto simp: value_ok_def value_bytes_def value_wf_def as_set_def split: value_data.splits)

lemma push_settles:
  assumes r: "roomy c args" and len: "2 \<le> length args"
  shows "settles c (request_bytes args) (push_spec ff (args ! 1) (drop 2 args) c) (push_effect ff args (map_of c))"
proof -
  let ?xs = "drop 2 args" and ?k = "args ! 1"
  let ?d = "sum_list (map list_elem_bytes ?xs)"
  have d: "?d \<le> request_bytes ?xs" by (rule elems_bound(1))
  have small: "request_bytes ?xs < 2 ^ 31" using roomyD(4) [OF r] request_bytes_drop [of 2 args] by simp
  note mem = push_grows [OF _ small]
  have old: "sum_list (map list_elem_bytes l) = unat (memory_usage v)" "sum_list (map list_elem_bytes l) \<le> LRU_MAX_MEMORY"
    if "map_of c ?k = Some v" "as_list (data v) = Some l" for v l
    using roomyD(6) [OF r that(1)] list_old_size [OF roomyD(5) [OF r that(1)] that(2)] by simp_all
  show ?thesis
    unfolding push_spec_def push_effect_def Let_def
  proof (rule settles_typed)
    show "settles c (request_bytes args) (write_spec ?k (new_list (push_all ff ?xs []) 0) c (integer_reply (to_int32 (length ?xs))) True)
        (Inr ((map_of c)(?k \<mapsto> new_list (push_all ff ?xs []) 0), True))" if "map_of c ?k = None"
      using settles_grow [OF r len d] mem [of "[]"] that by simp
  qed (use settles_grow [OF r len d] mem old in auto)
qed

lemma sum_remaining: "sum_list (map f (remaining ff n l)) \<le> sum_list (map f l)" for f :: "string \<Rightarrow> nat"
proof -
  have "sum_list (map f (take i l)) + sum_list (map f (drop i l)) = sum_list (map f l)" for i
    by (metis append_take_drop_id map_append sum_list_append)
  then show ?thesis by (metis le_add1 le_add2 remaining_def)
qed

lemma pop_settles:
  assumes r: "roomy c args"
  shows "settles c (request_bytes args) (pop_spec ff args c) (pop_effect ff args (map_of c))"
proof (cases "3 < length args")
  case False
  let ?k = "args ! 1" and ?n = "pop_count args"
  have upd: "settles c (request_bytes args)
      (Inr (cache_upd ?k (new_list (remaining ff i l) (expiry_time v)) (cache_touch ?k c), msg, True))
      (Inr ((map_of c)(?k \<mapsto> new_list (remaining ff i l) (expiry_time v)), True))"
    if v: "map_of c ?k = Some v" "as_list (data v) = Some l" for v l i msg
  proof (rule settles_upd(2) [OF roomyD(1) [OF r] v(1)])
    have old: "sum_list (map list_elem_bytes l) = unat (memory_usage v)"
      by (rule list_old_size [OF roomyD(5) [OF r v(1)] v(2)])
    then have "sum_list (map list_elem_bytes (remaining ff i l)) \<le> unat (memory_usage v)"
      using sum_remaining [of list_elem_bytes ff i l] by simp
    then show "unat (memory_usage (new_list (remaining ff i l) (expiry_time v))) \<le> unat (memory_usage v)"
      using new_list_ok(2) [of "remaining ff i l"] roomyD(6) [OF r v(1)] by (simp add: LRU_MAX_MEMORY_def)
  qed
  show ?thesis
    unfolding pop_spec_def pop_effect_def if_not_P [OF False]
  proof (rule settles_typed, goal_cases)
    case 1
    show ?case by (rule settles_same)
  next
    case (2 v l)
    show ?case
    proof (cases "?n < 0")
      case True
      then show ?thesis by (simp add: Let_def)
    next
      case False
      then show ?thesis using upd [OF 2, of "nat ?n"] by (simp add: Let_def del: settles_simps)
    qed
  qed
qed (simp add: pop_spec_def pop_effect_def)

lemma sadd_settles:
  assumes r: "roomy c args" and len: "2 \<le> length args"
  shows "settles c (request_bytes args) (sadd_spec (args ! 1) (drop 2 args) c) (sadd_effect args (map_of c))"
proof -
  let ?xs = "drop 2 args" and ?k = "args ! 1"
  have grow: "settles c (request_bytes args) (write_spec ?k (new_set (sorted_list_of_set (set t \<union> set ?xs)) e) c msg b)
      (Inr ((map_of c)(?k \<mapsto> new_set (sorted_list_of_set (set t \<union> set ?xs)) e), b))"
    if t: "oset t" "sum_list (map set_elem_bytes t) = (case map_of c ?k of None \<Rightarrow> 0 | Some v \<Rightarrow> unat (memory_usage v))"
    for t e msg b
  proof -
    have "request_bytes ?xs < 2 ^ 31" using roomyD(4) [OF r] request_bytes_drop [of 2 args] by simp
    moreover have "sum_list (map set_elem_bytes t) \<le> LRU_MAX_MEMORY"
      using t(2) roomyD(6) [OF r] by (auto split: option.splits)
    ultimately obtain d where d: "d \<le> request_bytes ?xs"
      "unat (memory_usage (new_set (sorted_list_of_set (set t \<union> set ?xs)) e)) = sum_list (map set_elem_bytes t) + d"
      using sadd_grows [OF t(1)] by blast
    then show ?thesis using settles_grow [OF r len d(1)] t(2) by simp
  qed
  have old: "oset t \<and> sum_list (map set_elem_bytes t) = unat (memory_usage v)"
    if "map_of c ?k = Some v" "as_set (data v) = Some t" for v t
    using set_old_size [OF roomyD(5) [OF r that(1)] that(2)] .
  show ?thesis
    unfolding sadd_spec_def sadd_effect_def Let_def
  proof (rule settles_typed, goal_cases)
    case 1
    then show ?case using grow [of "[]" 0] by (simp add: oset_def)
  next
    case (2 v t)
    then show ?case using grow [of t "expiry_time v"] old [OF 2] by simp
  qed
qed

lemma sdel_settles:
  assumes r: "roomy c args"
  shows "settles c (request_bytes args) (sdel_spec (args ! 1) (drop 2 args) c) (sdel_effect args (map_of c))"
proof -
  let ?xs = "drop 2 args" and ?k = "args ! 1"
  have upd: "settles c (request_bytes args)
      (Inr (cache_touch ?k (cache_upd ?k (new_set (sorted_list_of_set (set t - set ?xs)) (expiry_time v)) c), msg, b))
      (Inr ((map_of c)(?k \<mapsto> new_set (sorted_list_of_set (set t - set ?xs)) (expiry_time v)), b))"
    if v: "map_of c ?k = Some v" "as_set (data v) = Some t" for v t msg b
  proof (rule settles_upd(1) [OF roomyD(1) [OF r] v(1)])
    have old: "oset t" "sum_list (map set_elem_bytes t) = unat (memory_usage v)"
      using set_old_size [OF roomyD(5) [OF r v(1)] v(2)] by simp_all
    obtain u d where u: "oset u" "set u = set t - set ?xs" "sum_list (map set_elem_bytes t) = sum_list (map set_elem_bytes u) + d"
      using sdel_loop_ok [OF old(1), of ?xs 0 0] by auto
    then show "unat (memory_usage (new_set (sorted_list_of_set (set t - set ?xs)) (expiry_time v))) \<le> unat (memory_usage v)"
      using new_set_ok(2) [OF _ u(1)] old(2) roomyD(6) [OF r v(1)] unfolding oset_eqI [OF u(1,2), symmetric]
      by (simp add: LRU_MAX_MEMORY_def)
  qed
  show ?thesis
    unfolding sdel_spec_def sdel_effect_def Let_def by (rule settles_typed) (simp, rule upd)
qed

lemma hdel_settles:
  assumes r: "roomy c args" and len: "3 \<le> length args"
  shows "settles c (request_bytes args) (hdel_spec args c) (hdel_effect args (map_of c))"
proof -
  have del: "settles c (request_bytes args)
      (rbind (del_loop del_hash (drop 2 args) h) (\<lambda>(h', n). Inr (cache_touch (args ! 1) (cache_upd (args ! 1) (new_hash h' (expiry_time v)) c),
        integer_reply (int n), n > 0)))
      (rbind (del_loop del_hash (drop 2 args) h) (\<lambda>(h', n). Inr ((map_of c)(args ! 1 \<mapsto> new_hash h' (expiry_time v)), n > 0)))"
    if v: "map_of c (args ! 1) = Some v" "as_hash (data v) = Some h" for v h
  proof (cases "del_loop del_hash (drop 2 args) h")
    case (Inr q)
    obtain h' n where q: "q = (h', n)" by (cases q)
    have h: "data v = DHash h" using v(2) by (auto simp: as_hash_def split: value_data.splits)
    have "hmemory_usage h' \<le> hmemory_usage h"
      using lasting.hash_del [OF roomyD(7,8) [OF r v(1)] h] Inr q by blast
    then have "unat (memory_usage (new_hash h' (expiry_time v))) \<le> unat (memory_usage v)"
      using hash_value_mem [OF roomyD(5) [OF r v(1)] h] by (simp add: new_hash_def word_le_nat_alt)
    then show ?thesis using settles_upd(1) [OF roomyD(1) [OF r] v(1)] Inr q by (simp del: settles_simps)
  qed simp
  have len': "\<not> length args < 3" using len by simp
  show ?thesis
    unfolding hdel_spec_def hdel_effect_def if_not_P [OF len']
    by (rule settles_typed) (rule settles_same, rule del)
qed

text \<open>Writing fields into a hash that is there already, the fields costing at most their request.\<close>

lemma put_settles:
  assumes c: "distinct (map fst c)" "cache_bytes c + request_bytes xs \<le> LRU_MAX_MEMORY"
    and v: "map_of c k = Some v" "memory_usage v = hmemory_usage h" "hash_wf h" "unat (memory_usage v) \<le> LRU_MAX_MEMORY"
  shows "settles c (request_bytes xs)
    (rbind (put_loop set_hash (pairs_of xs) h) (\<lambda>(h', n). write_spec k (new_hash h' e) c (integer_reply (int n)) (n > 0)))
    (rbind (put_loop set_hash (pairs_of xs) h) (\<lambda>(h', n). Inr ((map_of c)(k \<mapsto> new_hash h' e), n > 0)))"
proof (cases "put_loop set_hash (pairs_of xs) h")
  case (Inr q)
  obtain h' n where q: "q = (h', n)" by (cases q)
  have "unat (hmemory_usage h') \<le> unat (hmemory_usage h) + request_bytes xs"
    using put_loop_bytes(2) [OF v(3), of xs h' n] Inr q v(2,4) c(2) by (simp add: LRU_MAX_MEMORY_def)
  then have "settles c (request_bytes xs) (write_spec k (new_hash h' e) c msg b) (Inr ((map_of c)(k \<mapsto> new_hash h' e), b))" for msg b
    using v(1,2) by (intro settles_write [OF c]) (simp_all add: new_hash_def)
  then show ?thesis using Inr q by (simp del: settles_simps)
qed simp

lemma settles_weaken: "settles c' i spec eff \<Longrightarrow> cache_bytes c' + i \<le> cache_bytes c + n \<Longrightarrow> settles c n spec eff"
  by (cases eff) (auto simp: settles_def split: prod.splits)

lemma hset_settles:
  assumes r: "roomy c args" and len: "4 \<le> length args"
  shows "settles c (request_bytes args) (hset_spec args c) (hset_effect args (map_of c))"
proof (cases "odd (length args)")
  case True
  then show ?thesis by (simp add: hset_spec_def hset_effect_def Let_def)
next
  case False
  let ?k = "args ! 1" and ?xs = "drop 2 args"
  let ?b = "request_bytes args"
  have fits: "cache_bytes c + ?b \<le> LRU_MAX_MEMORY" by (rule roomyD(2) [OF r])
  have tail: "request_bytes ?xs + 5000 + 2 * length ?k \<le> ?b" using len by (intro request_bytes_tail) simp
  have len': "\<not> (length args < 4 \<or> odd (length args))" using False len by simp
  show ?thesis
    unfolding hset_spec_def hset_effect_def Let_def if_not_P [OF len'] if_not_P [OF False]
  proof (rule settles_typed, goal_cases)
    case 1
    let ?c1 = "c @ [(?k, new_empty HASH)]"
    have notin: "?k \<notin> fst ` set c" using 1 by (simp add: map_of_eq_None_iff)
    have e0: "entry_size (?k, new_empty HASH) \<le> 4000 + 2 * length ?k"
      using new_entry_size [of ?k "new_empty HASH"] by (simp add: new_empty_def)
    have b1: "cache_bytes ?c1 + request_bytes ?xs \<le> cache_bytes c + ?b" using e0 tail by simp
    have ev: "evict_spec ?c1 = ?c1" using b1 fits by (intro evict_spec_id) simp
    have d1: "distinct (map fst ?c1)" using roomyD(1) [OF r] notin by simp
    have m1: "map_of ?c1 ?k = Some (new_empty HASH)" "(map_of ?c1)(?k \<mapsto> w) = (map_of c)(?k \<mapsto> w)" for w
      using 1 by (auto simp: map_add_def fun_eq_iff split: option.split)
    have "settles ?c1 (request_bytes ?xs)
      (rbind (put_loop set_hash (pairs_of ?xs) (new_hash_vec [] 0)) (\<lambda>(h', n). write_spec ?k (new_hash h' 0) ?c1 (integer_reply (int n)) (n > 0)))
      (rbind (put_loop set_hash (pairs_of ?xs) (new_hash_vec [] 0)) (\<lambda>(h', n). Inr ((map_of ?c1)(?k \<mapsto> new_hash h' 0), n > 0)))"
      using b1 fits by (intro put_settles [OF d1 _ m1(1)]) (simp_all add: new_empty_def new_hash_vec_def hash_wf_def entries_def)
    from settles_weaken [OF this b1] show ?case unfolding ev m1(2) by (simp del: settles_simps)
  next
    case (2 v h)
    have h: "data v = DHash h" using 2(2) by (auto simp: as_hash_def split: value_data.splits)
    note ok = roomyD(5,6) [OF r 2(1)]
    show ?case
      by (rule settles_weaken [OF put_settles [OF roomyD(1) [OF r] _ 2(1) hash_value_mem [OF ok(1) h] value_ok_hash [OF ok(1) h] ok(2)]])
         (use tail fits in simp_all)
  qed
qed

lemma del_settles:
  assumes r: "roomy c args"
  shows "settles c (request_bytes args) (del_spec (drop 1 args) c)
    (Inr (map_of c |` (- set (drop 1 args)), list_ex (\<lambda>k. map_of c k \<noteq> None) (drop 1 args)))"
proof -
  let ?ks = "set (drop 1 args)"
  have "map_of (filter (\<lambda>e. fst e \<notin> ?ks) c) = map_of c |` (- ?ks)"
    by (induction c) (auto simp: restrict_map_def fun_eq_iff)
  moreover have "cache_bytes (filter P c) \<le> cache_bytes c" for P by (induction c) auto
  then have "cache_bytes (filter P c) \<le> cache_bytes c + n" for P n by (rule trans_le_add1)
  moreover have "card (?ks \<inter> fst ` set c) > 0 \<longleftrightarrow> list_ex (\<lambda>k. map_of c k \<noteq> None) (drop 1 args)"
    by (auto simp: card_gt_0_iff list_ex_iff map_of_eq_None_iff)
  ultimately show ?thesis by (simp add: del_spec_def Let_def)
qed

lemma set_settles:
  assumes r: "roomy c args" and len: "length args = 3"
  shows "settles c (request_bytes args) (set_command_spec args s c) (Inr ((map_of c)(args ! 1 \<mapsto> new_string (args ! 2) 0), True))"
proof -
  let ?w = "new_string (args ! 2) 0"
  have ok: "args_ok args" using roomyD(3) [OF r] by (simp add: plain_request_def modest_def)
  have mem: "unat (memory_usage ?w) \<le> request_bytes (drop 2 args)" using ok len by (intro string_size) simp_all
  have "set_command_spec args s c = write_spec (args ! 1) ?w c (''+OK'' @ crlf) True"
    using len by (simp add: set_command_spec_def)
  then show ?thesis using settles_grow [OF r _ le_refl, of ?w] mem len by (simp add: trans_le_add2)
qed

lemma reads_settle:
  assumes r: "roomy c args"
  shows "settles c n (get_spec now k c) (Inr (map_of c, False))" "settles c n (lrange_spec args c) (Inr (map_of c, False))"
    "settles c n (llen_spec args c) (Inr (map_of c, False))" "settles c n (hget_spec args c) (Inr (map_of c, False))"
    "settles c n (hgetall_spec args c) (Inr (map_of c, False))" "settles c n (hlen_spec args c) (Inr (map_of c, False))"
    "settles c n (scard_spec args c) (Inr (map_of c, False))" "settles c n (sismember_spec args c) (Inr (map_of c, False))"
    "settles c n (smembers_spec args c) (Inr (map_of c, False))" "settles c n (smismember_spec args c) (Inr (map_of c, False))"
    "settles c n (sinter_spec args c) (Inr (map_of c, False))" "settles c n (sunion_spec args c) (Inr (map_of c, False))"
    "settles c n (sdiff_spec args c) (Inr (map_of c, False))"
proof -
  note t = settles_touch [OF roomyD(1) [OF r]]
  have live: "\<not> expired v now" if "map_of c k = Some v" for k v now
    using roomyD(7) [OF r that] by (simp add: expired_def timeless_def)
  have small: "unat (1024 + memory_usage v) < 4611686018427387904" if "map_of c (args ! Suc 0) = Some v" for v
    using roomyD(6) [OF r that] by (simp add: LRU_MAX_MEMORY_def unat_word_ariths)
  have hmem: "memory_usage v = hmemory_usage h" if "map_of c k = Some v" "as_hash (data v) = Some h" for k v h
    using hash_value_mem [OF roomyD(5) [OF r that(1)]] that(2) by (auto simp: as_hash_def split: value_data.splits)
  show "settles c n (get_spec now k c) (Inr (map_of c, False))" "settles c n (lrange_spec args c) (Inr (map_of c, False))"
    "settles c n (llen_spec args c) (Inr (map_of c, False))" "settles c n (hget_spec args c) (Inr (map_of c, False))"
    "settles c n (hlen_spec args c) (Inr (map_of c, False))" "settles c n (scard_spec args c) (Inr (map_of c, False))"
    "settles c n (sismember_spec args c) (Inr (map_of c, False))" "settles c n (smismember_spec args c) (Inr (map_of c, False))"
    unfolding get_spec_def lrange_spec_def llen_spec_def hget_spec_def hlen_spec_def scard_spec_def sismember_spec_def smismember_spec_def
    by (auto intro!: settles_read settles_same t simp: live simp del: settles_simps split: option.split)
  show "settles c n (hgetall_spec args c) (Inr (map_of c, False))" "settles c n (smembers_spec args c) (Inr (map_of c, False))"
    unfolding hgetall_spec_def smembers_spec_def
    by (auto intro!: settles_read settles_same t simp: small hmem [symmetric] simp del: settles_simps)
  show "settles c n (sinter_spec args c) (Inr (map_of c, False))" "settles c n (sunion_spec args c) (Inr (map_of c, False))"
    "settles c n (sdiff_spec args c) (Inr (map_of c, False))"
    by (auto simp: sinter_spec_def sunion_spec_def sdiff_spec_def simp del: settles_simps intro!: settles_same split: option.split)
qed

lemma effect_read: "toupper (args ! 0) \<notin> set aof_commands \<Longrightarrow> effect args m = Inr (m, False)"
  by (simp add: effect_def aof_commands_def Let_def)

lemma settles_if: "(b \<Longrightarrow> settles c n x eff) \<Longrightarrow> settles c n y eff \<Longrightarrow> settles c n (if b then x else y) eff"
  by simp

lemma request_settles:
  assumes r: "roomy c args"
  shows "settles c (request_bytes args) (request_spec args s c) (effect args (map_of c))"
proof (cases "toupper (args ! 0) \<in> set aof_commands")
  case False
  note no = False [unfolded aof_commands_def, simplified]
  show ?thesis
    unfolding effect_read [OF False] request_spec_def exec_spec_def
    by (intro settles_if settles_same reads_settle [OF r]) (use no in simp_all)
next
  case True
  have set3: "toupper (args ! 0) = ''SET'' \<Longrightarrow> length args = 3" using roomyD(3) [OF r] by (simp add: plain_request_def)
  have two: "3 \<le> length args \<Longrightarrow> 2 \<le> length args" by simp
  note each = set_settles [OF r] push_settles [OF r two] pop_settles [OF r] del_settles [OF r, simplified] hset_settles [OF r]
    hdel_settles [OF r] sadd_settles [OF r two] sdel_settles [OF r]
  from True have "\<exists>cmd\<in>set aof_commands. toupper (args ! 0) = cmd" by blast
  then show ?thesis
    unfolding request_spec_def exec_spec_def effect_def Let_def aof_commands_def set_simps bex_simps
    by (elim disjE) (use set3 in \<open>simp_all add: each [unfolded One_nat_def] del: settles_simps\<close>)
qed

section \<open>Runs\<close>

fun effects :: "string list list \<Rightarrow> (string \<rightharpoonup> DrutaValue) \<Rightarrow> (string \<rightharpoonup> DrutaValue) res" where
  "effects [] m = Inr m"
| "effects (args # cmds) m = rbind (effect args m) (\<lambda>(m', ok). effects cmds m')"

text \<open>Contents without expiry times, and no client in subscriber mode.\<close>

definition at_rest :: "('z) server_scheme \<Rightarrow> cache \<Rightarrow> bool" where
  "at_rest s c = (db_inv s c \<and> values_all timeless c \<and> (\<forall>fd. \<not> is_subscriber (client_of fd s)))"

lemma at_rest_core: "core s' = core s \<Longrightarrow> at_rest s' c = at_rest s c"
  using core_eqD [of s' s] by (simp add: at_rest_def client_of_def)

lemma timeless_restorable: "values_all timeless c \<Longrightarrow> \<forall>e\<in>set c. restorable e"
  by (fastforce simp: values_all_def timeless_def regular_def restorable_def split: value_data.splits)

lemma timeless_regular: "values_all timeless c \<Longrightarrow> values_all regular c"
  by (auto simp: values_all_def timeless_def)

lemma request_effect:
  fixes s :: "('z) server_scheme"
  assumes rest: "at_rest s c" and args: "plain_request args" and room: "cache_bytes c + request_bytes args \<le> LRU_MAX_MEMORY"
  shows "case effect args (map_of c) of Inl e \<Rightarrow> handle_command fd args s = Inl e
    | Inr (m, ok) \<Rightarrow> \<exists>s1 c1. handle_command fd args s = logged fd args (s1, ok) \<and> at_rest s1 c1 \<and> map_of c1 = m \<and>
        cache_bytes c1 \<le> cache_bytes c + request_bytes args \<and> io_state.more s1 = io_state.more (upd_client fd id s)"
proof -
  let ?s = "upd_client fd id s"
  have inv: "db_inv s c" "values_all timeless c" "\<not> is_subscriber (client_of fd s)" using rest by (simp_all add: at_rest_def)
  have plain: "args_ok args" "toupper (args ! 0) \<notin> server_names" using args by (simp_all add: plain_request_def modest_def)
  obtain r where r: "meets db_inv ?s r fd (request_spec args ?s c)" "handle_command fd args s = rbind r (logged fd args)"
    using handle_command_meets [OF inv(1) plain(1) inv(3) plain(2) lasting.accounting [OF inv(1,2) args]] by blast
  have "roomy c args" using db_inv_storable [OF inv(1)] inv(2) args room by (simp add: roomy_def)
  note st = request_settles [OF this, of ?s]
  show ?thesis
  proof (cases "effect args (map_of c)")
    case (Inl e)
    then show ?thesis using st r by simp
  next
    case (Inr q)
    obtain m ok where q: "q = (m, ok)" by (cases q)
    then obtain c1 msg where c1: "request_spec args ?s c = Inr (c1, msg, ok)" "map_of c1 = m"
      "cache_bytes c1 \<le> cache_bytes c + request_bytes args" using st Inr by (auto simp: settles_def)
    obtain s1 where s1: "r = Inr (s1, ok)" "db_inv s1 c1" "io_state.more s1 = io_state.more ?s"
      using r(1) c1(1) by (auto elim!: yieldsE)
    have "values_all timeless c1" using lasting.request_leaves [OF inv(1,2) args, of ?s] c1(1) by simp
    moreover have "\<forall>fd. \<not> is_subscriber (client_of fd s1)"
      using rest more_frame(1) [OF s1(3)] by (auto simp: at_rest_def client_of_def upd_client_def)
    ultimately have "at_rest s1 c1" using s1(2) by (simp add: at_rest_def)
    then show ?thesis using Inr q r(2) s1 c1(2,3) by auto
  qed
qed

text \<open>Appending to the log and rewriting it always return on such contents.\<close>

lemma request_text_size: "sum_list (map (\<lambda>a. length a + 16) args) \<le> request_bytes args"
  by (induction args) auto

lemma logged_returns:
  assumes c: "db_inv s c" "values_all regular c" and small: "request_bytes args \<le> LRU_MAX_MEMORY"
  shows "\<exists>s'. logged fd args (s, ok) = Inr s' \<and> core s' = core s"
proof -
  have "sum_list (map (\<lambda>a. length a + 16) args) + 80 < 2 ^ 31"
    using request_text_size [of args] small by (simp add: LRU_MAX_MEMORY_def)
  from format_command_ok [OF this] have "\<exists>u. append_to_aof args s = Inr u" by (simp add: append_to_aof_def)
  then obtain u where u: "append_to_aof args s = Inr u" by blast
  have check: "\<exists>t. check_and_rewrite_aof u = Inr t"
  proof (cases "check_and_rewrite_aof u")
    case (Inl e)
    then obtain t where t: "rewrite_aof t = Inl e" "core t = core u"
      by (auto simp: check_and_rewrite_aof_def steady_now_def fs_try_def Let_def split: if_splits option.splits)
    have "db_inv t c" using core_eqD(2) [of t s c] t(2) append_core [OF u] c(1) by simp
    then show ?thesis using rewrite_aof_ok [of t c] c(2) t(1) by auto
  qed simp
  then show ?thesis using u append_core [OF u] check_core [of u] by (auto simp: logged_def)
qed

lemma handle_effect:
  fixes s :: "('z) server_scheme"
  assumes rest: "at_rest s c" and args: "plain_request args" and room: "cache_bytes c + request_bytes args \<le> LRU_MAX_MEMORY"
  shows "case effect args (map_of c) of Inl e \<Rightarrow> handle_command fd args s = Inl e
    | Inr (m, ok) \<Rightarrow> \<exists>s' c'. handle_command fd args s = Inr s' \<and> at_rest s' c' \<and> map_of c' = m \<and>
        cache_bytes c' \<le> cache_bytes c + request_bytes args"
proof (cases "effect args (map_of c)")
  case (Inl e)
  then show ?thesis using request_effect [OF assms, of fd] by simp
next
  case (Inr q)
  obtain m ok where q: "q = (m, ok)" by (cases q)
  then obtain s1 c1 where s1: "handle_command fd args s = logged fd args (s1, ok)" "at_rest s1 c1" "map_of c1 = m"
    "cache_bytes c1 \<le> cache_bytes c + request_bytes args" using request_effect [OF assms, of fd] Inr by auto
  obtain s' where "logged fd args (s1, ok) = Inr s'" "core s' = core s1" 
    using logged_returns [of s1 c1 args fd ok] timeless_regular [of c1] s1(2) room by (auto simp: at_rest_def)
  then show ?thesis using Inr q s1 at_rest_core [of s' s1 c1] by auto
qed

definition requests_bytes :: "(int \<times> string list) list \<Rightarrow> nat" where
  "requests_bytes rs = sum_list (map (\<lambda>r. request_bytes (snd r)) rs)"

lemma requests_bytes_simps [simp]:
  "requests_bytes [] = 0" "requests_bytes (r # rs) = request_bytes (snd r) + requests_bytes rs"
  by (simp_all add: requests_bytes_def)

lemma serve_effects:
  fixes s :: "('z) server_scheme"
  assumes "at_rest s c" "\<forall>(fd, args)\<in>set rs. plain_request args" "cache_bytes c + requests_bytes rs \<le> LRU_MAX_MEMORY"
  shows "case effects (map snd rs) (map_of c) of Inl e \<Rightarrow> serve_requests rs s = Inl e
    | Inr m \<Rightarrow> \<exists>s' c'. serve_requests rs s = Inr s' \<and> at_rest s' c' \<and> map_of c' = m"
  using assms
proof (induction rs arbitrary: s c)
  case (Cons r rs)
  obtain fd args where r: "r = (fd, args)" by (cases r)
  have "cache_bytes c + request_bytes args \<le> LRU_MAX_MEMORY" using Cons.prems(3) r by simp
  note h = handle_effect [OF Cons.prems(1) _ this, of fd]
  show ?case
  proof (cases "effect args (map_of c)")
    case (Inl e)
    then show ?thesis using h Cons.prems(2) r by simp
  next
    case (Inr q)
    obtain m ok where q: "q = (m, ok)" by (cases q)
    then obtain s1 c1 where s1: "handle_command fd args s = Inr s1" "at_rest s1 c1" "map_of c1 = m"
      "cache_bytes c1 \<le> cache_bytes c + request_bytes args" using h Cons.prems(2) r Inr by auto
    have "cache_bytes c1 + requests_bytes rs \<le> LRU_MAX_MEMORY" using s1(4) Cons.prems(3) r by simp
    from Cons.IH [OF s1(2) _ this] show ?thesis using Cons.prems(2) s1(1,3) Inr q unfolding r by (simp split: sum.splits)
  qed
qed auto

lemma at_rest_empty: "at_rest (empty_server fso) []"
  using db_inv_empty_server [of fso] empty_server_client by (simp add: at_rest_def)

section \<open>Properties\<close>

text \<open>
  \<^bold>\<open>C9\<close>. As long as the requests fit in memory together, the server is a map: along any
  sequence of plain requests (any store command with any arguments, SET without expiry, strings of hashes
  of at most 15 bytes) of any clients, the keys and values stored at the end are those of the map with the
  commands applied to it one after the other, whatever the clocks, the log and its rewrites do; and a
  request faults exactly if its command on the map does.
\<close>

theorem map_semantics:
  assumes "at_rest s c" "\<forall>(fd, args)\<in>set requests. plain_request args"
    "cache_bytes c + requests_bytes requests \<le> LRU_MAX_MEMORY"
  shows "case effects (map snd requests) (map_of c) of
      Inl e \<Rightarrow> serve_requests requests s = Inl e
    | Inr m \<Rightarrow> \<exists>s' c'. serve_requests requests s = Inr s' \<and> db_inv s' c' \<and> map_of c' = m"
  using serve_effects [OF assms] by (auto simp: at_rest_def split: sum.splits)

lemma upper_sample: "toupper ''LPOP'' = ''LPOP''" "toupper ''DEL'' = ''DEL''" by code_simp+

lemma plain_sample:
  "plain_request [''SET'', ''a'', ''1'']" "plain_request [''RPUSH'', ''l'', ''x'', ''y'']" "plain_request [''LPOP'', ''l'']"
  "plain_request [''DEL'', ''a'']"
  by (simp_all add: plain_request_def modest_def args_ok_def server_names_def upper_sample)

theorem map_semantics_witness:
  "\<exists>s' c'. serve_requests [(5, [''SET'', ''a'', ''1'']), (6, [''RPUSH'', ''l'', ''x'', ''y'']), (5, [''LPOP'', ''l'']), (6, [''DEL'', ''a''])]
       (empty_server (\<lambda>_. True)) = Inr s' \<and> db_inv s' c' \<and> map_of c' = [''l'' \<mapsto> new_list [''y''] 0]"
proof -
  let ?rs = "[(5, [''SET'', ''a'', ''1'']), (6, [''RPUSH'', ''l'', ''x'', ''y'']), (5, [''LPOP'', ''l'']), (6, [''DEL'', ''a''])]"
  have pop: "pop_count [''LPOP'', ''l''] = 1" by (simp add: pop_count_def)
  have eff: "effects (map snd ?rs) (map_of []) = Inr [''l'' \<mapsto> new_list [''y''] 0]"
    by (simp add: effect_def push_effect_def pop_effect_def typed_effect_def push_all_def new_list_def new_string_def
        as_list_def pop remaining_def restrict_map_def fun_eq_iff upper_sample)
  have "\<forall>(fd, args)\<in>set ?rs. plain_request args" "cache_bytes [] + requests_bytes ?rs \<le> LRU_MAX_MEMORY"
    by (simp_all add: plain_sample LRU_MAX_MEMORY_def)
  from map_semantics [OF at_rest_empty this, of "\<lambda>_. True"] show ?thesis unfolding eff sum.case .
qed

end
