(* ===== verification/Streams.thy ===== *)
theory Streams
  imports Workload
begin

text \<open>
  Many clients at once. The event loop interleaves pieces of the byte streams of its clients; \<open>scan\<close>
  is the parser alone, with a handler that only records the requests. A run of events is a run of whole
  requests in the order in which their last bytes arrive (\<open>plan\<close>), and the requests of a client are
  those in its own bytes, however they are cut and whatever the others send.
\<close>

section \<open>The parser alone\<close>

definition record_request :: "string list \<Rightarrow> string list list \<Rightarrow> string list list res" where
  "record_request args cmds = Inr (cmds @ [args])"

definition scan :: "string \<Rightarrow> RespParser \<Rightarrow> (RespParser \<times> string list list) res" where
  "scan buf p = parse_and_execute record_request buf (p, [])"

lemma run_record [simp]: "run_commands record_request cmds acc = Inr (acc @ cmds)"
  by (induction cmds arbitrary: acc) (simp_all add: record_request_def)

lemma parse_char_eq:
  "parse_char h c (p, s) = rbind (parse_char record_request c (p, [])) (\<lambda>(p', cmds).
     rbind (run_commands h cmds s) (\<lambda>s'. Inr (p', s')))"
  by (cases "pstate p")
     (auto simp: parse_char_def record_request_def Let_def rbind_assoc split: option.split)

lemma record_shift:
  "parse_and_execute record_request buf (p, acc) = rbind (scan buf p) (\<lambda>(p', cmds). Inr (p', acc @ cmds))"
proof (induction buf arbitrary: p acc)
  case (Cons c buf)
  show ?case
  proof (cases "parse_char record_request c (p, [])")
    case (Inl e)
    then show ?thesis using parse_char_eq [of record_request c p acc] by (simp add: scan_def)
  next
    case (Inr q)
    obtain p1 c1 where q: "q = (p1, c1)" by (cases q)
    then have "parse_char record_request c (p, acc) = Inr (p1, acc @ c1)"
      using parse_char_eq [of record_request c p acc] Inr by simp
    then show ?thesis using Cons.IH [of p1 "acc @ c1"] Cons.IH [of p1 c1] Inr q
      by (cases "scan buf p1") (auto simp: scan_def)
  qed
qed (simp add: scan_def)

lemma scan_Cons:
  "scan (c # buf) p = rbind (parse_char record_request c (p, [])) (\<lambda>(p1, c1).
     rbind (scan buf p1) (\<lambda>(p2, c2). Inr (p2, c1 @ c2)))"
proof (cases "parse_char record_request c (p, [])")
  case (Inr q)
  obtain p1 c1 where "q = (p1, c1)" by (cases q)
  then show ?thesis using Inr record_shift [of buf p1 c1] by (simp add: scan_def [of "c # buf"])
qed (simp add: scan_def [of "c # buf"])

lemma scan_append:
  "scan (xs @ ys) p = rbind (scan xs p) (\<lambda>(p1, c1). rbind (scan ys p1) (\<lambda>(p2, c2). Inr (p2, c1 @ c2)))"
proof (cases "scan xs p")
  case (Inr q)
  obtain p1 c1 where "q = (p1, c1)" by (cases q)
  then show ?thesis
    using Inr record_shift [of ys p1 c1] by (simp add: scan_def [of "xs @ ys"] scan_def [of xs] parse_append)
qed (simp add: scan_def [of "xs @ ys"] scan_def [of xs] parse_append)

lemma run_append: "run_commands h (xs @ ys) s = rbind (run_commands h xs s) (run_commands h ys)"
proof (induction xs arbitrary: s)
  case (Cons x xs)
  then show ?case by (cases "h x s") simp_all
qed simp

lemma scan_run:
  assumes "scan buf p = Inr (p', cmds)"
  shows "parse_and_execute h buf (p, s) = rbind (run_commands h cmds s) (\<lambda>s'. Inr (p', s'))"
  using assms
proof (induction buf arbitrary: p s cmds)
  case Nil
  then show ?case by (simp add: scan_def)
next
  case (Cons c buf)
  obtain p1 c1 c2 where s: "parse_char record_request c (p, []) = Inr (p1, c1)" "scan buf p1 = Inr (p', c2)" "cmds = c1 @ c2"
    using Cons.prems by (auto simp: scan_Cons)
  show ?case using Cons.IH [OF s(2)] s(1,3)
    by (cases "run_commands h c1 s") (simp_all add: parse_char_eq [of h c p s] run_append)
qed

section \<open>Runs of whole requests\<close>

datatype action = Connect int | Request int "string list" | Park int RespParser | Disconnect int

fun act :: "action \<Rightarrow> ('z) server_scheme \<Rightarrow> ('z) server_scheme res" where
  "act (Connect fd) s = Inr (upd_client fd (\<lambda>_. new_client) s)"
| "act (Request fd args) s = handle_command fd args s"
| "act (Park fd p) s = Inr (upd_client fd (\<lambda>c. c\<lparr>parser := p\<rparr>) s)"
| "act (Disconnect fd) s = Inr (drop_client fd s)"

fun perform :: "action list \<Rightarrow> ('z) server_scheme \<Rightarrow> ('z) server_scheme res" where
  "perform [] s = Inr s"
| "perform (a # as) s = rbind (act a s) (perform as)"

text \<open>The actions of a run of events, from the parsers of the connections; an array size that is no number
  ends it.\<close>

fun plan :: "event list \<Rightarrow> (int \<rightharpoonup> RespParser) \<Rightarrow> action list res" where
  "plan [] m = Inr []"
| "plan (Accept fd # es) m = rbind (plan es (m(fd \<mapsto> init_parser))) (\<lambda>as. Inr (Connect fd # as))"
| "plan (Receive fd buf # es) m = (case m fd of
     None \<Rightarrow> Inl Out_of_bounds
   | Some p \<Rightarrow> rbind (scan buf p) (\<lambda>(p', cmds).
       rbind (plan es (m(fd \<mapsto> p'))) (\<lambda>as. Inr (map (Request fd) cmds @ Park fd p' # as))))"
| "plan (Hangup fd # es) m = rbind (plan es (m(fd := None))) (\<lambda>as. Inr (Disconnect fd # as))"

fun deliverable :: "event list \<Rightarrow> int set \<Rightarrow> bool" where
  "deliverable [] D = True"
| "deliverable (Accept fd # es) D = (0 \<le> fd \<and> fd \<notin> D \<and> deliverable es (insert fd D))"
| "deliverable (Receive fd buf # es) D = (fd \<in> D \<and> buf \<noteq> [] \<and> length buf \<le> 16384 \<and> deliverable es D)"
| "deliverable (Hangup fd # es) D = (fd \<in> D \<and> deliverable es (D - {fd}))"

definition requests_of :: "int \<Rightarrow> action list \<Rightarrow> string list list" where
  "requests_of fd as = concat (map (\<lambda>a. case a of Request f args \<Rightarrow> if f = fd then [args] else [] | _ \<Rightarrow> []) as)"

definition bytes_of :: "int \<Rightarrow> event list \<Rightarrow> string" where
  "bytes_of fd es = concat (map (\<lambda>e. case e of Receive f buf \<Rightarrow> if f = fd then buf else [] | _ \<Rightarrow> []) es)"

definition stays :: "int \<Rightarrow> event list \<Rightarrow> bool" where
  "stays fd es = (Accept fd \<notin> set es \<and> Hangup fd \<notin> set es)"

lemma perform_append: "perform (as @ bs) s = rbind (perform as s) (perform bs)"
proof (induction as arbitrary: s)
  case (Cons a as)
  then show ?case by (cases "act a s") simp_all
qed simp

lemma perform_requests: "perform (map (Request fd) cmds) s = run_commands (handle_command fd) cmds s"
proof (induction cmds arbitrary: s)
  case (Cons c cmds)
  then show ?case by (cases "handle_command fd c s") simp_all
qed simp

lemma touch_known: "clients_map s fd \<noteq> None \<Longrightarrow> upd_client fd id s = s"
  by (cases s) (auto simp: upd_client_def client_of_def fun_upd_idem)

text \<open>One receive is the requests that its bytes complete.\<close>

lemma receive_plan:
  assumes "clients_map s fd \<noteq> None" "scan buf (parser (client_of fd s)) = Inr (p', cmds)"
  shows "handle_event (Receive fd buf) s = perform (map (Request fd) cmds @ [Park fd p']) s"
  using touch_known [OF assms(1)] scan_run [OF assms(2), of "handle_command fd" s]
  by (cases "run_commands (handle_command fd) cmds s") (simp_all add: Let_def perform_append perform_requests)

lemma plan_sound:
  assumes "server_safe s" "deliverable es (dom (sessions s))" "plan es (sessions s) = Inr as"
  shows "handle_events es s = perform as s"
  using assms
proof (induction es arbitrary: s as)
  case (Cons e es)
  have en: "enabled e s" using Cons.prems(2) by (cases e) (auto simp: enabled_def dom_sessions)
  note safe = handle_event_safe [OF Cons.prems(1) en]
  have go: "handle_events (e # es) s = perform (bs @ as') s"
    if "handle_event e s = perform bs s" and "\<And>s1. handle_event e s = Inr s1 \<Longrightarrow>
      deliverable es (dom (sessions s1)) \<and> plan es (sessions s1) = Inr as'" for bs as'
  proof (cases "handle_event e s")
    case (Inl f)
    then show ?thesis using that(1) by (simp add: perform_append)
  next
    case (Inr s1)
    then have "server_safe s1" using safe by simp
    moreover have "perform bs s = Inr s1" using that(1) Inr by simp
    ultimately show ?thesis using Cons.IH [of s1 as'] that(2) [OF Inr] Inr by (simp add: perform_append)
  qed
  show ?case
  proof (cases e)
    case (Accept fd)
    then obtain as' where as': "plan es ((sessions s)(fd \<mapsto> init_parser)) = Inr as'" "as = [Connect fd] @ as'"
      using Cons.prems(3) by auto
    show ?thesis unfolding as'(2)
      using Accept Cons.prems(2) as'(1) accept_sessions [OF Cons.prems(1), of fd] by (intro go) auto
  next
    case (Receive fd buf)
    then obtain p where p: "sessions s fd = Some p" using Cons.prems(2) by auto
    obtain p' cmds as' where as': "scan buf p = Inr (p', cmds)" "plan es ((sessions s)(fd \<mapsto> p')) = Inr as'"
      "as = (map (Request fd) cmds @ [Park fd p']) @ as'" using Cons.prems(3) Receive p by auto
    have cl: "clients_map s fd \<noteq> None" "parser (client_of fd s) = p"
      using p sessions_same [OF p] by (auto simp: sessions_def)
    show ?thesis unfolding as'(3)
    proof (rule go)
      show "handle_event e s = perform (map (Request fd) cmds @ [Park fd p']) s"
        unfolding Receive by (rule receive_plan) (use cl as'(1) in simp_all)
    next
      fix s1 assume "handle_event e s = Inr s1"
      then obtain q t where q: "parse_and_execute (handle_command fd) buf (p, upd_client fd id s) = Inr (q, t)"
        "sessions s1 = (sessions s)(fd \<mapsto> q)"
        using receive_sessions [OF Cons.prems(1), of fd buf s1] Receive cl(2) by blast
      then have "q = p'" using scan_run [OF as'(1), of "handle_command fd" "upd_client fd id s"] by auto
      then show "deliverable es (dom (sessions s1)) \<and> plan es (sessions s1) = Inr as'"
        using q(2) as'(2) Cons.prems(2) Receive by (simp add: insert_absorb)
    qed
  next
    case (Hangup fd)
    then obtain as' where as': "plan es ((sessions s)(fd := None)) = Inr as'" "as = [Disconnect fd] @ as'"
      using Cons.prems(3) by auto
    show ?thesis unfolding as'(2)
      using Hangup Cons.prems(2) as'(1) hangup_sessions [OF Cons.prems(1), of fd] by (intro go) auto
  qed
qed simp

lemma plan_requests:
  assumes "plan es m = Inr as" "m fd = Some p" "stays fd es"
  shows "\<exists>p'. scan (bytes_of fd es) p = Inr (p', requests_of fd as)"
  using assms
proof (induction es arbitrary: m as p)
  case Nil
  then show ?case by (auto simp: scan_def bytes_of_def requests_of_def)
next
  case (Cons e es)
  have st: "stays fd es" "e \<noteq> Accept fd" "e \<noteq> Hangup fd" using Cons.prems(3) by (auto simp: stays_def)
  show ?case
  proof (cases e)
    case (Accept f)
    then obtain as' where as': "plan es (m(f \<mapsto> init_parser)) = Inr as'" "as = Connect f # as'" using Cons.prems(1) by auto
    then show ?thesis using Cons.IH [OF as'(1) _ st(1)] Cons.prems(2) st(2) Accept by (auto simp: bytes_of_def requests_of_def)
  next
    case (Hangup f)
    then obtain as' where as': "plan es (m(f := None)) = Inr as'" "as = Disconnect f # as'" using Cons.prems(1) by auto
    then show ?thesis using Cons.IH [OF as'(1) _ st(1)] Cons.prems(2) st(3) Hangup by (auto simp: bytes_of_def requests_of_def)
  next
    case (Receive f buf)
    then obtain q p1 cmds as' where as': "m f = Some q" "scan buf q = Inr (p1, cmds)" "plan es (m(f \<mapsto> p1)) = Inr as'"
      "as = map (Request f) cmds @ Park f p1 # as'" using Cons.prems(1) by (auto split: option.splits)
    have req: "requests_of fd as = (if f = fd then cmds else []) @ requests_of fd as'"
      unfolding as'(4) by (induction cmds) (auto simp: requests_of_def)
    show ?thesis
    proof (cases "f = fd")
      case True
      then obtain p2 where "scan (bytes_of fd es) p1 = Inr (p2, requests_of fd as')"
        using Cons.IH [OF as'(3) _ st(1), of p1] by auto
      moreover have "bytes_of fd (e # es) = buf @ bytes_of fd es" using Receive True by (simp add: bytes_of_def)
      ultimately show ?thesis using as'(1,2) True Cons.prems(2) req by (auto simp: scan_append)
    next
      case False
      then obtain p2 where "scan (bytes_of fd es) p = Inr (p2, requests_of fd as')"
        using Cons.IH [OF as'(3) _ st(1), of p] Cons.prems(2) by auto
      then show ?thesis using False Receive req by (simp add: bytes_of_def)
    qed
  qed
qed

section \<open>Properties\<close>

text \<open>
  \<^bold>\<open>C7\<close>. Clients do not disturb each other's requests: in any safe state, any
  sequence of events that the system can deliver (connections, pieces of up to 16384 bytes, hang-ups, of
  any clients, interleaved in any way) does exactly what whole requests do, one after the other in
  the order of their completion; and the requests carried out for a client that stays connected are
  those that its own bytes, joined, parse to. The run ends early only at an array size that is no number.
\<close>

theorem client_streams_independent:
  assumes "server_safe s" "deliverable es (dom (clients_map s))" "plan es (sessions s) = Inr as"
  shows "handle_events es s = perform as s \<and> (\<forall>fd p. sessions s fd = Some p \<longrightarrow> stays fd es \<longrightarrow>
    (\<exists>p'. scan (bytes_of fd es) p = Inr (p', requests_of fd as)))"
  using plan_sound [OF assms(1) _ assms(3)] plan_requests [OF assms(3)] assms(2) by (simp add: dom_sessions)

theorem client_streams_independent_witness:
  "\<exists>(s :: server) as. clients_map s 5 \<noteq> None \<and> clients_map s 6 \<noteq> None \<and>
     handle_events [Receive 5 ''*1'', Receive 6 (format_resp_command [''PING'']), Receive 5 (drop 2 (format_resp_command [''PING'']))] s
       = perform as s \<and> requests_of 5 as = [[''PING'']] \<and> requests_of 6 as = [[''PING'']]"
proof -
  let ?w = "format_resp_command [''PING'']"
  let ?es = "[Receive 5 ''*1'', Receive 6 ?w, Receive 5 (drop 2 ?w)]"
  let ?s = "upd_client 6 (\<lambda>_. new_client) (upd_client 5 (\<lambda>_. new_client) (empty_server (\<lambda>_. True)))"
  have new: "new_client\<lparr>parser := init_parser\<rparr> = new_client" by (simp add: new_client_def)
  have safe: "server_safe (upd_client fd (\<lambda>_. new_client) t)" if "server_safe t" "clients_map t fd = None" for fd and t :: server
    using that new_client_inv [of t fd] by (intro server_safeI [OF _ that(1)]) (simp_all add: server_safe_def)
  have "server_safe ?s"
    using store_inv_safe [OF store_inv_empty [of regular "\<lambda>_. True"]] by (intro safe) (simp_all add: upd_client_def empty_server_def)
  moreover have "deliverable ?es (dom (clients_map ?s))"
  proof -
    have "length ?w \<le> 16384" "drop 2 ?w \<noteq> []" "?w \<noteq> []" by code_simp+
    then show ?thesis by (simp add: upd_client_def)
  qed
  moreover have ses: "sessions ?s = [5 \<mapsto> init_parser, 6 \<mapsto> init_parser]"
    by (simp add: new_client_def) (simp add: sessions_def empty_server_def)
  moreover obtain p as where scans: "scan ''*1'' init_parser = Inr (p, [])" "scan ?w init_parser = Inr (init_parser, [[''PING'']])"
    "scan (drop 2 ?w) p = Inr (init_parser, [[''PING'']])"
  proof -
    have "scan ''*1'' init_parser = Inr (init_parser\<lparr>pstate := READING_ARRAY_SIZE, current_buffer := ''1''\<rparr>, [])"
      "scan ?w init_parser = Inr (init_parser, [[''PING'']])"
      "scan (drop 2 ?w) (init_parser\<lparr>pstate := READING_ARRAY_SIZE, current_buffer := ''1''\<rparr>) = Inr (init_parser, [[''PING'']])"
      by code_simp+
    then show thesis using that by blast
  qed
  let ?as = "[Park 5 p, Request 6 [''PING''], Park 6 init_parser, Request 5 [''PING''], Park 5 init_parser]"
  have "plan ?es [5 \<mapsto> init_parser, 6 \<mapsto> init_parser] = Inr ?as" by (simp add: scans)
  ultimately have "handle_events ?es ?s = perform ?as ?s"
    using client_streams_independent [of ?s ?es ?as] by simp
  then show ?thesis
    by (intro exI [of _ ?s] exI [of _ ?as]) (simp add: requests_of_def upd_client_def)
qed

end
