(* ===== verification/Durability.thy ===== *)
theory Durability
  imports Map_Semantics Streams
begin

text \<open>
  What a crash leaves. The log is the successful writes in order, or a snapshot followed by the writes since
  the last rewrite; a crash keeps what has reached the disk, a prefix that may end in the middle of a
  command. The map that a restart builds from it agrees with the map at some moment since the last flush:
  same keys, strings, lists and sets, hashes with the same fields; only keys of empty lists, hashes and
  sets, which a snapshot leaves out, may be missing.
\<close>

section \<open>Maps that agree up to empty containers and the representation of hashes\<close>

definition blank :: "DrutaValue \<Rightarrow> bool" where
  "blank v = (case data v of DString _ \<Rightarrow> False | DList l \<Rightarrow> l = [] | DHash h \<Rightarrow> entries h = [] | DSet t \<Rightarrow> t = [])"

definition same_value :: "DrutaValue \<Rightarrow> DrutaValue \<Rightarrow> bool" where
  "same_value v v' = (expiry_time v' = expiry_time v \<and>
     (case data v of DHash h \<Rightarrow> (case data v' of DHash h' \<Rightarrow> hash_map h' = hash_map h | _ \<Rightarrow> False) | d \<Rightarrow> data v' = d))"

definition agree :: "DrutaValue option \<Rightarrow> DrutaValue option \<Rightarrow> bool" where
  "agree e e' = (case e of
     None \<Rightarrow> e' = None
   | Some v \<Rightarrow> (case e' of None \<Rightarrow> blank v | Some v' \<Rightarrow> same_value v v'))"

definition alike :: "(string \<rightharpoonup> DrutaValue) \<Rightarrow> (string \<rightharpoonup> DrutaValue) \<Rightarrow> bool" where
  "alike m m' = (\<forall>k. agree (m k) (m' k))"

lemma agree_simps [simp]:
  "agree None e' \<longleftrightarrow> e' = None" "agree (Some v) None \<longleftrightarrow> blank v" "agree (Some v) (Some v') \<longleftrightarrow> same_value v v'"
  by (simp_all add: agree_def)

lemma alikeD: "alike m m' \<Longrightarrow> agree (m k) (m' k)"
  by (simp add: alike_def)

lemma same_value_refl [simp]: "same_value v v"
  by (simp add: same_value_def split: value_data.split)

lemma alike_refl [simp]: "alike m m"
  by (simp add: alike_def agree_def split: option.split)

lemma hash_map_new: "hash_map (new_hash_vec [] 0) = Map.empty"
  by (simp add: hash_map_def new_hash_vec_def entries_def)

lemma hash_map_empty: "hash_map h = Map.empty \<longleftrightarrow> entries h = []"
  by (simp add: hash_map_def plain_def)

lemma same_value_as:
  assumes "same_value v v'"
  shows "as_list (data v) = Some l \<Longrightarrow> as_list (data v') = Some l" "as_set (data v) = Some t \<Longrightarrow> as_set (data v') = Some t"
    "as_hash (data v) = Some h \<Longrightarrow> \<exists>h'. as_hash (data v') = Some h' \<and> hash_map h' = hash_map h"
  using assms by (auto simp: same_value_def as_list_def as_set_def as_hash_def split: value_data.splits)

lemma blank_as:
  assumes "blank v"
  shows "as_list (data v) = Some l \<Longrightarrow> l = []" "as_set (data v) = Some t \<Longrightarrow> t = []" "as_hash (data v) = Some h \<Longrightarrow> entries h = []"
  using assms by (auto simp: blank_def as_list_def as_set_def as_hash_def split: value_data.splits)

lemma alike_upd: "alike m m' \<Longrightarrow> same_value v v' \<Longrightarrow> alike (m(k \<mapsto> v)) (m'(k \<mapsto> v'))"
  by (simp add: alike_def)

lemma alike_blank: "alike m m' \<Longrightarrow> m' k = None \<Longrightarrow> blank v \<Longrightarrow> alike (m(k \<mapsto> v)) m'"
  by (simp add: alike_def)

text \<open>Replacing a value by one of the same contents changes nothing.\<close>

lemma same_value_left: "same_value v w \<Longrightarrow> same_value v v' \<Longrightarrow> same_value w v'"
  by (auto simp: same_value_def split: value_data.splits)

lemma same_value_blank: "same_value v w \<Longrightarrow> blank v \<Longrightarrow> blank w"
  by (auto simp: same_value_def blank_def hash_map_empty [symmetric] split: value_data.splits)

lemma alike_same: "alike m m' \<Longrightarrow> m k = Some v \<Longrightarrow> same_value v w \<Longrightarrow> alike (m(k \<mapsto> w)) m'"
  using alikeD [of m m' k] by (cases "m' k") (auto simp: alike_def dest: same_value_left same_value_blank)

lemma alike_restrict: "alike m m' \<Longrightarrow> alike (m |` A) (m' |` A)"
  by (simp add: alike_def restrict_map_def)

section \<open>Commands on maps that agree\<close>

definition good_map :: "(string \<rightharpoonup> DrutaValue) \<Rightarrow> bool" where
  "good_map m = (\<forall>k v. m k = Some v \<longrightarrow> timeless v \<and> stored v)"

lemma at_rest_good: "at_rest s c \<Longrightarrow> good_map (map_of c)"
  using values_all_lookup [of timeless c] db_inv_stored [of s c] by (auto simp: at_rest_def good_map_def)

lemma good_mapD:
  assumes "good_map m" "m k = Some v"
  shows "expiry_time v = 0" "value_ok v" "as_hash (data v) = Some h \<Longrightarrow> hash_wf h" "as_set (data v) = Some t \<Longrightarrow> oset t"
  using assms by (auto simp: good_map_def timeless_def stored_def value_ok_def value_wf_def as_hash_def as_set_def split: value_data.splits)

definition follows :: "(string \<rightharpoonup> DrutaValue) \<Rightarrow> ((string \<rightharpoonup> DrutaValue) \<times> bool) res \<Rightarrow> bool" where
  "follows n r = (\<exists>n' ok. r = Inr (n', ok) \<and> alike n n')"

lemma follows_Inr [simp]: "follows n (Inr (n', ok)) \<longleftrightarrow> alike n n'"
  by (simp add: follows_def)

text \<open>A successful command on one type, on a map that agrees: the key is missing on both sides, or missing only
  there because it is blank here, or present on both.\<close>

lemma typed_follows:
  assumes m: "alike m m'" and run: "typed_effect f k m miss found = Inr (n, True)"
    and missing: "m' k = None \<Longrightarrow> miss = Inr (n, True) \<Longrightarrow> follows n miss'"
    and empty: "\<And>v x. m' k = None \<Longrightarrow> m k = Some v \<Longrightarrow> blank v \<Longrightarrow> f (data v) = Some x \<Longrightarrow> found v x = Inr (n, True) \<Longrightarrow> follows n miss'"
    and present: "\<And>v v' x. m k = Some v \<Longrightarrow> m' k = Some v' \<Longrightarrow> same_value v v' \<Longrightarrow> f (data v) = Some x \<Longrightarrow> found v x = Inr (n, True) \<Longrightarrow>
      \<exists>x'. f (data v') = Some x' \<and> follows n (found' v' x')"
  shows "follows n (typed_effect f k m' miss' found')"
proof (cases "m k")
  case None
  then have "m' k = None" using alikeD [OF m, of k] by simp
  then show ?thesis using missing run None by (simp add: typed_effect_def)
next
  case (Some v)
  then obtain x where x: "f (data v) = Some x" "found v x = Inr (n, True)" using run by (auto simp: typed_effect_def split: option.splits)
  show ?thesis
  proof (cases "m' k")
    case None
    then have "blank v" using alikeD [OF m, of k] Some by simp
    then show ?thesis using empty [OF None Some] x None by (simp add: typed_effect_def)
  next
    case (Some v')
    then have "same_value v v'" using alikeD [OF m, of k] \<open>m k = Some v\<close> by simp
    then show ?thesis using present [OF \<open>m k = Some v\<close> Some] x Some by (auto simp: typed_effect_def)
  qed
qed

lemma push_follows:
  assumes "alike m m'" "good_map m" "push_effect ff args m = Inr (n, True)"
  shows "follows n (push_effect ff args m')"
  using assms(3) unfolding push_effect_def Let_def
proof (rule typed_follows [OF assms(1)], goal_cases)
  case (2 v x)
  have "x = []" "expiry_time v = 0" using blank_as(1) [OF 2(3,4)] good_mapD(1) [OF assms(2) 2(2)] by simp_all
  then show ?case using 2(5) by (auto intro: alike_upd [OF assms(1)])
next
  case (3 v v' x)
  have "expiry_time v' = expiry_time v" using 3(3) by (simp add: same_value_def)
  then show ?case using 3(5) same_value_as(1) [OF 3(3,4)] by (auto intro: alike_upd [OF assms(1)])
qed (auto intro: alike_upd [OF assms(1)])

lemma pop_follows:
  assumes "alike m m'" "pop_effect ff args m = Inr (n, True)"
  shows "follows n (pop_effect ff args m')"
proof (cases "3 < length args")
  case False
  note run = assms(2) [unfolded pop_effect_def if_not_P [OF False]]
  show ?thesis
    using run unfolding pop_effect_def if_not_P [OF False]
  proof (rule typed_follows [OF assms(1)], goal_cases)
    case (2 v x)
    have "n = m(args ! 1 \<mapsto> new_list [] (expiry_time v))"
      using blank_as(1) [OF 2(3,4)] 2(5) by (auto simp: Let_def remaining_def split: if_splits)
    then show ?case using 2(1) by (auto simp: blank_def new_list_def intro: alike_blank [OF assms(1)])
  next
    case (3 v v' x)
    have "expiry_time v' = expiry_time v" using 3(3) by (simp add: same_value_def)
    then show ?case using 3(5) same_value_as(1) [OF 3(3,4)]
      by (auto simp: Let_def split: if_splits intro: alike_upd [OF assms(1)])
  qed simp
qed (use assms(2) in \<open>simp add: pop_effect_def\<close>)

lemma same_hash: "hash_map h' = hash_map h \<Longrightarrow> same_value (new_hash h e) (new_hash h' e)"
  by (simp add: same_value_def new_hash_def)

lemma put_alike:
  assumes "hash_wf h" "hash_wf h'" "hash_map h' = hash_map h" "put_loop set_hash xs h = Inr (g, i)"
  shows "\<exists>g'. put_loop set_hash xs h' = Inr (g', i) \<and> hash_map g' = hash_map g"
proof -
  obtain g' j where "put_loop set_hash xs h' = Inr (g', j)" "hash_map g' = hash_map h' ++ map_of (rev xs)"
    "j = card (fst ` set xs - dom (hash_map h'))" by (rule put_loop_total [OF assms(2)])
  moreover have "hash_map g = hash_map h ++ map_of (rev xs)" "i = card (fst ` set xs - dom (hash_map h))"
    using put_loop_total [OF assms(1), of xs] assms(4) by (metis Inr_inject Pair_inject)+
  ultimately show ?thesis using assms(3) by simp
qed

lemma del_alike:
  assumes "hash_wf h" "hash_wf h'" "hash_map h' = hash_map h" "del_loop del_hash xs h = Inr (g, i)"
  shows "\<exists>g'. del_loop del_hash xs h' = Inr (g', i) \<and> hash_map g' = hash_map g"
  using druta_hash.del_loop_ok [OF assms(1), of xs] druta_hash.del_loop_ok [OF assms(2), of xs] assms(3,4) by auto

lemma hset_follows:
  assumes "alike m m'" "good_map m" "good_map m'" "hset_effect args m = Inr (n, True)"
  shows "follows n (hset_effect args m')"
proof (cases "odd (length args)")
  case False
  have put: "follows n (rbind (put_loop set_hash xs h') (\<lambda>(g, i). Inr (m'(k \<mapsto> new_hash g e), i > 0)))"
    if r: "rbind (put_loop set_hash xs h) (\<lambda>(g, i). Inr (m(k \<mapsto> new_hash g e), i > 0)) = Inr (n, True)"
      and wf: "hash_wf h" "hash_wf h'" "hash_map h' = hash_map h" for xs h h' k e
  proof -
    obtain g i where g: "put_loop set_hash xs h = Inr (g, i)" by (rule put_loop_total [OF wf(1)])
    with r have n: "n = m(k \<mapsto> new_hash g e)" by simp
    obtain g' where "put_loop set_hash xs h' = Inr (g', i)" "hash_map g' = hash_map g" using put_alike [OF wf g] by blast
    then show ?thesis by (simp add: n alike_upd [OF assms(1)] same_hash)
  qed
  have new: "hash_wf (new_hash_vec [] 0)" by (rule hash_wf_new)
  show ?thesis
    using assms(4) unfolding hset_effect_def Let_def if_not_P [OF False]
  proof (rule typed_follows [OF assms(1)], goal_cases)
    case 1
    then show ?case by (intro put [OF _ new new]) simp_all
  next
    case (2 v h)
    have "hash_map (new_hash_vec [] 0) = hash_map h"
      using blank_as(3) [OF 2(3,4)] by (simp add: hash_map_new hash_map_empty [of h, THEN iffD2])
    moreover have "expiry_time v = 0" by (rule good_mapD(1) [OF assms(2) 2(2)])
    ultimately show ?case using 2(5) by (intro put [OF _ good_mapD(3) [OF assms(2) 2(2,4)] new]) simp_all
  next
    case (3 v v' h)
    obtain h' where h': "as_hash (data v') = Some h'" "hash_map h' = hash_map h" using same_value_as(3) [OF 3(3,4)] by blast
    have "expiry_time v' = expiry_time v" using 3(3) by (simp add: same_value_def)
    then show ?case using 3(5) h' good_mapD(3) [OF assms(2) 3(1,4)] good_mapD(3) [OF assms(3) 3(2) h'(1)] by (simp add: put)
  qed
qed (use assms(4) in \<open>simp add: hset_effect_def\<close>)

lemma hdel_follows:
  assumes "alike m m'" "good_map m" "good_map m'" "hdel_effect args m = Inr (n, True)"
  shows "follows n (hdel_effect args m')"
  using assms(4) unfolding hdel_effect_def
proof (rule typed_follows [OF assms(1)], goal_cases)
  case (2 v h)
  have "hash_map h = Map.empty" using blank_as(3) [OF 2(3,4)] by (simp add: hash_map_empty)
  then show ?case using druta_hash.del_loop_ok [OF good_mapD(3) [OF assms(2) 2(2,4)], of "drop 2 args"] 2(5) by auto
next
  case (3 v v' h)
  obtain h' where h': "as_hash (data v') = Some h'" "hash_map h' = hash_map h" using same_value_as(3) [OF 3(3,4)] by blast
  note wf = good_mapD(3) [OF assms(2) 3(1,4)] good_mapD(3) [OF assms(3) 3(2) h'(1)]
  obtain g i where g: "del_loop del_hash (drop 2 args) h = Inr (g, i)"
    using druta_hash.del_loop_ok [OF wf(1), of "drop 2 args"] by blast
  with 3(5) have n: "n = m(args ! 1 \<mapsto> new_hash g (expiry_time v))" by simp
  obtain g' where "del_loop del_hash (drop 2 args) h' = Inr (g', i)" "hash_map g' = hash_map g" using del_alike [OF wf h'(2) g] by blast
  moreover have "expiry_time v' = expiry_time v" using 3(3) by (simp add: same_value_def)
  ultimately show ?case using h'(1) by (simp add: n alike_upd [OF assms(1)] same_hash)
qed simp

lemma sadd_follows:
  assumes "alike m m'" "good_map m" "sadd_effect args m = Inr (n, True)"
  shows "follows n (sadd_effect args m')"
  using assms(3) unfolding sadd_effect_def Let_def
proof (rule typed_follows [OF assms(1)], goal_cases)
  case (2 v t)
  have "t = []" "expiry_time v = 0" using blank_as(2) [OF 2(3,4)] good_mapD(1) [OF assms(2) 2(2)] by simp_all
  then show ?case using 2(5) by (auto intro: alike_upd [OF assms(1)])
next
  case (3 v v' t)
  have "expiry_time v' = expiry_time v" using 3(3) by (simp add: same_value_def)
  then show ?case using 3(5) same_value_as(2) [OF 3(3,4)] by (auto intro: alike_upd [OF assms(1)])
qed (auto intro: alike_upd [OF assms(1)])

lemma sdel_follows:
  assumes "alike m m'" "sdel_effect args m = Inr (n, True)"
  shows "follows n (sdel_effect args m')"
  using assms(2) unfolding sdel_effect_def Let_def
proof (rule typed_follows [OF assms(1)], goal_cases)
  case (2 v t)
  then show ?case using blank_as(2) [OF 2(3,4)] by simp
next
  case (3 v v' t)
  have "expiry_time v' = expiry_time v" using 3(3) by (simp add: same_value_def)
  then show ?case using 3(5) same_value_as(2) [OF 3(3,4)] by (auto intro: alike_upd [OF assms(1)])
qed simp

text \<open>A write that succeeds does so on every map that agrees, with results that agree.\<close>

lemma effect_follows:
  assumes "alike m m'" "good_map m" "good_map m'" "effect args m = Inr (n, True)"
  shows "follows n (effect args m')"
proof -
  note each = push_follows [OF assms(1,2)] pop_follows [OF assms(1)] hset_follows [OF assms(1-3)] hdel_follows [OF assms(1-3)]
    sadd_follows [OF assms(1,2)] sdel_follows [OF assms(1)]
  have wr: "toupper (args ! 0) \<in> set aof_commands" using assms(4) effect_read [of args m] by auto
  then have "\<exists>cmd\<in>set aof_commands. toupper (args ! 0) = cmd" by blast
  then show ?thesis
    using assms(4) unfolding effect_def Let_def aof_commands_def set_simps bex_simps
    by (elim disjE) (auto simp: each alike_upd [OF assms(1)] alike_restrict [OF assms(1)] split: if_splits)
qed

section \<open>Commands that report no success\<close>

text \<open>HSET of fields that are all there changes the hash without being logged.\<close>

definition overwrites :: "string list \<Rightarrow> (string \<rightharpoonup> DrutaValue) \<Rightarrow> bool" where
  "overwrites args m = (toupper (args ! 0) = ''HSET'' \<and> 4 \<le> length args \<and> even (length args) \<and>
     (case m (args ! 1) of None \<Rightarrow> False
      | Some v \<Rightarrow> (case data v of DHash h \<Rightarrow> list_all (\<lambda>p. hash_map h (fst p) \<noteq> None) (pairs_of (drop 2 args)) | _ \<Rightarrow> False)))"

fun lossless :: "string list list \<Rightarrow> (string \<rightharpoonup> DrutaValue) \<Rightarrow> bool" where
  "lossless [] m = True"
| "lossless (args # cmds) m = (\<not> overwrites args m \<and> (case effect args m of Inl e \<Rightarrow> True | Inr (m', ok) \<Rightarrow> lossless cmds m'))"

text \<open>A command on one type without success: only the value of the key may differ, and then not in contents.\<close>

lemma typed_quiet:
  assumes m: "alike m m'" and run: "typed_effect f k m miss found = Inr (n, False)"
    and missing: "m k = None \<Longrightarrow> miss = Inr (n, False) \<Longrightarrow> n = m"
    and present: "\<And>v x. m k = Some v \<Longrightarrow> f (data v) = Some x \<Longrightarrow> found v x = Inr (n, False) \<Longrightarrow> \<exists>w. n = m(k \<mapsto> w) \<and> same_value v w"
  shows "alike n m'"
proof (cases "m k")
  case None
  then show ?thesis using run missing m by (simp add: typed_effect_def)
next
  case (Some v)
  show ?thesis
  proof (cases "f (data v)")
    case None
    then show ?thesis using run m Some by (simp add: typed_effect_def)
  next
    case x: (Some x)
    then have "found v x = Inr (n, False)" using run Some by (simp add: typed_effect_def)
    then show ?thesis using present [OF Some x] alike_same [OF m Some] by blast
  qed
qed

lemma hset_quiet:
  assumes m: "alike m m'" "good_map m" and over: "\<not> overwrites args m" and args: "toupper (args ! 0) = ''HSET''" "4 \<le> length args"
    and run: "hset_effect args m = Inr (n, False)"
  shows "alike n m'"
proof (cases "odd (length args)")
  case False
  let ?xs = "pairs_of (drop 2 args)"
  obtain a b x y rest where "args = a # b # x # y # rest" using args(2) by (auto simp: Suc_le_length_iff numeral_eq_Suc)
  then have ne: "?xs \<noteq> []" by simp
  have none: False if "put_loop set_hash ?xs h = Inr (g, 0)" "hash_wf h" "\<exists>p\<in>set ?xs. fst p \<notin> dom (hash_map h)" for h g
  proof -
    have "card (fst ` set ?xs - dom (hash_map h)) = 0" using put_loop_total [OF that(2), of ?xs] that(1) by (metis Inr_inject Pair_inject)
    then show False using that(3) by (auto simp: card_eq_0_iff)
  qed
  show ?thesis
    using run unfolding hset_effect_def Let_def if_not_P [OF False]
  proof (rule typed_quiet [OF m(1)], goal_cases)
    case 1
    then obtain g where "put_loop set_hash ?xs (new_hash_vec [] 0) = Inr (g, 0)" by auto
    moreover have "hd ?xs \<in> set ?xs" "fst (hd ?xs) \<notin> dom (hash_map (new_hash_vec [] 0))" using ne by (simp_all add: hash_map_new)
    ultimately have False using none [OF _ hash_wf_new] by blast
    then show ?case ..
  next
    case (2 v h)
    then obtain g where g: "put_loop set_hash ?xs h = Inr (g, 0)" by auto
    have "data v = DHash h" using 2(2) by (auto simp: as_hash_def split: value_data.splits)
    then have "\<exists>p\<in>set ?xs. fst p \<notin> dom (hash_map h)"
      using over args False 2(1) by (auto simp: overwrites_def list_all_iff domIff)
    then have False using none [OF g good_mapD(3) [OF m(2) 2(1,2)]] by blast
    then show ?case ..
  qed
qed (use run m(1) in \<open>simp add: hset_effect_def Let_def\<close>)

lemma hdel_quiet:
  assumes m: "alike m m'" "good_map m" and run: "hdel_effect args m = Inr (n, False)"
  shows "alike n m'"
  using run unfolding hdel_effect_def
proof (rule typed_quiet [OF m(1)], goal_cases)
  case (2 v h)
  let ?xs = "drop 2 args"
  obtain g where g: "del_loop del_hash ?xs h = Inr (g, card (set ?xs \<inter> dom (hash_map h)))" "hash_map g = hash_map h |` (- set ?xs)"
    using druta_hash.del_loop_ok [OF good_mapD(3) [OF m(2) 2(1,2)], of ?xs] by blast
  then have n: "n = m(args ! 1 \<mapsto> new_hash g (expiry_time v))" "card (set ?xs \<inter> dom (hash_map h)) = 0" using 2(3) by auto
  then have "set ?xs \<inter> dom (hash_map h) = {}" by (simp add: card_eq_0_iff)
  then have "hash_map h x = None" if "x \<in> set ?xs" for x using that by auto
  then have "hash_map g = hash_map h" unfolding g(2) by (auto simp: restrict_map_def fun_eq_iff)
  moreover have "data v = DHash h" using 2(2) by (auto simp: as_hash_def split: value_data.splits)
  ultimately show ?case using n(1) by (auto simp: same_value_def new_hash_def)
qed simp

lemma sadd_quiet:
  assumes m: "alike m m'" "good_map m" and run: "sadd_effect args m = Inr (n, False)" and len: "3 \<le> length args"
  shows "alike n m'"
  using run unfolding sadd_effect_def Let_def
proof (rule typed_quiet [OF m(1)], goal_cases)
  case 1
  have "drop 2 args \<noteq> []" using len by simp
  then show ?case using 1(2) by (simp add: card_gt_0_iff)
next
  case (2 v t)
  have t: "oset t" "data v = DSet t" using good_mapD(4) [OF m(2) 2(1,2)] 2(2) by (auto simp: as_set_def split: value_data.splits)
  have "length (sorted_list_of_set (set t \<union> set (drop 2 args))) - length t = 0" using 2(3) by simp
  then have "card (set t \<union> set (drop 2 args)) \<le> card (set t)" using oset_length [OF t(1)] by simp
  then have "set t \<union> set (drop 2 args) = set t" by (metis Un_upper1 List.finite_set card_seteq finite_Un)
  then show ?case using 2(3) t by (auto simp: oset_sorted_list same_value_def new_set_def)
qed

lemma sdel_quiet:
  assumes m: "alike m m'" "good_map m" and run: "sdel_effect args m = Inr (n, False)"
  shows "alike n m'"
  using run unfolding sdel_effect_def Let_def
proof (rule typed_quiet [OF m(1)], goal_cases)
  case (2 v t)
  have t: "oset t" "data v = DSet t" using good_mapD(4) [OF m(2) 2(1,2)] 2(2) by (auto simp: as_set_def split: value_data.splits)
  have "length t \<le> length (sorted_list_of_set (set t - set (drop 2 args)))" using 2(3) by simp
  then have "card (set t) \<le> card (set t - set (drop 2 args))" using oset_length [OF t(1)] by simp
  then have "set t - set (drop 2 args) = set t" by (intro card_seteq) simp_all
  then show ?case using 2(3) t by (auto simp: oset_sorted_list same_value_def new_set_def)
qed simp

lemma push_loud: "push_effect ff args m = Inr (n, False) \<Longrightarrow> n = m"
  by (auto simp: push_effect_def typed_effect_def Let_def split: option.splits)

lemma pop_loud: "pop_effect ff args m = Inr (n, False) \<Longrightarrow> n = m"
  by (auto simp: pop_effect_def typed_effect_def Let_def split: option.splits if_splits)

lemma effect_quiet:
  assumes m: "alike m m'" "good_map m" and over: "\<not> overwrites args m" and run: "effect args m = Inr (n, False)"
  shows "alike n m'"
proof (cases "toupper (args ! 0) \<in> set aof_commands")
  case False
  then show ?thesis using effect_read [OF False, of m] run m(1) by simp
next
  case True
  note each = hset_quiet [OF m over] hdel_quiet [OF m] sadd_quiet [OF m] sdel_quiet [OF m]
  have same: "push_effect ff args m = Inr (n, False) \<Longrightarrow> alike n m'" "pop_effect ff args m = Inr (n, False) \<Longrightarrow> alike n m'" for ff
    using push_loud pop_loud m(1) by blast+
  have del: "alike (m |` (- set ks)) m'" if "\<not> list_ex (\<lambda>k. \<exists>y. m k = Some y) ks" for ks
  proof -
    have "m |` (- set ks) = m" using that by (auto simp: list_ex_iff restrict_map_def fun_eq_iff)
    then show ?thesis using m(1) by simp
  qed
  from True have "\<exists>cmd\<in>set aof_commands. toupper (args ! 0) = cmd" by blast
  then show ?thesis
    using run unfolding effect_def Let_def aof_commands_def set_simps bex_simps
    by (elim disjE) (use m(1) in \<open>auto split: if_splits intro: each same del\<close>)
qed

section \<open>What a text of the log restores\<close>

text \<open>Replaying the text on an empty store, up to the parser state \<open>p\<close>, gives contents that agree with \<open>m\<close>.\<close>

definition replays :: "RespParser \<Rightarrow> string \<Rightarrow> (string \<rightharpoonup> DrutaValue) \<Rightarrow> nat \<Rightarrow> bool" where
  "replays p txt m b = (\<exists>cmds. scan txt init_parser = Inr (p, cmds) \<and>
     (\<forall>z :: server. at_rest z [] \<longrightarrow> (\<exists>z' c'. run_commands (handle_command (-1)) cmds z = Inr z' \<and> at_rest z' c' \<and>
       alike m (map_of c') \<and> cache_bytes c' \<le> b)))"

definition recovers :: "string \<Rightarrow> (string \<rightharpoonup> DrutaValue) \<Rightarrow> nat \<Rightarrow> bool" where
  "recovers txt m b = (\<exists>p. replays p txt m b)"

lemma recoversI: "replays p txt m b \<Longrightarrow> recovers txt m b"
  by (auto simp: recovers_def)

lemma replays_Nil: "replays init_parser [] Map.empty 0"
proof -
  have "scan [] init_parser = Inr (init_parser, [])" by (simp add: scan_def)
  then show ?thesis unfolding replays_def by (intro exI [of _ "[]"]) (auto intro: exI [of _ "[]"])
qed

lemma replays_weaken:
  assumes "replays p txt m b" "b \<le> b'" "\<And>m'. alike m m' \<Longrightarrow> alike n m'"
  shows "replays p txt n b'"
  using assms unfolding replays_def by (meson order_trans)

lemma recovers_mono: "recovers txt m b \<Longrightarrow> b \<le> b' \<Longrightarrow> recovers txt m b'"
  unfolding recovers_def using replays_weaken by blast

lemma scan_commands: "\<forall>args\<in>set cmds. args_ok args \<Longrightarrow> scan (concat (map format_resp_command cmds)) init_parser = Inr (init_parser, cmds)"
  by (simp add: scan_def parse_commands)

lemma scan_command: "args_ok args \<Longrightarrow> scan (format_resp_command args) init_parser = Inr (init_parser, [args])"
  using scan_commands [of "[args]"] by simp

lemma plain_args_ok: "plain_request args \<Longrightarrow> args_ok args"
  by (simp add: plain_request_def modest_def)

text \<open>One more command in the log, complete.\<close>

lemma replays_snoc:
  assumes log: "replays init_parser txt m b" and m: "good_map m" and args: "plain_request args"
    and run: "effect args m = Inr (n, True)" and room: "b + request_bytes args \<le> LRU_MAX_MEMORY"
    and p: "scan part init_parser = Inr (p, [args])"
  shows "replays p (txt @ part) n (b + request_bytes args)"
proof -
  obtain cmds where cmds: "scan txt init_parser = Inr (init_parser, cmds)"
    "\<And>z :: server. at_rest z [] \<Longrightarrow> \<exists>z' c'. run_commands (handle_command (-1)) cmds z = Inr z' \<and> at_rest z' c' \<and>
       alike m (map_of c') \<and> cache_bytes c' \<le> b" using log by (auto simp: replays_def)
  have "scan (txt @ part) init_parser = Inr (p, cmds @ [args])" using cmds(1) p by (simp add: scan_append)
  moreover have "\<exists>z' c'. run_commands (handle_command (-1)) (cmds @ [args]) z = Inr z' \<and> at_rest z' c' \<and>
      alike n (map_of c') \<and> cache_bytes c' \<le> b + request_bytes args" if "at_rest z []" for z :: server
  proof -
    obtain z1 c1 where z1: "run_commands (handle_command (-1)) cmds z = Inr z1" "at_rest z1 c1" "alike m (map_of c1)" "cache_bytes c1 \<le> b"
      using cmds(2) [OF \<open>at_rest z []\<close>] by blast
    obtain n1 ok where n1: "effect args (map_of c1) = Inr (n1, ok)" "alike n n1"
      using effect_follows [OF z1(3) m at_rest_good [OF z1(2)] run] by (auto simp: follows_def)
    have "cache_bytes c1 + request_bytes args \<le> LRU_MAX_MEMORY" using z1(4) room by simp
    from handle_effect [OF z1(2) args this, of "-1"] n1(1) obtain z2 c2 where
      z2: "handle_command (-1) args z1 = Inr z2" "at_rest z2 c2" "map_of c2 = n1" "cache_bytes c2 \<le> cache_bytes c1 + request_bytes args" by auto
    then show ?thesis using z1 n1(2) by (intro exI [of _ z2] exI [of _ c2]) (simp add: run_append)
  qed
  ultimately show ?thesis by (auto simp: replays_def)
qed

text \<open>A command cut off anywhere: the log restores the map before or after it.\<close>

lemma recovers_part:
  assumes log: "replays init_parser txt m b" and m: "good_map m" and args: "plain_request args"
    and run: "effect args m = Inr (n, True)" and room: "b + request_bytes args \<le> LRU_MAX_MEMORY"
  shows "recovers (txt @ take j (format_resp_command args)) m b \<or>
    recovers (txt @ take j (format_resp_command args)) n (b + request_bytes args)"
proof -
  let ?r = "format_resp_command args"
  have "scan (take j ?r @ drop j ?r) init_parser = Inr (init_parser, [args])"
    using scan_command [OF plain_args_ok [OF args]] by simp
  then obtain p c1 c2 where p: "scan (take j ?r) init_parser = Inr (p, c1)" "c1 @ c2 = [args]"
    unfolding scan_append by auto
  show ?thesis
  proof (cases "c1 = []")
    case True
    obtain cmds where cmds: "scan txt init_parser = Inr (init_parser, cmds)" using log by (auto simp: replays_def)
    then have "scan (txt @ take j ?r) init_parser = Inr (p, cmds)" using p(1) True by (simp add: scan_append)
    then have "replays p (txt @ take j ?r) m b" using log cmds by (auto simp: replays_def)
    then show ?thesis by (auto intro: recoversI)
  next
    case False
    then have "scan (take j ?r) init_parser = Inr (p, [args])" using p by (cases c1) auto
    from recoversI [OF replays_snoc [OF assms this]] show ?thesis ..
  qed
qed

lemma timelessI: "restorable e \<Longrightarrow> expiry_time (snd e) = 0 \<Longrightarrow> timeless (snd e)"
  by (auto simp: timeless_def regular_def restorable_def split: value_data.splits)

lemma timeless_rebuilt:
  assumes "\<forall>e\<in>set c. restorable (rebuilt e)" "values_all timeless c"
  shows "values_all timeless (map rebuilt c)"
proof -
  have "expiry_time (snd (rebuilt e)) = 0" if "e \<in> set c" for e
    using assms(2) that by (auto simp: rebuilt_def values_all_def timeless_def new_hash_def split: value_data.split)
  then show ?thesis using assms(1) timelessI by (auto simp: values_all_def)
qed

lemma map_of_map_keys: "(\<And>e. fst (f e) = fst e) \<Longrightarrow> map_of (map f c) k = map_option (\<lambda>v. snd (f (k, v))) (map_of c k)"
proof (induction c)
  case (Cons e c)
  obtain j v where "e = (j, v)" by (cases e)
  moreover have "fst (f (j, v)) = j" using Cons.prems by simp
  then have "f (j, v) = (j, snd (f (j, v)))" by (metis prod.collapse)
  ultimately show ?case using Cons by (auto simp: map_of_Cons_code split: prod.split)
qed simp

lemma map_of_filter_at: "distinct (map fst c) \<Longrightarrow> map_of (filter P c) k = (case map_of c k of Some v \<Rightarrow> if P (k, v) then Some v else None | None \<Rightarrow> None)"
proof (induction c)
  case (Cons e c)
  have "map_of c (fst e) = None" using Cons.prems by (simp add: map_of_eq_None_iff)
  moreover from this have "map_of (filter P c) (fst e) = None" by (auto simp: map_of_eq_None_iff)
  ultimately show ?case using Cons by (cases e; cases "k = fst e") simp_all
qed simp

lemma alike_snapshot:
  assumes "at_rest s c"
  shows "alike (map_of c) (map_of (map rebuilt (live now c)))"
proof -
  have d: "distinct (map fst c)" using assms db_keys by (auto simp: at_rest_def)
  have one: "agree (map_of c k) (map_of (map rebuilt (live now c)) k)" for k
  proof (cases "map_of c k")
    case None
    then show ?thesis by (simp add: map_of_map_keys live_def map_of_filter_at [OF d])
  next
    case (Some v)
    have e: "timeless v" "stored v" using at_rest_good [OF assms] Some by (auto simp: good_map_def)
    have kv: "(k, v) \<in> set c" using Some by (rule map_of_SomeD)
    have "\<forall>e\<in>set c. restorable e" "\<forall>e\<in>set c. value_ok (snd e)" "cache_bytes c \<le> LRU_MAX_MEMORY"
      using assms timeless_restorable by (auto simp: at_rest_def db_inv_def)
    then have "restorable (k, v)" "value_ok v" "entry_size (k, v) \<le> LRU_MAX_MEMORY" using kv entry_size_le [OF kv] by fastforce+
    then have "same_entry (k, v) (rebuilt (k, v))" by (intro same_rebuilt) simp_all
    then have "same_value v (snd (rebuilt (k, v)))" by (auto simp: same_entry_def same_value_def split: value_data.splits)
    moreover have "entry_cmd now (k, v) = None \<Longrightarrow> blank v"
      using e(1) by (auto simp: entry_cmd_def expired_at_def timeless_def blank_def split: value_data.splits if_splits)
    ultimately show ?thesis using Some by (auto simp: map_of_map_keys live_def map_of_filter_at [OF d])
  qed
  then show ?thesis by (simp add: alike_def)
qed

text \<open>A snapshot restores the contents.\<close>

lemma replays_snapshot:
  assumes "at_rest s c"
  shows "replays init_parser (concat (map format_resp_command (rewrite_commands now c))) (map_of c) (cache_bytes c)"
proof -
  have c: "\<forall>e\<in>set c. value_ok (snd e) \<and> restorable e" "distinct (map fst c)" "cache_bytes c \<le> LRU_MAX_MEMORY"
    using assms timeless_restorable [of c] db_keys [of s c] by (auto simp: at_rest_def) (auto simp: db_inv_def)
  have "\<exists>z' c'. run_commands (handle_command (-1)) (rewrite_commands now c) z = Inr z' \<and> at_rest z' c' \<and>
      alike (map_of c) (map_of c') \<and> cache_bytes c' \<le> cache_bytes c" if z: "at_rest z []" for z :: server
  proof -
    obtain t where t: "run_commands (handle_command (-1)) (rewrite_commands now c) z = Inr t" "db_inv t (map rebuilt (live now c))"
      "\<forall>fd. client_of fd t = client_of fd z" using snapshot_runs [OF c, of z now] z by (auto simp: at_rest_def)
    have "values_all timeless (live now c)" using assms live_keeps(1) [of now c] by (auto simp: at_rest_def values_all_def)
    then have "values_all timeless (map rebuilt (live now c))"
      using live_entries(2) [OF c(1,3), of now] by (intro timeless_rebuilt) simp_all
    then have "at_rest t (map rebuilt (live now c))" using t(2,3) z by (simp add: at_rest_def)
    then show ?thesis using t(1) alike_snapshot [OF assms] live_entries(3) [OF c(1,3)] by blast
  qed
  then show ?thesis using scan_commands [OF snapshot_args [OF c(1,3)]] by (auto simp: replays_def)
qed

text \<open>A process that starts on such a text.\<close>

lemma recovers_startup:
  assumes "recovers disk m b" "length disk < 2 ^ 31" "fso 1"
  shows "\<exists>t c. startup (boot clk tick spl fso disk) = Inr t \<and> db_inv t c \<and> alike m (map_of c)"
proof -
  let ?z = "(boot clk tick spl fso disk)\<lparr>fs_ticks := 2\<rparr>"
  obtain p cmds where p: "scan disk init_parser = Inr (p, cmds)"
    "\<And>z :: server. at_rest z [] \<Longrightarrow> \<exists>z' c'. run_commands (handle_command (-1)) cmds z = Inr z' \<and> at_rest z' c' \<and>
       alike m (map_of c') \<and> cache_bytes c' \<le> b" using assms(1) by (auto simp: recovers_def replays_def)
  have "at_rest ?z []" using boot_empty by (simp add: at_rest_def) (simp add: new_client_def)
  from p(2) [OF this] obtain t c where t: "run_commands (handle_command (-1)) cmds ?z = Inr t" "at_rest t c" "alike m (map_of c)" by blast
  then have parse: "parse_and_execute (handle_command (-1)) disk (init_parser, ?z) = Inr (p, t)" by (simp add: scan_run [OF p(1)])
  have c: "db_inv t c" "values_all regular c" using t(2) timeless_regular [of c] by (simp_all add: at_rest_def)
  obtain u where u: "startup (boot clk tick spl fso disk) = Inr u" "core u = core t"
    using startup_parsed [OF parse assms(2) _ c, OF assms(3)] by blast
  then have "db_inv u c" using core_eqD(2) [OF u(2)] t(2) by (simp add: at_rest_def)
  then show ?thesis using u(1) t(3) by blast
qed

section \<open>Runs with a log\<close>

text \<open>Requests and the flushes of the event loop.\<close>

datatype log_step = Serve int "string list" | Flush

fun run_steps :: "log_step list \<Rightarrow> ('z) server_scheme \<Rightarrow> ('z) server_scheme res" where
  "run_steps [] s = Inr s"
| "run_steps (Serve fd args # xs) s = rbind (handle_command fd args s) (run_steps xs)"
| "run_steps (Flush # xs) s = run_steps xs (flush_aof s)"

fun requests_in :: "log_step list \<Rightarrow> (int \<times> string list) list" where
  "requests_in [] = []"
| "requests_in (Serve fd args # xs) = (fd, args) # requests_in xs"
| "requests_in (Flush # xs) = requests_in xs"

lemma requests_in_append [simp]: "requests_in (xs @ ys) = requests_in xs @ requests_in ys"
  by (induction xs rule: requests_in.induct) simp_all

text \<open>Whatever prefix of the log has reached the disk restores one of the maps \<open>H\<close>; all of it restores the current
  map \<open>m\<close>. The bound \<open>b\<close> covers the store, the replayed store and the length of the log.\<close>

definition crash_inv :: "server \<Rightarrow> (string \<rightharpoonup> DrutaValue) set \<Rightarrow> (string \<rightharpoonup> DrutaValue) \<Rightarrow> nat \<Rightarrow> bool" where
  "crash_inv s H m b = (m \<in> H \<and> (\<exists>c. at_rest s c \<and> map_of c = m \<and> cache_bytes c \<le> b) \<and> replays init_parser (aof_log s) m b \<and>
     aof_open s \<and> (\<forall>i. fs_ok s i) \<and> length (aof_log s) \<le> 7 * b \<and>
     (\<forall>n\<ge>length (aof_disk s). \<exists>h\<in>H. recovers (take n (aof_log s)) h b))"

lemma crash_invD:
  assumes "crash_inv s H m b"
  obtains c where "m \<in> H" "at_rest s c" "map_of c = m" "cache_bytes c \<le> b" "replays init_parser (aof_log s) m b" "aof_open s" "\<forall>i. fs_ok s i"
    "length (aof_log s) \<le> 7 * b" "\<And>n. length (aof_disk s) \<le> n \<Longrightarrow> \<exists>h\<in>H. recovers (take n (aof_log s)) h b"
  using assms unfolding crash_inv_def by blast

lemma crash_inv_mono: "crash_inv s H m b \<Longrightarrow> H \<subseteq> H' \<Longrightarrow> crash_inv s H' m b"
  unfolding crash_inv_def by blast

text \<open>Once nothing is pending, only the current map is left.\<close>

lemma crash_inv_flushed: "crash_inv s H m b \<Longrightarrow> aof_pending s = [] \<Longrightarrow> crash_inv s {m} m b"
  by (auto simp: crash_inv_def aof_log_def intro: recoversI)

text \<open>Steps that leave the store and the log, and only move bytes to the disk.\<close>

lemma core_fs: "core t = core s \<Longrightarrow> fs_ok t = fs_ok s"
  by (cases s; cases t) (simp add: core_def)

lemma crash_inv_frame:
  assumes inv: "crash_inv s H m b" and t: "core t = core s" "aof_log t = aof_log s" "length (aof_disk s) \<le> length (aof_disk t)" "aof_open t"
  shows "crash_inv t H m b"
proof -
  show ?thesis using inv core_fs [OF t(1)] t at_rest_core [OF t(1)] by (auto simp: crash_inv_def)
qed

lemma flush_frame:
  "core (flush_aof s) = core s" "length (aof_disk s) \<le> length (aof_disk (flush_aof s))" "aof_open (flush_aof s) = aof_open s"
  by (auto simp: flush_aof_def aof_flush_def steady_now_def Let_def core_def split: option.split)

lemma crash_inv_flush: "crash_inv s H m b \<Longrightarrow> crash_inv (flush_aof s) H m b"
  by (rule crash_inv_frame) (auto simp: flush_frame flush_aof_log elim: crash_invD)

text \<open>Appending a command.\<close>

lemma aof_write_disk: "length (aof_disk s) \<le> length (aof_disk (aof_write txt s))"
  by (simp add: aof_write_def Let_def)

lemma crash_inv_write:
  assumes inv: "crash_inv s H m b" and args: "plain_request args" and run: "effect args m = Inr (n, True)"
    and room: "b + request_bytes args \<le> LRU_MAX_MEMORY"
    and t: "at_rest t c" "map_of c = n" "cache_bytes c \<le> b + request_bytes args" "aof_log t = aof_log s" "aof_disk t = aof_disk s"
      "aof_open t" "fs_ok t = fs_ok s"
  shows "crash_inv (aof_write (format_resp_command args) t) (insert n H) n (b + request_bytes args)"
proof -
  let ?r = "format_resp_command args" and ?b = "b + request_bytes args"
  let ?t = "aof_write ?r t"
  obtain c0 where s: "at_rest s c0" "map_of c0 = m" "replays init_parser (aof_log s) m b" "length (aof_log s) \<le> 7 * b" "\<forall>i. fs_ok s i"
    "m \<in> H" "\<And>n. length (aof_disk s) \<le> n \<Longrightarrow> \<exists>h\<in>H. recovers (take n (aof_log s)) h b" using inv by (rule crash_invD) blast
  have good: "good_map m" using at_rest_good [OF s(1)] s(2) by simp
  have log: "aof_log ?t = aof_log s @ ?r" using t(4) by simp
  have "replays init_parser (aof_log ?t) n ?b"
    unfolding log by (rule replays_snoc [OF s(3) good args run room scan_command [OF plain_args_ok [OF args]]])
  moreover have "length (aof_log ?t) \<le> 7 * ?b"
    using format_length [of args] request_text_size [of args] plain_args_ok [OF args] s(4)
    unfolding log by (cases args) (auto simp: args_ok_def)
  moreover have "aof_open ?t" "fs_ok ?t = fs_ok s" using t(6,7) by (simp_all add: aof_write_def Let_def)
  moreover have "\<exists>h\<in>insert n H. recovers (take i (aof_log ?t)) h ?b" if i: "length (aof_disk ?t) \<le> i" for i
  proof (cases "i \<le> length (aof_log s)")
    case True
    have "length (aof_disk s) \<le> i" using i aof_write_disk [of t ?r] t(5) by simp
    then show ?thesis using s(7) True recovers_mono [of _ _ b ?b] unfolding log by fastforce
  next
    case False
    then have "take i (aof_log ?t) = aof_log s @ take (i - length (aof_log s)) ?r" unfolding log by simp
    then show ?thesis
      using recovers_part [OF s(3) good args run room, of "i - length (aof_log s)"] recovers_mono [of _ m b ?b] s(6) by auto
  qed
  moreover have "at_rest ?t c" using at_rest_core [of ?t t c] t(1) by simp
  ultimately show ?thesis using t(2,3) s(5) by (auto simp: crash_inv_def)
qed

text \<open>The check of the log's size, and the rewrite.\<close>

lemma rewrite_snapshot:
  assumes rest: "at_rest s c" and fs: "\<forall>i. fs_ok s i" and o: "aof_open s"
  shows "\<exists>s'. rewrite_aof s = Inr s' \<and> core s' = core s \<and> aof_open s' \<and>
    aof_log s' = concat (map format_resp_command (rewrite_commands (clock s (ticks s)) c)) \<and> aof_pending s' = []"
proof -
  obtain s' where s': "rewrite_aof s = Inr s'" "core s' = core s"
    "aof_disk s' = concat (map format_resp_command (rewrite_commands (clock s (ticks s)) c))"
    using rewrite_aof_ok [of s c] rest fs timeless_regular [of c] by (auto simp: at_rest_def)
  have "aof_open s' \<and> aof_pending s' = []"
    using s'(1) fs o
    by (auto simp: rewrite_aof_def fs_try_def get_current_time_ms_def aof_close_def aof_flush_def aof_reopen_def
        split: option.splits sum.splits)
  then show ?thesis using s' by (auto simp: aof_log_def)
qed

lemma check_cases:
  assumes "\<forall>i. fs_ok s i"
  shows "(\<exists>t. check_and_rewrite_aof s = Inr t \<and> core t = core s \<and> aof_log t = aof_log s \<and> aof_disk t = aof_disk s \<and> aof_open t = aof_open s) \<or>
    (\<exists>t. check_and_rewrite_aof s = rewrite_aof t \<and> core t = core s \<and> aof_log t = aof_log s \<and> aof_open t = aof_open s)"
  by (auto simp: check_and_rewrite_aof_def steady_now_def fs_try_def Let_def aof_log_def core_def split: option.split)

lemma crash_inv_check:
  assumes inv: "crash_inv s H m b" and b: "b \<le> LRU_MAX_MEMORY"
  shows "\<exists>s'. check_and_rewrite_aof s = Inr s' \<and> crash_inv s' H m b"
proof -
  obtain c where s: "m \<in> H" "at_rest s c" "map_of c = m" "cache_bytes c \<le> b" "aof_open s" "\<forall>i. fs_ok s i"
    using inv by (rule crash_invD) blast
  from check_cases [OF s(6)] show ?thesis
  proof (elim disjE exE conjE)
    fix t assume "check_and_rewrite_aof s = Inr t" "core t = core s" "aof_log t = aof_log s" "aof_disk t = aof_disk s" "aof_open t = aof_open s"
    then show ?thesis using crash_inv_frame [OF inv, of t] s(5) by auto
  next
    fix t assume t: "check_and_rewrite_aof s = rewrite_aof t" "core t = core s" "aof_log t = aof_log s" "aof_open t = aof_open s"
    have fs: "fs_ok t = fs_ok s" by (rule core_fs [OF t(2)])
    have rest: "at_rest t c" using at_rest_core [OF t(2)] s(2) by simp
    obtain u where u: "rewrite_aof t = Inr u" "core u = core t" "aof_open u" "aof_pending u = []"
      "aof_log u = concat (map format_resp_command (rewrite_commands (clock t (ticks t)) c))"
      using rewrite_snapshot [OF rest] fs s(5,6) t(4) by auto
    have rep: "replays init_parser (aof_log u) m b"
      unfolding u(5) using replays_weaken [OF replays_snapshot [OF rest] s(4)] s(3) by simp
    have "\<forall>e\<in>set c. value_ok (snd e) \<and> restorable e" using rest timeless_restorable [of c] by (auto simp: at_rest_def db_inv_def)
    then have "length (aof_log u) \<le> 7 * b" unfolding u(5) using rewrite_text_length [of c] s(4) by (meson le_trans mult_le_mono2)
    moreover have "at_rest u c" "fs_ok u = fs_ok s" using at_rest_core [OF u(2)] core_fs [OF u(2)] rest fs by simp_all
    ultimately show ?thesis using t(1) u(1,3,4) rep s by (auto simp: crash_inv_def aof_log_def intro: recoversI)
  qed
qed

lemma aof_frame:
  fixes s s' :: "('z) server_scheme"
  assumes "io_state.more s' = io_state.more (upd_client fd id s)"
  shows "aof_log s' = aof_log s" "aof_disk s' = aof_disk s" "aof_open s' = aof_open s" "fs_ok s' = fs_ok s"
  using assms by (cases s; cases s'; simp add: upd_client_def aof_log_def)+

lemma crash_inv_request:
  assumes inv: "crash_inv s H m b" and args: "plain_request args" and fd: "fd \<noteq> -1"
    and room: "b + request_bytes args \<le> LRU_MAX_MEMORY" and over: "\<not> overwrites args m" and run: "effect args m = Inr (n, ok)"
  shows "\<exists>s'. handle_command fd args s = Inr s' \<and> crash_inv s' (insert n H) n (b + request_bytes args)"
proof -
  let ?b = "b + request_bytes args"
  obtain c where s: "at_rest s c" "map_of c = m" "cache_bytes c \<le> b" "replays init_parser (aof_log s) m b" "aof_open s" "\<forall>i. fs_ok s i"
    "length (aof_log s) \<le> 7 * b" "\<And>n. length (aof_disk s) \<le> n \<Longrightarrow> \<exists>h\<in>H. recovers (take n (aof_log s)) h b"
    using inv by (rule crash_invD) blast
  have good: "good_map m" using at_rest_good [OF s(1)] s(2) by simp
  have "cache_bytes c + request_bytes args \<le> LRU_MAX_MEMORY" using s(3) room by simp
  from request_effect [OF s(1) args this, of fd] run s(2)
  obtain s1 c1 where s1: "handle_command fd args s = logged fd args (s1, ok)" "at_rest s1 c1" "map_of c1 = n"
    "cache_bytes c1 \<le> cache_bytes c + request_bytes args" "io_state.more s1 = io_state.more (upd_client fd id s)" by auto
  note frame = aof_frame [OF s1(5)]
  have c1: "cache_bytes c1 \<le> ?b" using s1(4) s(3) by simp
  show ?thesis
  proof (cases ok)
    case True
    have cmd: "toupper (args ! 0) \<in> set aof_commands" using run True effect_read [of args m] by auto
    have ne: "args \<noteq> []" using plain_args_ok [OF args] by (simp add: args_ok_def)
    have "sum_list (map (\<lambda>a. length a + 16) args) + 80 < 2 ^ 31"
      using request_text_size [of args] room by (simp add: LRU_MAX_MEMORY_def)
    then have app: "append_to_aof args s1 = Inr (aof_write (format_resp_command args) s1)"
      using ne cmd frame(3) s(5) by (simp add: append_to_aof_def format_command_ok is_valid_iff hd_conv_nth)
    have "crash_inv (aof_write (format_resp_command args) s1) (insert n H) n ?b"
      using crash_inv_write [OF inv args _ room s1(2,3) c1 frame(1,2) _ frame(4)] run True frame(3) s(5) by simp
    from crash_inv_check [OF this room] show ?thesis using s1(1) app fd True by (auto simp: logged_def)
  next
    case False
    have "alike m m' \<Longrightarrow> alike n m'" for m' using effect_quiet [OF _ good over] run False by simp
    then have "replays init_parser (aof_log s) n ?b" using replays_weaken [OF s(4), of ?b n] by simp
    moreover have "\<exists>h\<in>insert n H. recovers (take i (aof_log s)) h ?b" if "length (aof_disk s) \<le> i" for i
      using s(8) [OF that] recovers_mono [of _ _ b ?b] by auto
    ultimately have "crash_inv s1 (insert n H) n ?b"
      using s1(2,3) c1 s(5-7) frame by (auto simp: crash_inv_def)
    then show ?thesis using s1(1) False by (simp add: logged_def)
  qed
qed

text \<open>The maps between the requests of a run.\<close>

definition moments :: "string list list \<Rightarrow> (string \<rightharpoonup> DrutaValue) \<Rightarrow> (string \<rightharpoonup> DrutaValue) set" where
  "moments cmds m = {h. \<exists>i\<le>length cmds. effects (take i cmds) m = Inr h}"

lemma moments_Nil [simp]: "moments [] m = {m}"
  by (auto simp: moments_def)

lemma moments_start: "m \<in> moments cmds m"
  unfolding moments_def by (intro CollectI exI [of _ 0]) simp

lemma moments_Cons: "effect args m = Inr (n, ok) \<Longrightarrow> moments (args # cmds) m = insert m (moments cmds n)"
proof (intro set_eqI)
  fix h assume e: "effect args m = Inr (n, ok)"
  show "h \<in> moments (args # cmds) m \<longleftrightarrow> h \<in> insert m (moments cmds n)"
  proof
    assume "h \<in> moments (args # cmds) m"
    then obtain i where "i \<le> Suc (length cmds)" "effects (take i (args # cmds)) m = Inr h" by (auto simp: moments_def)
    then show "h \<in> insert m (moments cmds n)" using e by (cases i) (auto simp: moments_def)
  next
    assume "h \<in> insert m (moments cmds n)"
    then consider "h = m" | i where "i \<le> length cmds" "effects (take i cmds) n = Inr h" by (auto simp: moments_def)
    then show "h \<in> moments (args # cmds) m"
    proof cases
      case 1
      then show ?thesis unfolding moments_def by (intro CollectI exI [of _ 0]) simp
    next
      case 2
      then show ?thesis using e unfolding moments_def by (intro CollectI exI [of _ "Suc i"]) simp
    qed
  qed
qed

lemma run_crash_inv:
  assumes "crash_inv s H m b" "\<forall>(fd, args)\<in>set (requests_in xs). fd \<noteq> -1 \<and> plain_request args"
    "b + requests_bytes (requests_in xs) \<le> LRU_MAX_MEMORY" "lossless (map snd (requests_in xs)) m" "run_steps xs s = Inr s'"
  shows "\<exists>m'. effects (map snd (requests_in xs)) m = Inr m' \<and>
    crash_inv s' (H \<union> moments (map snd (requests_in xs)) m) m' (b + requests_bytes (requests_in xs))"
  using assms
proof (induction xs arbitrary: s H m b rule: requests_in.induct)
  case 1
  then have "insert m H = H" by (auto simp: crash_inv_def)
  then show ?case using 1 by simp
next
  case (2 fd args xs)
  have args: "fd \<noteq> -1" "plain_request args" "\<not> overwrites args m" "b + request_bytes args \<le> LRU_MAX_MEMORY" using 2(3-5) by simp_all
  show ?case
  proof (cases "effect args m")
    case (Inl e)
    obtain c where c: "at_rest s c" "map_of c = m" "cache_bytes c \<le> b" using 2(2) by (rule crash_invD) blast
    have "cache_bytes c + request_bytes args \<le> LRU_MAX_MEMORY" using c(3) args(4) by simp
    from request_effect [OF c(1) args(2) this, of fd] Inl c(2) 2(6) show ?thesis by simp
  next
    case (Inr q)
    obtain n ok where q: "q = (n, ok)" by (cases q)
    then have e: "effect args m = Inr (n, ok)" using Inr by simp
    obtain s1 where s1: "handle_command fd args s = Inr s1" "crash_inv s1 (insert n H) n (b + request_bytes args)"
      using crash_inv_request [OF 2(2) args(2,1,4,3) e] by blast
    obtain m' where m': "effects (map snd (requests_in xs)) n = Inr m'"
      "crash_inv s' (insert n H \<union> moments (map snd (requests_in xs)) n) m' (b + request_bytes args + requests_bytes (requests_in xs))"
      using 2(1) [OF s1(2)] 2(3-6) s1(1) e by (auto simp: add.assoc)
    have "m \<in> H" "n \<in> moments (map snd (requests_in xs)) n" using 2(2) by (auto simp: crash_inv_def moments_def intro: exI [of _ 0])
    then have "insert n H \<union> moments (map snd (requests_in xs)) n = H \<union> moments (args # map snd (requests_in xs)) m"
      by (auto simp: moments_Cons [OF e])
    then show ?thesis using m' e by (simp add: add.assoc)
  qed
next
  case (3 xs)
  then show ?case using 3(1) [OF crash_inv_flush] by simp
qed

lemma effects_append: "effects (xs @ ys) m = rbind (effects xs m) (effects ys)"
proof (induction xs arbitrary: m)
  case (Cons a xs)
  then show ?case by (cases "effect a m") auto
qed simp

lemma lossless_append: "lossless (xs @ ys) m \<Longrightarrow> lossless xs m \<and> (\<forall>m'. effects xs m = Inr m' \<longrightarrow> lossless ys m')"
proof (induction xs arbitrary: m)
  case (Cons a xs)
  then show ?case by (cases "effect a m") auto
qed simp

lemma crash_inv_boot:
  assumes "startup (boot clk tick spl (\<lambda>_. True) []) = Inr s"
  shows "crash_inv s {Map.empty} Map.empty 0" "aof_pending s = []"
proof -
  let ?b = "boot clk tick spl (\<lambda>_. True) []"
  have z: "at_rest (?b\<lparr>fs_ticks := n\<rparr>) []" for n using boot_empty by (simp add: at_rest_def) (simp add: new_client_def)
  have s: "s = ?b\<lparr>fs_ticks := 2\<rparr>"
    using assms by (auto simp: startup_def replay_aof_def fs_try_def boot_def Let_def to_int32_small numeral_2_eq_2)
  have "core s = core (?b\<lparr>fs_ticks := 2\<rparr>)" by (simp add: s core_def)
  then have "at_rest s []" using at_rest_core z by blast
  moreover have "aof_log s = []" "aof_open s" "fs_ok s = (\<lambda>_. True)" "aof_disk s = []" by (simp_all add: s boot_def aof_log_def)
  ultimately show "crash_inv s {Map.empty} Map.empty 0" using replays_Nil by (auto simp: crash_inv_def intro!: exI [of _ "[]"] recoversI)
  show "aof_pending s = []" by (simp add: s boot_def)
qed

section \<open>Properties\<close>

text \<open>
  \<^bold>\<open>C4\<close>. Crash recovery: a server that started with an empty log handles any plain
  requests that fit in memory together, its loop flushing as its clock says and its log being rewritten
  whenever that is due, on a file system that does not fail, and is then stopped at any point, with all, part or nothing of the pending
  output on disk, even in the middle of a command. The process that starts on this file has the map after
  the first \<open>i\<close> requests for some \<open>i\<close>, and nothing handled before the log was last written out is lost.
  What a rewrite does not store, the keys of empty lists, hashes and sets, may be missing, and hashes are
  equal as maps. The hypothesis on HSET is needed: a call that only overwrites fields is not logged.
\<close>

theorem crash_recovers_prefix:
  assumes "startup (boot clk tick spl (\<lambda>_. True) []) = Inr s0"
    "run_steps before s0 = Inr s1" "aof_pending s1 = []" "run_steps after s1 = Inr s"
    "\<forall>(fd, args)\<in>set (requests_in (before @ after)). fd \<noteq> -1 \<and> plain_request args"
    "requests_bytes (requests_in (before @ after)) \<le> LRU_MAX_MEMORY"
    "lossless (map snd (requests_in (before @ after))) Map.empty"
    "length (aof_disk s) \<le> n" "fso 1"
  shows "\<exists>i m t c. length (requests_in before) \<le> i \<and> i \<le> length (requests_in (before @ after)) \<and>
    effects (take i (map snd (requests_in (before @ after)))) Map.empty = Inr m \<and>
    startup (boot clk' tick' spl' fso (take n (aof_log s))) = Inr t \<and> db_inv t c \<and> alike m (map_of c)"
proof -
  let ?b = "map snd (requests_in before)" and ?a = "map snd (requests_in after)"
  let ?nb = "requests_bytes (requests_in before)" and ?na = "requests_bytes (requests_in after)"
  have all: "\<forall>(fd, args)\<in>set (requests_in before). fd \<noteq> -1 \<and> plain_request args"
    "\<forall>(fd, args)\<in>set (requests_in after). fd \<noteq> -1 \<and> plain_request args" "?nb + ?na \<le> LRU_MAX_MEMORY"
    "lossless ?b Map.empty" "\<And>m. effects ?b Map.empty = Inr m \<Longrightarrow> lossless ?a m"
    using assms(5-7) lossless_append [of ?b ?a] by (auto simp: requests_bytes_def)
  obtain m1 where m1: "effects ?b Map.empty = Inr m1" "crash_inv s1 ({Map.empty} \<union> moments ?b Map.empty) m1 ?nb"
    using run_crash_inv [OF crash_inv_boot(1) [OF assms(1)] all(1) _ all(4) assms(2)] all(3) by auto
  have "crash_inv s1 {m1} m1 ?nb" using crash_inv_flushed [OF m1(2) assms(3)] .
  from run_crash_inv [OF this all(2,3) all(5) [OF m1(1)] assms(4)]
  have inv: "\<exists>m2. crash_inv s ({m1} \<union> moments ?a m1) m2 (?nb + ?na)" by blast
  then obtain h where h: "h = m1 \<or> h \<in> moments ?a m1" "recovers (take n (aof_log s)) h (?nb + ?na)"
    using assms(8) by (fastforce simp: crash_inv_def)
  have len: "length (take n (aof_log s)) < 2 ^ 31" using inv all(3) by (auto simp: crash_inv_def LRU_MAX_MEMORY_def)
  obtain j where j: "j \<le> length ?a" "effects (take j ?a) m1 = Inr h" 
    using h(1) moments_start [of m1 ?a] by (auto simp: moments_def)
  obtain t c where t: "startup (boot clk' tick' spl' fso (take n (aof_log s))) = Inr t" "db_inv t c" "alike h (map_of c)"
    using recovers_startup [where fso = fso, OF h(2) len assms(9)] by blast
  have "effects (take (length ?b + j) (?b @ ?a)) Map.empty = Inr h" using m1(1) j(2) by (simp add: effects_append)
  then show ?thesis using j(1) t by (intro exI [of _ "length ?b + j"] exI [of _ h] exI [of _ t] exI [of _ c]) simp
qed

theorem crash_recovers_prefix_witness:
  "\<exists>s0 s i m t c. startup (boot (\<lambda>_. 0) (\<lambda>_. 0) (\<lambda>_. 3) (\<lambda>_. True) []) = Inr s0 \<and>
     run_steps [Serve 5 [''SET'', ''a'', ''1''], Flush, Serve 6 [''RPUSH'', ''l'', ''x'', ''y'']] s0 = Inr s \<and>
     i \<le> 2 \<and> effects (take i [[''SET'', ''a'', ''1''], [''RPUSH'', ''l'', ''x'', ''y'']]) Map.empty = Inr m \<and>
     startup (boot (\<lambda>_. 0) (\<lambda>_. 0) (\<lambda>_. 3) (\<lambda>_. True) (aof_disk s)) = Inr t \<and> db_inv t c \<and> alike m (map_of c)"
proof -
  let ?rs = "[[''SET'', ''a'', ''1''], [''RPUSH'', ''l'', ''x'', ''y'']]"
  let ?xs = "[Serve 5 [''SET'', ''a'', ''1''], Flush, Serve 6 [''RPUSH'', ''l'', ''x'', ''y'']]"
  let ?boot = "boot (\<lambda>_. 0) (\<lambda>_. 0) (\<lambda>_. 3) (\<lambda>_. True)"
  have "\<exists>s0. startup (?boot []) = Inr s0"
    by (simp add: startup_def replay_aof_def fs_try_def boot_def Let_def to_int32_small REWRITE_THRESHOLD_def)
  then obtain s0 where s0: "startup (?boot []) = Inr s0" by blast
  note inv = crash_inv_boot [OF s0]
  have plain: "\<forall>(fd, args)\<in>set (requests_in ?xs). fd \<noteq> -1 \<and> plain_request args"
    "requests_bytes (requests_in ?xs) \<le> LRU_MAX_MEMORY" by (simp_all add: plain_sample LRU_MAX_MEMORY_def)
  have eff: "effect [''SET'', ''a'', ''1''] Map.empty = Inr ([''a'' \<mapsto> new_string ''1'' 0], True)"
    "effect [''RPUSH'', ''l'', ''x'', ''y''] [''a'' \<mapsto> new_string ''1'' 0] =
       Inr ([''a'' \<mapsto> new_string ''1'' 0, ''l'' \<mapsto> new_list [''x'', ''y''] 0], True)"
    by (simp_all add: effect_def push_effect_def typed_effect_def push_all_def)
  have loss: "lossless (map snd (requests_in ?xs)) Map.empty" using eff by (simp add: overwrites_def)
  let ?m = "[''a'' \<mapsto> new_string ''1'' 0]"
  have room: "0 + request_bytes [''SET'', ''a'', ''1''] \<le> LRU_MAX_MEMORY"
    "(0 + request_bytes [''SET'', ''a'', ''1'']) + request_bytes [''RPUSH'', ''l'', ''x'', ''y''] \<le> LRU_MAX_MEMORY"
    by (simp_all add: LRU_MAX_MEMORY_def)
  obtain s1 where s1: "handle_command 5 [''SET'', ''a'', ''1''] s0 = Inr s1"
    "crash_inv s1 {?m, Map.empty} ?m (0 + request_bytes [''SET'', ''a'', ''1''])"
    using crash_inv_request [OF inv(1) plain_sample(1) _ room(1) _ eff(1), of 5] by (auto simp: overwrites_def)
  obtain s where "handle_command 6 [''RPUSH'', ''l'', ''x'', ''y''] (flush_aof s1) = Inr s"
    using crash_inv_request [OF crash_inv_flush [OF s1(2)] plain_sample(2) _ room(2) _ eff(2), of 6] by (auto simp: overwrites_def)
  then have s: "run_steps ?xs s0 = Inr s" using s1(1) by simp
  have start: "run_steps [] s0 = Inr s0" by simp
  have all: "\<forall>(fd, args)\<in>set (requests_in ([] @ ?xs)). fd \<noteq> -1 \<and> plain_request args"
    "requests_bytes (requests_in ([] @ ?xs)) \<le> LRU_MAX_MEMORY" "lossless (map snd (requests_in ([] @ ?xs))) Map.empty"
    using plain loss by simp_all
  obtain i m t c where "i \<le> 2" "effects (take i ?rs) Map.empty = Inr m"
    "startup (?boot (take (length (aof_disk s)) (aof_log s))) = Inr t" "db_inv t c" "alike m (map_of c)"
    using crash_recovers_prefix [where fso = "\<lambda>_. True", OF s0 start inv(2) s all le_refl TrueI, of "\<lambda>_. 0" "\<lambda>_. 0" "\<lambda>_. 3"]
    by (auto simp: numeral_2_eq_2)
  moreover have "take (length (aof_disk s)) (aof_log s) = aof_disk s" by (simp add: aof_log_def)
  ultimately show ?thesis using s0 s by metis
qed

end
