(* ===== verification/Aof_Path.thy ===== *)
theory Aof_Path
  imports Druta_Prelude
begin

text \<open>
  Where the log lives (\<open>init_aof_paths\<close>, \<open>get_aof_path\<close> of \<open>aof.cpp\<close>). The first call, made while the
  statics of the process are initialised, derives the paths from the working directory and keeps them;
  later calls return what is kept. Absolute paths are the lists of their components, the root the empty
  list. The working directory and the outcome of \<open>create_directory\<close> are what the file system answers at
  the call: \<open>None\<close> and \<open>False\<close> are the cases in which the library throws.
\<close>

section \<open>Paths\<close>

type_synonym path = "string list"

definition filename :: "path \<Rightarrow> string" where
  "filename p = (if p = [] then [] else last p)"

definition parent_path :: "path \<Rightarrow> path" where
  "parent_path p = butlast p"

text \<open>The two statics; \<open>None\<close> is the empty path they are initialised with.\<close>

record aof_paths =
  cached_aof_path :: "path option"
  cached_temp_aof_path :: "path option"

definition fresh_paths :: aof_paths where
  "fresh_paths = \<lparr>cached_aof_path = None, cached_temp_aof_path = None\<rparr>"

definition build_folders :: "string list" where
  "build_folders = [''build'', ''cmake-build-debug'', ''bin'']"

definition init_aof_paths :: "path option \<Rightarrow> (path \<Rightarrow> bool) \<Rightarrow> ('z) aof_paths_scheme \<Rightarrow> ('z) aof_paths_scheme res" where
  "init_aof_paths current_path create_directory s = (case current_path of
     None \<Rightarrow> Inl Uncaught_exception
   | Some dir \<Rightarrow>
       let p = (if filename dir \<in> set build_folders then parent_path dir else dir) in
       if \<not> create_directory (p @ [''data'']) then Inl Uncaught_exception
       else Inr (s\<lparr>cached_aof_path := Some (p @ [''data''] @ [''drutadb.aof'']),
                   cached_temp_aof_path := Some (p @ [''data''] @ [''drutadb.aof.tmp''])\<rparr>))"

definition get_aof_path :: "bool \<Rightarrow> path option \<Rightarrow> (path \<Rightarrow> bool) \<Rightarrow> ('z) aof_paths_scheme \<Rightarrow> (path option \<times> ('z) aof_paths_scheme) res" where
  "get_aof_path is_temp current_path create_directory s =
     rbind (if cached_aof_path s = None then init_aof_paths current_path create_directory s else Inr s) (\<lambda>s1.
       Inr (if is_temp then cached_temp_aof_path s1 else cached_aof_path s1, s1))"

text \<open>A sequence of calls, each with what the file system answers at that time.\<close>

fun get_aof_paths :: "(bool \<times> path option \<times> (path \<Rightarrow> bool)) list \<Rightarrow> ('z) aof_paths_scheme \<Rightarrow> (path option list \<times> ('z) aof_paths_scheme) res" where
  "get_aof_paths [] s = Inr ([], s)"
| "get_aof_paths ((is_temp, current_path, create_directory) # calls) s =
     rbind (get_aof_path is_temp current_path create_directory s) (\<lambda>(p, s1).
     rbind (get_aof_paths calls s1) (\<lambda>(ps, s2). Inr (p # ps, s2)))"

section \<open>The paths stay\<close>

definition project_dir :: "path \<Rightarrow> path" where
  "project_dir dir = (if filename dir \<in> set build_folders then parent_path dir else dir)"

lemma project_dir_cases: "project_dir dir = dir \<or> (\<exists>f\<in>set build_folders. dir = project_dir dir @ [f])"
proof (cases "filename dir \<in> set build_folders")
  case True
  then have "dir \<noteq> []" by (auto simp: build_folders_def filename_def split: if_splits)
  then have "dir = parent_path dir @ [filename dir]" by (simp add: parent_path_def filename_def)
  then show ?thesis using True by (auto simp: project_dir_def)
qed (simp add: project_dir_def)

lemma get_cached:
  assumes "cached_aof_path s = Some p" "cached_temp_aof_path s = Some t"
  shows "get_aof_paths calls s = Inr (map (\<lambda>(is_temp, _). Some (if is_temp then t else p)) calls, s)"
  using assms by (induction calls) (auto simp: get_aof_path_def)

lemma get_first:
  "get_aof_path is_temp cwd mkdir fresh_paths = Inr (q, s) \<longleftrightarrow> (\<exists>dir. cwd = Some dir \<and> mkdir (project_dir dir @ [''data'']) \<and>
     s = \<lparr>cached_aof_path = Some (project_dir dir @ [''data'', ''drutadb.aof'']),
          cached_temp_aof_path = Some (project_dir dir @ [''data'', ''drutadb.aof.tmp''])\<rparr> \<and>
     q = Some (project_dir dir @ [''data'', if is_temp then ''drutadb.aof.tmp'' else ''drutadb.aof'']))"
proof (cases cwd)
  case None
  then show ?thesis by (simp add: get_aof_path_def init_aof_paths_def fresh_paths_def)
next
  case (Some dir)
  let ?s = "\<lparr>cached_aof_path = Some (project_dir dir @ [''data'', ''drutadb.aof'']),
    cached_temp_aof_path = Some (project_dir dir @ [''data'', ''drutadb.aof.tmp''])\<rparr>"
  have "init_aof_paths cwd mkdir fresh_paths = (if mkdir (project_dir dir @ [''data'']) then Inr ?s else Inl Uncaught_exception)"
    using Some by (simp add: init_aof_paths_def fresh_paths_def project_dir_def Let_def)
  then show ?thesis using Some by (cases is_temp) (auto simp: get_aof_path_def fresh_paths_def [THEN arg_cong, of cached_aof_path])
qed

section \<open>Properties\<close>

text \<open>
  \<^bold>\<open>C35\<close>. All parts of the log code use the same two files: if the first use of the log's path
  succeeds, then every later one returns the same path, log or temporary file as asked, whatever the working
  directory is by then and without touching the file system; both files are in one directory, which exists,
  so that a rewrite renames within it; and that directory belongs to the project, whether the process was
  started in the project's directory or in one of its build folders.
\<close>

theorem log_path_fixed:
  assumes "get_aof_path False (Some dir) create_directory fresh_paths = Inr (first, s)"
  shows "\<exists>project data. (project = dir \<or> (\<exists>folder\<in>set build_folders. dir = project @ [folder])) \<and>
    data = project @ [''data''] \<and> create_directory data \<and> first = Some (data @ [''drutadb.aof'']) \<and>
    get_aof_paths calls s =
      Inr (map (\<lambda>(is_temp, _). Some (data @ [if is_temp then ''drutadb.aof.tmp'' else ''drutadb.aof''])) calls, s) \<and>
    (\<forall>folder\<in>set build_folders. get_aof_path False (Some (project @ [folder])) create_directory fresh_paths = Inr (first, s))"
proof -
  let ?p = "project_dir dir"
  from assms have s: "create_directory (?p @ [''data''])" "first = Some (?p @ [''data'', ''drutadb.aof''])"
    "s = \<lparr>cached_aof_path = Some (?p @ [''data'', ''drutadb.aof'']), cached_temp_aof_path = Some (?p @ [''data'', ''drutadb.aof.tmp''])\<rparr>"
    by (simp_all add: get_first)
  have "project_dir (?p @ [folder]) = ?p" if "folder \<in> set build_folders" for folder
    using that by (simp add: project_dir_def [of "_ @ _"] filename_def parent_path_def)
  then have "\<forall>folder\<in>set build_folders. get_aof_path False (Some (?p @ [folder])) create_directory fresh_paths = Inr (first, s)"
    using s by (simp add: get_first)
  moreover have "get_aof_paths calls s =
      Inr (map (\<lambda>(is_temp, _). Some ((?p @ [''data'']) @ [if is_temp then ''drutadb.aof.tmp'' else ''drutadb.aof''])) calls, s)"
    by (subst get_cached) (auto simp: s(3))
  ultimately show ?thesis using project_dir_cases [of dir] s(1,2) by (intro exI [of _ ?p] exI [of _ "?p @ [''data'']"]) simp
qed

theorem log_path_fixed_witness:
  "\<exists>s. get_aof_path False (Some [''srv'', ''build'']) (\<lambda>_. True) fresh_paths = Inr (Some [''srv'', ''data'', ''drutadb.aof''], s) \<and>
     get_aof_paths [(True, None, \<lambda>_. False), (False, Some [], \<lambda>_. False)] s =
       Inr ([Some [''srv'', ''data'', ''drutadb.aof.tmp''], Some [''srv'', ''data'', ''drutadb.aof'']], s)"
proof -
  have "project_dir [''srv'', ''build''] = [''srv'']" by code_simp
  then have "\<exists>s. get_aof_path False (Some [''srv'', ''build'']) (\<lambda>_. True) fresh_paths = Inr (Some [''srv'', ''data'', ''drutadb.aof''], s)"
    by (simp add: get_first)
  then obtain s where s: "get_aof_path False (Some [''srv'', ''build'']) (\<lambda>_. True) fresh_paths =
    Inr (Some [''srv'', ''data'', ''drutadb.aof''], s)" by blast
  let ?calls = "[(True, None, \<lambda>_ :: path. False), (False, Some ([] :: path), \<lambda>_. False)]"
  obtain data where "Some [''srv'', ''data'', ''drutadb.aof''] = Some (data @ [''drutadb.aof''])"
    "get_aof_paths ?calls s =
       Inr (map (\<lambda>(is_temp, _). Some (data @ [if is_temp then ''drutadb.aof.tmp'' else ''drutadb.aof''])) ?calls, s)"
    using log_path_fixed [OF s, of ?calls] by blast
  moreover from this(1) have "data = [''srv'', ''data'']" by (cases data rule: rev_cases) auto
  ultimately show ?thesis using s by auto
qed

end
