(* ===== verification/Expiry.thy ===== *)
theory Expiry
  imports Recovery
begin

text \<open>
  Which values can expire. Only SET writes expiry times; the other handlers create values without one and
  change the contents of a value they found under the right type. So in every state of the process, whatever
  the clocks say, lists, hashes and sets have no expiry time. The property is one of the nodes of the heap
  alone, and is carried through the primitive operations, the handlers, the parser and the steps.
\<close>

section \<open>Values and nodes without an expiry time\<close>

definition untimed :: "DrutaValue \<Rightarrow> bool" where
  "untimed v = (case data v of DString _ \<Rightarrow> True | _ \<Rightarrow> expiry_time v = 0)"

definition dateless :: "('z) lru_state_scheme \<Rightarrow> bool" where
  "dateless s = (\<forall>a n. heap s a = Some n \<longrightarrow> untimed (node_value n))"

lemma datelessD: "dateless s \<Longrightarrow> heap s a = Some n \<Longrightarrow> untimed (node_value n)"
  by (simp add: dateless_def)

lemma dateless_deref: "dateless s \<Longrightarrow> deref a s = Inr n \<Longrightarrow> untimed (node_value n)"
  by (auto simp: dateless_def deref_def split: option.splits)

lemma dateless_cong: "heap s' = heap s \<Longrightarrow> dateless s' = dateless s"
  by (simp add: dateless_def)

lemma dateless_fields [simp]:
  "dateless (s\<lparr>TAIL := t\<rparr>) = dateless s" "dateless (s\<lparr>HEAD := t\<rparr>) = dateless s" "dateless (s\<lparr>lru_size := n\<rparr>) = dateless s"
  "dateless (s\<lparr>current_memory_usage := m\<rparr>) = dateless s"
  by (simp_all add: dateless_def)

lemma dateless_io [simp]:
  "dateless (s\<lparr>ticks := i\<rparr>) = dateless s" "dateless (send fd msg s) = dateless s" "dateless (send_integer fd j s) = dateless s"
  by (simp_all add: dateless_def send_integer_eq)

lemma untimed_new [simp]: "untimed (new_string x e)" "untimed (new_empty t)"
  by (cases t; simp add: untimed_def new_string_def new_empty_def)+

lemma untimed_empty [simp]: "untimed ((new_empty t)\<lparr>data := d, memory_usage := m\<rparr>)"
  by (cases t; cases d; simp add: untimed_def new_empty_def)

text \<open>New contents of the same kind.\<close>

lemma untimed_data:
  assumes "untimed v"
  shows "get_list v = Inr l \<Longrightarrow> untimed (v\<lparr>data := DList l', memory_usage := m\<rparr>)"
    "get_set v = Inr t \<Longrightarrow> untimed (v\<lparr>data := DSet t', memory_usage := m\<rparr>)"
    "get_dhash v = Inr h \<Longrightarrow> untimed (v\<lparr>data := DHash h', memory_usage := m\<rparr>)"
    "get_dhash v = Inr h \<Longrightarrow> untimed (v\<lparr>data := DHash h'\<rparr>)"
  using assms by (auto simp: untimed_def get_list_def get_set_def get_dhash_def split: value_data.splits)

section \<open>The primitive operations\<close>

lemma upd_node_dateless:
  assumes "upd_node a f s = Inr s'" "dateless s" "\<And>n. deref a s = Inr n \<Longrightarrow> untimed (node_value (f n))"
  shows "dateless s'"
  using assms by (auto simp: upd_node_def dateless_def split: if_splits)

lemma links_dateless:
  assumes "upd_node a f s = Inr s'" "dateless s" "\<And>n. node_value (f n) = node_value n"
  shows "dateless s'"
  using assms(1,2) by (rule upd_node_dateless) (auto simp: assms(3) dest: dateless_deref [OF assms(2)])

lemma detach_dateless: "detach a s = Inr s' \<Longrightarrow> dateless s \<Longrightarrow> dateless s'"
  by (auto simp: detach_def Let_def split: option.splits dest!: links_dateless)

lemma attach_dateless: "attach_head a s = Inr s' \<Longrightarrow> dateless s \<Longrightarrow> dateless s'"
  by (auto simp: attach_head_def split: option.splits dest!: links_dateless)

lemma erase_dateless [simp]: "dateless s \<Longrightarrow> dateless (kv_erase k s)"
  by (auto simp: kv_erase_def dateless_def split: option.splits)

lemma evict_dateless: "evict_lru s = Inr s' \<Longrightarrow> dateless s \<Longrightarrow> dateless s'"
  by (auto simp: evict_lru_def Let_def split: option.splits dest!: detach_dateless)

lemma loop_dateless:
  assumes "evict_loop s = Inr s'" "dateless s"
  shows "dateless s'"
proof -
  obtain r where r: "while_option (\<lambda>r. case r of Inl e \<Rightarrow> False | Inr t \<Rightarrow> over_limit t) (\<lambda>r. rbind r evict_lru) (Inr s) = Some r"
    "r = Inr s'" using assms(1) by (auto simp: evict_loop_def split: option.splits)
  have "guarded UNIV dateless r"
    by (rule while_option_rule [OF _ r(1)]) (use assms(2) evict_dateless in \<open>auto simp: guarded_def split: sum.splits\<close>)
  then show ?thesis using r(2) by simp
qed

lemma touch_dateless: "touch_lru a s = Inr s' \<Longrightarrow> dateless s \<Longrightarrow> dateless s'"
  by (auto simp: touch_lru_def split: if_splits dest!: detach_dateless attach_dateless)

lemma notify_dateless: "notify_memory_change old new s = Inr s' \<Longrightarrow> dateless s \<Longrightarrow> dateless s'"
  unfolding notify_memory_change_def by (drule loop_dateless) (simp_all add: Let_def)

lemma add_dateless: "add_lru a s = Inr s' \<Longrightarrow> dateless s \<Longrightarrow> dateless s'"
  by (auto simp: add_lru_def dest!: attach_dateless loop_dateless)

lemma remove_dateless: "remove_from_lru a s = Inr s' \<Longrightarrow> dateless s \<Longrightarrow> dateless s'"
  by (auto simp: remove_from_lru_def dest!: detach_dateless)

lemma insert_dateless: "insert_node k v s = (s', a) \<Longrightarrow> dateless s \<Longrightarrow> untimed v \<Longrightarrow> dateless s'"
  by (auto simp: insert_node_def Let_def dateless_def new_node_def split: option.splits if_splits)

lemmas primitives_dateless = detach_dateless attach_dateless touch_dateless notify_dateless add_dateless remove_dateless

section \<open>The handlers\<close>

text \<open>Whatever a handler returns with, the nodes are still without expiry times.\<close>

definition ends_dateless :: "(('z) lru_state_scheme \<times> 'b) res \<Rightarrow> bool" where
  "ends_dateless r = guarded UNIV (\<lambda>(s', b). dateless s') r"

lemma ends_simps [simp]: "ends_dateless (Inl e)" "ends_dateless (Inr (s, b)) = dateless s"
  by (simp_all add: ends_dateless_def)

lemma ends_rbind: "(\<And>x. r = Inr x \<Longrightarrow> ends_dateless (f x)) \<Longrightarrow> ends_dateless (rbind r f)"
  by (cases r) simp_all

lemma ends_if: "(b \<Longrightarrow> ends_dateless x) \<Longrightarrow> (\<not> b \<Longrightarrow> ends_dateless y) \<Longrightarrow> ends_dateless (if b then x else y)"
  by simp

lemma ends_type:
  assumes "dateless s" "kv_store s k = None \<Longrightarrow> ends_dateless m"
    "\<And>a n. deref a s = Inr n \<Longrightarrow> untimed (node_value n) \<Longrightarrow> ends_dateless (f a n)"
  shows "ends_dateless (with_type t k fd s m f)"
  using assms dateless_deref [OF assms(1)] unfolding with_type_def
  by (auto intro!: ends_rbind split: option.split)

text \<open>A node's contents replaced by contents of the same kind.\<close>

lemma data_dateless:
  assumes "dateless s" "deref a s = Inr n"
  shows "upd_node a (\<lambda>n. n\<lparr>node_value := (node_value n)\<lparr>data := DList l', memory_usage := g n\<rparr>\<rparr>) s = Inr s' \<Longrightarrow>
      get_list (node_value n) = Inr l \<Longrightarrow> dateless s'"
    "upd_node a (\<lambda>n. n\<lparr>node_value := (node_value n)\<lparr>data := DSet t', memory_usage := g n\<rparr>\<rparr>) s = Inr s' \<Longrightarrow>
      get_set (node_value n) = Inr t \<Longrightarrow> dateless s'"
    "upd_node a (\<lambda>n. n\<lparr>node_value := (node_value n)\<lparr>data := DHash h', memory_usage := g n\<rparr>\<rparr>) s = Inr s' \<Longrightarrow>
      get_dhash (node_value n) = Inr h \<Longrightarrow> dateless s'"
    "upd_node a (\<lambda>n. n\<lparr>node_value := (node_value n)\<lparr>data := DHash h'\<rparr>\<rparr>) s = Inr s' \<Longrightarrow>
      get_dhash (node_value n) = Inr h \<Longrightarrow> dateless s'"
  using untimed_data [OF dateless_deref [OF assms]] assms(2)
  by (auto elim!: upd_node_dateless [OF _ assms(1)])

lemma update_dateless: "update_lru a v s = Inr s' \<Longrightarrow> dateless s \<Longrightarrow> untimed v \<Longrightarrow> dateless s'"
  by (auto simp: update_lru_def Let_def dest!: upd_node_dateless notify_dateless touch_dateless)

lemma insert_new_dateless:
  "(case insert_node k v s of (s1, a) \<Rightarrow> add_lru a s1) = Inr s' \<Longrightarrow> dateless s \<Longrightarrow> untimed v \<Longrightarrow> dateless s'"
  by (cases "insert_node k v s") (auto dest!: insert_dateless add_dateless)

lemma set_dateless:
  fixes s :: "('z) io_state_scheme"
  assumes "dateless s"
  shows "ends_dateless (command_set fd args s)"
proof -
  have opts: "set_options opts e s = Inr (r, s1) \<Longrightarrow> dateless s1" for opts e r s1
    using set_options_frame [of opts e s r s1] assms by auto
  show ?thesis unfolding command_set_def
    by (auto intro!: ends_rbind dest!: opts update_dateless insert_new_dateless split: option.split)
qed

lemma get_dateless: "dateless s \<Longrightarrow> ends_dateless (command_get fd args s)"
  unfolding command_get_def get_current_time_ms_def
  by (auto intro!: ends_rbind ends_type ends_if simp: Let_def dest!: remove_dateless touch_dateless)

lemma del_dateless: "dateless s \<Longrightarrow> ends_dateless (command_del fd args s)"
proof -
  have one: "kv_del k s = Inr (s', b) \<Longrightarrow> dateless s \<Longrightarrow> dateless s'" for k b and s s' :: "('a) io_state_scheme"
    by (auto simp: kv_del_def split: option.splits dest!: remove_dateless)
  have "del_loop kv_del ks s = Inr (s', n) \<Longrightarrow> dateless s \<Longrightarrow> dateless s'" for ks n and s s' :: "('a) io_state_scheme"
    by (induction ks arbitrary: s n) (auto dest!: one)
  then show "dateless s \<Longrightarrow> ends_dateless (command_del fd args s)"
    unfolding command_del_def by (auto intro!: ends_rbind)
qed

lemma push_dateless: "dateless s \<Longrightarrow> ends_dateless (generic_push ff fd args s)"
proof -
  have new: "dateless s2" if "dateless s" "insert_node k ((new_empty LIST)\<lparr>data := d, memory_usage := m\<rparr>) s = (s1, a)"
      "add_lru a s1 = Inr s2" for k d m s1 a s2
    using add_dateless [OF that(3) insert_dateless [OF that(2,1)]] by simp
  have old: "dateless s3" if "dateless s" "deref a s = Inr n" "get_list (node_value n) = Inr l"
      "upd_node a (\<lambda>n. n\<lparr>node_value := (node_value n)\<lparr>data := DList l', memory_usage := g n\<rparr>\<rparr>) s = Inr s1"
      "notify_memory_change i j s1 = Inr s2" "touch_lru a s2 = Inr s3" for a n l l' g s1 i j s2 s3
    using touch_dateless [OF that(6) notify_dateless [OF that(5) data_dateless(1) [OF that(1,2,4,3)]]] .
  show "dateless s \<Longrightarrow> ends_dateless (generic_push ff fd args s)"
    unfolding generic_push_def Let_def by (auto intro!: ends_rbind ends_type split: prod.split; (erule (2) new | erule (5) old))
qed

lemma pop_dateless: "dateless s \<Longrightarrow> ends_dateless (generic_pop ff fd args s)"
proof -
  have pop: "dateless s3" if "dateless s" "touch_lru a s = Inr s1" "deref a s1 = Inr n" "get_list (node_value n) = Inr l"
      "upd_node a (\<lambda>n. n\<lparr>node_value := (node_value n)\<lparr>data := DList l', memory_usage := g n\<rparr>\<rparr>) s1 = Inr s2"
      "notify_memory_change old new s2 = Inr s3" for a s1 n l l' g s2 old new s3
    using notify_dateless [OF that(6) data_dateless(1) [OF touch_dateless [OF that(2,1)] that(3,5,4)]] .
  show "dateless s \<Longrightarrow> ends_dateless (generic_pop ff fd args s)"
    unfolding generic_pop_def Let_def
    by (auto intro!: ends_rbind ends_type ends_if split: prod.split intro: pop)
qed

lemma lists_dateless: "dateless s \<Longrightarrow> ends_dateless (command_lrange fd args s)" "dateless s \<Longrightarrow> ends_dateless (command_llen fd args s)"
  unfolding command_lrange_def command_llen_def Let_def
  by (auto intro!: ends_rbind ends_type ends_if split: option.split prod.split dest!: touch_dateless)

lemma fields_dateless: "dateless s \<Longrightarrow> ends_dateless (hset_fields fd args a s)"
proof -
  have put: "dateless s2" if "dateless s" "deref a s = Inr n" "get_dhash (node_value n) = Inr h"
      "upd_node a (\<lambda>n. n\<lparr>node_value := (node_value n)\<lparr>data := DHash h', memory_usage := g n\<rparr>\<rparr>) s = Inr s1"
      "notify_memory_change old new s1 = Inr t" "touch_lru a t = Inr s2" for n h h' g s1 old new t s2
    using touch_dateless [OF that(6) notify_dateless [OF that(5) data_dateless(3) [OF that(1,2,4,3)]]] .
  show "dateless s \<Longrightarrow> ends_dateless (hset_fields fd args a s)"
    unfolding hset_fields_def Let_def by (auto intro!: ends_rbind split: prod.split intro: put)
qed

lemma hset_dateless: "dateless s \<Longrightarrow> ends_dateless (command_hset fd args s)"
  unfolding command_hset_def
  by (auto intro!: ends_rbind ends_type ends_if fields_dateless split: prod.split dest!: add_dateless dest: insert_dateless)

lemma hdel_dateless: "dateless s \<Longrightarrow> ends_dateless (command_hdel fd args s)"
proof -
  have del: "dateless s2" if "dateless s" "deref a s = Inr n" "get_dhash (node_value n) = Inr h"
      "(if new < old
        then rbind (upd_node a (\<lambda>n. n\<lparr>node_value := (node_value n)\<lparr>data := DHash h', memory_usage := g n\<rparr>\<rparr>) s)
          (notify_memory_change old new)
        else upd_node a (\<lambda>n. n\<lparr>node_value := (node_value n)\<lparr>data := DHash h'\<rparr>\<rparr>) s) = Inr s1"
      "touch_lru a s1 = Inr s2" for a n h h' g s1 s2 and old new :: size_t
  proof -
    have "dateless s1"
      using that(4) data_dateless(3,4) [OF that(1,2) _ that(3)] by (auto split: if_splits intro: notify_dateless)
    then show ?thesis by (rule touch_dateless [OF that(5)])
  qed
  show "dateless s \<Longrightarrow> ends_dateless (command_hdel fd args s)"
    unfolding command_hdel_def Let_def
    by (auto intro!: ends_rbind ends_type ends_if split: prod.split simp del: if_split intro: del)
qed

lemma hashes_dateless: "dateless s \<Longrightarrow> ends_dateless (command_hget fd args s)" "dateless s \<Longrightarrow> ends_dateless (command_hgetall fd args s)"
    "dateless s \<Longrightarrow> ends_dateless (command_hlen fd args s)"
  unfolding command_hget_def command_hgetall_def command_hlen_def
  by (auto intro!: ends_rbind ends_type ends_if split: option.split dest!: touch_dateless)

lemma set_mutated:
  assumes "dateless s" "deref a s = Inr n" "get_set (node_value n) = Inr t"
    "upd_node a (\<lambda>n. n\<lparr>node_value := (node_value n)\<lparr>data := DSet t', memory_usage := g n\<rparr>\<rparr>) s = Inr s1"
    "notify_memory_change i j s1 = Inr s2" "touch_lru a s2 = Inr s3"
  shows "dateless s3"
  using touch_dateless [OF assms(6) notify_dateless [OF assms(5) data_dateless(2) [OF assms(1,2,4,3)]]] .

lemma sadd_dateless: "dateless s \<Longrightarrow> ends_dateless (command_sadd fd args s)"
proof -
  have new: "dateless s2" if "dateless s" "insert_node k ((new_empty SET)\<lparr>data := d, memory_usage := m\<rparr>) s = (s1, a)"
      "add_lru a s1 = Inr s2" for k d m s1 a s2
    using add_dateless [OF that(3) insert_dateless [OF that(2,1)]] by simp
  show "dateless s \<Longrightarrow> ends_dateless (command_sadd fd args s)"
    unfolding command_sadd_def Let_def
    by (auto intro!: ends_rbind ends_type split: prod.split; (erule (2) new | erule (5) set_mutated))
qed

lemma sdel_dateless: "dateless s \<Longrightarrow> ends_dateless (command_sdel fd args s)"
  unfolding command_sdel_def Let_def
  by (auto intro!: ends_rbind ends_type split: prod.split; erule (5) set_mutated)

lemma sets_dateless:
  "dateless s \<Longrightarrow> ends_dateless (command_sismember fd args s)" "dateless s \<Longrightarrow> ends_dateless (command_smismember fd args s)"
  "dateless s \<Longrightarrow> ends_dateless (command_scard fd args s)" "dateless s \<Longrightarrow> ends_dateless (command_smembers fd args s)"
  unfolding command_sismember_def command_smismember_def command_scard_def command_smembers_def
  by (auto intro!: ends_rbind ends_type ends_if)

lemma set_algebra_dateless:
  "dateless s \<Longrightarrow> ends_dateless (command_sdiff fd args s)" "dateless s \<Longrightarrow> ends_dateless (command_sinter fd args s)"
  "dateless s \<Longrightarrow> ends_dateless (command_sunion fd args s)"
  unfolding command_sdiff_def command_sinter_def command_sunion_def Let_def
  by (auto intro!: ends_rbind ends_if split: option.split)

lemma store_dateless:
  assumes s: "dateless s" and other: "ends_dateless other"
  shows "ends_dateless (store_command fd cmd args s other)"
proof -
  have misc: "ends_dateless (void (command_echo fd args s))" "ends_dateless (Inr (command_memstats fd s, False))"
    "ends_dateless (Inr (command_ping fd s, False))"
    using s by (auto simp: void_def command_echo_def command_memstats_def command_ping_def intro!: ends_rbind)
  show ?thesis
    unfolding store_command_def command_rpush_def command_lpush_def command_lpop_def command_rpop_def
    by (intro ends_if)
       (simp_all only: misc set_dateless [OF s] get_dateless [OF s] push_dateless [OF s] lists_dateless [OF s] pop_dateless [OF s]
         del_dateless [OF s] hset_dateless [OF s] hashes_dateless [OF s] hdel_dateless [OF s] sadd_dateless [OF s]
         sets_dateless [OF s] set_algebra_dateless [OF s] sdel_dateless [OF s] other)
qed

section \<open>The handler and the steps of the server\<close>

lemma dateless_strip: "strip s' = strip s \<Longrightarrow> dateless s' = dateless s"
proof -
  have "heap (strip t) = heap t" for t :: "('a) pubsub_state_scheme" by (simp add: strip_def)
  then show "strip s' = strip s \<Longrightarrow> dateless s' = dateless s" by (metis dateless_cong)
qed

lemma dateless_core: "core s' = core s \<Longrightarrow> dateless s' = dateless s"
  by (metis core_fields(6) dateless_cong)

lemma dateless_client [simp]: "dateless (upd_client fd f s) = dateless s"
  by (rule dateless_strip) simp

lemma server_command_dateless: "dateless s \<Longrightarrow> dateless (fst (server_command fd cmd args s))"
proof -
  have flush: "dateless (flush_clear_aof (kv_clear (clear_lru s)))"
    unfolding dateless_core [OF core_steps(12)] by (simp add: kv_clear_def dateless_def)
  show "dateless s \<Longrightarrow> dateless (fst (server_command fd cmd args s))"
    using flush dateless_strip [OF strip_subscribe, of fd args s] dateless_strip [OF strip_unsubscribe, of fd args s]
      dateless_strip [OF strip_command_publish, of fd args s]
    by (simp add: server_command_def command_flushdb_def command_subscribe_def command_unsubscribe_def)
qed

lemma handle_command_dateless:
  assumes "dateless s" "handle_command fd args s = Inr s'"
  shows "dateless s'"
proof -
  let ?s = "upd_client fd id s"
  have s: "dateless ?s" using assms(1) by simp
  have log: "append_to_aof args t = Inr u \<Longrightarrow> check_and_rewrite_aof u = Inr t' \<Longrightarrow> dateless t \<Longrightarrow> dateless t'"
    for t u t' :: "('a) server_scheme" using dateless_core append_core check_core by metis
  have "ends_dateless (store_command fd cmd args ?s (Inr (server_command fd cmd args ?s)))" for cmd
    using server_command_dateless [OF s, of fd cmd args]
    by (intro store_dateless s) (auto simp: ends_dateless_def split: prod.split)
  then have run: "store_command fd cmd args ?s (Inr (server_command fd cmd args ?s)) = Inr (t, ok) \<Longrightarrow> dateless t" for cmd t ok
    by (metis ends_simps(2))
  show ?thesis using assms(2) s
    by (auto simp: handle_command_def Let_def split: if_splits dest!: run intro: log)
qed

interpretation dates: request_handler "handle_command fd" dateless UNIV
proof unfold_locales
  fix s :: "('a) server_scheme" and args
  assume "dateless s"
  then show "guarded UNIV dateless (handle_command fd args s)"
    using handle_command_dateless by (cases "handle_command fd args s") auto
qed simp

lemma event_dateless:
  assumes "handle_event e s = Inr s'" "dateless s"
  shows "dateless s'"
proof (cases e)
  case (Receive fd buffer)
  have "dateless (upd_client fd id s)" using assms(2) by simp
  note dates.parse_keeps [OF this, of fd buffer "parser (client_of fd s)"]
  then show ?thesis using assms(1) Receive by (auto simp: Let_def)
next
  case (Hangup fd)
  then show ?thesis using assms dateless_strip [OF strip_drop_client, of fd s] by auto
qed (use assms in auto)

lemma startup_dateless:
  assumes "startup s = Inr s'" "dateless s"
  shows "dateless s'"
proof -
  obtain ok s1 where s1: "fs_try s = (ok, s1)" "core s1 = core s" by (simp add: fs_try_def)
  let ?buf = "take (nat (to_int32 (length (aof_disk s1)))) (aof_disk s1)"
  have d1: "dateless s1" using assms(2) dateless_core [OF s1(2)] by simp
  have "core s' = core s1 \<or> (\<exists>p t. parse_and_execute (handle_command (-1)) ?buf (init_parser, s1) = Inr (p, t) \<and> core s' = core t)"
    using assms(1) s1(1) by (auto simp: startup_def replay_aof_def Let_def split: if_splits dest!: rewrite_core)
  then show ?thesis
  proof (elim disjE exE conjE)
    fix p t assume t: "parse_and_execute (handle_command (-1)) ?buf (init_parser, s1) = Inr (p, t)" "core s' = core t"
    from dates.parse_keeps [OF d1, of "-1" ?buf init_parser] have "dateless t" unfolding t(1) by simp
    then show ?thesis using dateless_core [OF t(2)] by simp
  qed (use dateless_core d1 in blast)
qed

lemma reachable_dateless: "reachable s0 s \<Longrightarrow> dateless s0 \<Longrightarrow> dateless s"
proof (induction rule: reachable.induct)
  case (step s s')
  then show ?case using event_dateless dateless_core [OF core_steps(13), of s] by (auto elim: server_stepE)
qed (rule startup_dateless)

section \<open>Properties\<close>

text \<open>
  \<^bold>\<open>C33\<close>. Typing of the store and of expiry times, in every state that the process
  reaches from its start, whatever the log on disk holds, whatever bytes the clients send and whatever the
  clocks say: a value in the store has the alternative that its tag says, and a list, hash or set has no
  expiry time. So the handlers of these types, which never look at the expiry time, ignore nothing.
\<close>

theorem only_strings_expire:
  assumes "reachable (boot clk tick spl fso disk) s" "kv_store s k = Some a" "heap s a = Some n"
  shows "(case data (node_value n) of DString _ \<Rightarrow> vtype (node_value n) = STRING
    | DList _ \<Rightarrow> vtype (node_value n) = LIST \<and> expiry_time (node_value n) = 0
    | DHash _ \<Rightarrow> vtype (node_value n) = HASH \<and> expiry_time (node_value n) = 0
    | DSet _ \<Rightarrow> vtype (node_value n) = SET \<and> expiry_time (node_value n) = 0)"
proof -
  have "dateless (boot clk tick spl fso disk)" by (simp add: dateless_def boot_def)
  then have u: "untimed (node_value n)" using reachable_dateless [OF assms(1)] datelessD assms(3) by blast
  obtain c where c: "db_safe s c" using reachable_safe [OF assms(1) boot_safe] by (auto simp: server_safe_def)
  have "value_wf (node_value n)" using c
  proof (cases rule: db_lookup [where k = k])
    case (found b m)
    then show ?thesis using assms(2,3) by simp
  qed (use assms(2) in simp)
  then show ?thesis using u by (auto simp: value_wf_def untimed_def split: value_data.splits)
qed

theorem only_strings_expire_witness:
  "\<exists>s a n. reachable (boot (\<lambda>i. 1000 + int i) (\<lambda>_. 0) (\<lambda>_. 0) (\<lambda>_. True) (format_resp_command [''RPUSH'', ''l'', ''x''])) s \<and>
     kv_store s ''l'' = Some a \<and> heap s a = Some n \<and> data (node_value n) = DList [''x''] \<and> expiry_time (node_value n) = 0"
proof -
  let ?c = "[(''l'', new_list [''x''] 0)]" and ?d = "format_resp_command [''RPUSH'', ''l'', ''x'']"
  have "storable ?c" by (rule storableI) code_simp
  then have c: "\<forall>e\<in>set ?c. value_ok (snd e) \<and> restorable e" "distinct (map fst ?c)" "cache_bytes ?c \<le> LRU_MAX_MEMORY"
    by (simp_all add: storable_def restorable_def new_list_def)
  have d: "?d = concat (map format_resp_command (rewrite_commands 0 ?c))" "map rebuilt (live 0 ?c) = ?c"
    by (simp_all add: rewrite_commands_def live_def entry_cmd_def expired_at_def rebuilt_def new_list_def)
  obtain t where t: "startup (boot (\<lambda>i. 1000 + int i) (\<lambda>_. 0) (\<lambda>_. 0) (\<lambda>_. True) ?d) = Inr t" "db_inv t ?c"
    using startup_restores [where fso = "\<lambda>_. True", OF c d(1) TrueI] unfolding d(2) by blast
  from db_inv_safe [OF t(2)] show ?thesis
  proof (cases rule: db_lookup [where k = "''l''"])
    case (found a n)
    then have "node_value n = new_list [''x''] 0" by simp
    then have n: "data (node_value n) = DList [''x'']" by (simp add: new_list_def)
    then show ?thesis using only_strings_expire [OF reachable.start [OF t(1)] found(1,2)] reachable.start [OF t(1)] found(1,2) by auto
  qed simp
qed

end
