(* ===== verification/Runs.thy ===== *)
theory Runs
  imports Map_Semantics
begin

text \<open>
  Runs that do not go wrong. The recorded faults of the commands need a negative count, an expiry time outside
  \<open>long long\<close>, a request of the size of the whole store, or a value that grows while the store is full. A
  request without these is \<open>careful\<close>; the theory shows that a careful request always returns, with evictions
  and rewrites of the log, in every state a started server can be in, and that it is answered.
\<close>

section \<open>Careful requests\<close>

text \<open>The commands that add to the value of a key.\<close>

definition adding :: "string list \<Rightarrow> bool" where
  "adding args = (2 \<le> length args \<and> toupper (args ! 0) \<in> {''SET'', ''RPUSH'', ''LPUSH'', ''HSET'', ''SADD''})"

text \<open>Amounts of at most 10 to the 15 and clock readings up to 2 to the 62: no expiry time leaves \<open>long long\<close>.\<close>

definition dates_ok :: "string list \<Rightarrow> ('z) io_state_scheme \<Rightarrow> bool" where
  "dates_ok opts s = (list_all (\<lambda>a. case stoll a of None \<Rightarrow> True | Some n \<Rightarrow> \<bar>n\<bar> \<le> 10 ^ 15) opts \<and>
     list_all (\<lambda>i. 0 \<le> clock s i \<and> clock s i \<le> 2 ^ 62) [ticks s..<ticks s + length opts])"

definition careful :: "string list \<Rightarrow> ('z) io_state_scheme \<Rightarrow> bool" where
  "careful args s = (request_bytes args \<le> LRU_MAX_MEMORY \<and>
     (adding args \<and> kv_store s (args ! 1) \<noteq> None \<longrightarrow>
        unat (current_memory_usage s) + request_bytes args \<le> LRU_MAX_MEMORY) \<and>
     (toupper (args ! 0) \<in> {''LPOP'', ''RPOP''} \<longrightarrow> 0 \<le> pop_count args) \<and>
     (toupper (args ! 0) = ''SET'' \<longrightarrow> dates_ok (drop 3 args) s))"

text \<open>Every request of a run is careful in the state in which it is handled.\<close>

fun careful_run :: "(int \<times> string list) list \<Rightarrow> ('z) server_scheme \<Rightarrow> bool" where
  "careful_run [] s = True"
| "careful_run ((fd, args) # rs) s = (careful args s \<and>
     (case handle_command fd args s of Inl e \<Rightarrow> True | Inr s' \<Rightarrow> careful_run rs s'))"

section \<open>Specified outcomes without a fault\<close>

definition returns :: "'a res \<Rightarrow> bool" where
  "returns r = (\<exists>x. r = Inr x)"

lemma returns_simps [simp]: "returns (Inr x)" "\<not> returns (Inl e)"
  by (simp_all add: returns_def)

lemma returns_if: "(b \<Longrightarrow> returns x) \<Longrightarrow> (\<not> b \<Longrightarrow> returns y) \<Longrightarrow> returns (if b then x else y)"
  by simp

lemma returns_rbind: "r = Inr x \<Longrightarrow> returns (f x) \<Longrightarrow> returns (rbind r f)"
  by simp

lemma returns_typed:
  assumes "map_of c k = None \<Longrightarrow> returns missing"
    "\<And>v x. map_of c k = Some v \<Longrightarrow> f (data v) = Some x \<Longrightarrow> returns (found v x)"
  shows "returns (typed_spec f k c missing found)"
  using assms by (auto simp: typed_spec_def split: option.split)

lemma set_options_returns: "dates_ok opts s \<Longrightarrow> returns (set_options opts e s)"
proof (induction opts e s rule: set_options.induct)
  case (3 opt v rest e s)
  have rest: "dates_ok rest (s\<lparr>ticks := Suc (ticks s)\<rparr>)" "dates_ok rest s" "dates_ok (v # rest) s"
    using 3(5) by (auto simp: dates_ok_def list_all_iff)
  have now: "0 \<le> clock s (ticks s)" "clock s (ticks s) \<le> 2 ^ 62" using 3(5) by (auto simp: dates_ok_def list_all_iff)
  have "in_ll (n * 1000) \<and> in_ll (clock s (ticks s) + n * 1000) \<and> in_ll (clock s (ticks s) + n)" if "stoll v = Some n" for n
    using 3(5) that now by (auto simp: dates_ok_def in_ll_def)
  then show ?case using 3(1-4) rest by (auto simp: get_current_time_ms_def Let_def split: option.split)
qed simp_all

text \<open>A new entry is never evicted while it alone is within the limit.\<close>

lemma evict_last: "entry_size e \<le> LRU_MAX_MEMORY \<Longrightarrow> \<exists>c'. evict_spec (c @ [e]) = c' @ [e] \<and> set c' \<subseteq> set c \<and> (distinct (map fst c) \<longrightarrow> distinct (map fst c'))"
proof (induction c)
  case (Cons x c)
  then obtain c' where "evict_spec (c @ [e]) = c' @ [e]" "set c' \<subseteq> set c" "distinct (map fst c) \<longrightarrow> distinct (map fst c')" by blast
  then show ?case by (cases "LRU_MAX_MEMORY < cache_bytes (x # c @ [e])") (auto intro!: exI [of _ c'] exI [of _ "x # c"])
qed simp

text \<open>A value that grows by at most its request, where there is room.\<close>

lemma grow_returns:
  assumes st: "storable c" and len: "2 \<le> length args"
    and room: "map_of c (args ! 1) \<noteq> None \<Longrightarrow> cache_bytes c + request_bytes args \<le> LRU_MAX_MEMORY"
    and mem: "\<And>v. map_of c (args ! 1) = Some v \<Longrightarrow> unat (memory_usage w) \<le> unat (memory_usage v) + request_bytes (drop 2 args)"
  shows "returns (write_spec (args ! 1) w c msg b)"
proof (cases "map_of c (args ! 1)")
  case None
  then show ?thesis by (simp add: write_spec_def survives_def)
next
  case (Some v)
  have d: "distinct (map fst c)" using st by (simp add: storable_def)
  have "cache_bytes (cache_upd (args ! 1) w c) \<le> LRU_MAX_MEMORY"
    using cache_bytes_upd [OF d Some, of w] mem [OF Some] room Some request_bytes_tail [OF len] by simp
  then show ?thesis using set_spec_upd(1) [OF d Some] by (simp add: write_spec_def)
qed

lemma set_returns:
  assumes st: "storable c" and ok: "args_ok args" "3 \<le> length args" and dates: "dates_ok (drop 3 args) s"
    and room: "map_of c (args ! 1) \<noteq> None \<Longrightarrow> cache_bytes c + request_bytes args \<le> LRU_MAX_MEMORY"
  shows "returns (set_command_spec args s c)"
proof -
  have "returns (write_spec (args ! 1) (new_string (args ! 2) e) c msg b)" for e msg b
    using ok string_size [OF ok, of e] by (intro grow_returns [OF st _ room]) auto
  moreover have "returns (set_options (drop 3 args) 0 s)" by (rule set_options_returns [OF dates])
  ultimately show ?thesis by (auto simp: set_command_spec_def returns_def split: sum.split option.split)
qed

lemma push_returns:
  assumes st: "storable c" and len: "2 \<le> length args" and small: "request_bytes args \<le> LRU_MAX_MEMORY"
    and room: "map_of c (args ! 1) \<noteq> None \<Longrightarrow> cache_bytes c + request_bytes args \<le> LRU_MAX_MEMORY"
  shows "returns (push_spec ff (args ! 1) (drop 2 args) c)"
proof -
  let ?xs = "drop 2 args"
  have b: "request_bytes ?xs < 2 ^ 31" using small request_bytes_drop [of 2 args] by (simp add: LRU_MAX_MEMORY_def)
  show ?thesis unfolding push_spec_def
  proof (rule returns_typed, goal_cases)
    case 1
    then show ?case by (simp add: write_spec_def survives_def)
  next
    case (2 v l)
    note old = list_old_size [OF storable_at(1) [OF st 2(1)] 2(2)]
    have "unat (memory_usage (new_list (push_all ff ?xs l) e)) \<le> unat (memory_usage v) + request_bytes ?xs" for e
      using push_grows [OF _ b, of l ff e] old storable_at(2) [OF st 2(1)] elems_bound(1) [of ?xs] by simp
    then show ?case using 2(1) by (intro grow_returns [OF st len room]) auto
  qed
qed

lemma sadd_returns:
  assumes st: "storable c" and len: "2 \<le> length args" and small: "request_bytes args \<le> LRU_MAX_MEMORY"
    and room: "map_of c (args ! 1) \<noteq> None \<Longrightarrow> cache_bytes c + request_bytes args \<le> LRU_MAX_MEMORY"
  shows "returns (sadd_spec (args ! 1) (drop 2 args) c)"
proof -
  let ?xs = "drop 2 args"
  have b: "request_bytes ?xs < 2 ^ 31" using small request_bytes_drop [of 2 args] by (simp add: LRU_MAX_MEMORY_def)
  show ?thesis unfolding sadd_spec_def Let_def
  proof (rule returns_typed, goal_cases)
    case 1
    then show ?case by (simp add: write_spec_def survives_def)
  next
    case (2 v t)
    note old = set_old_size [OF storable_at(1) [OF st 2(1)] 2(2)]
    have "unat (memory_usage (new_set (sorted_list_of_set (set t \<union> set ?xs)) e)) \<le> unat (memory_usage v) + request_bytes ?xs" for e
      using sadd_grows [OF _ _ b, of t e] old storable_at(2) [OF st 2(1)] by auto
    then show ?case using 2(1) by (intro grow_returns [OF st len room]) auto
  qed
qed

lemma put_returns:
  assumes "hash_wf h" "\<And>h' n. put_loop set_hash xs h = Inr (h', n) \<Longrightarrow> returns (write_spec k (new_hash h' e) c (msg n) (b n))"
  shows "returns (rbind (put_loop set_hash xs h) (\<lambda>(h', n). write_spec k (new_hash h' e) c (msg n) (b n)))"
  by (rule put_loop_total [OF assms(1), of xs]) (use assms(2) in auto)

text \<open>HSET inserts an empty hash first; the new key is the most recent one, so its fields evict others, if any.\<close>

lemma hset_new_returns:
  assumes st: "storable c" and new: "map_of c k = None" and small: "request_bytes xs + 5000 + 2 * length k \<le> LRU_MAX_MEMORY"
  shows "k \<in> fst ` set (evict_spec (c @ [(k, new_empty HASH)]))"
    "returns (rbind (put_loop set_hash (pairs_of xs) (new_hash_vec [] 0)) (\<lambda>(h', n).
       write_spec k (new_hash h' 0) (evict_spec (c @ [(k, new_empty HASH)])) (integer_reply (int n)) (n > 0)))"
proof -
  have "entry_size (k, new_empty HASH) \<le> LRU_MAX_MEMORY"
    using new_entry_size [of k "new_empty HASH"] small by (simp add: new_empty_def)
  then obtain c' where c': "evict_spec (c @ [(k, new_empty HASH)]) = c' @ [(k, new_empty HASH)]" "set c' \<subseteq> set c"
    using evict_last by blast
  then show "k \<in> fst ` set (evict_spec (c @ [(k, new_empty HASH)]))" by force
  have notin: "k \<notin> fst ` set c'" using c'(2) new by (auto simp: map_of_eq_None_iff)
  show "returns (rbind (put_loop set_hash (pairs_of xs) (new_hash_vec [] 0)) (\<lambda>(h', n).
       write_spec k (new_hash h' 0) (evict_spec (c @ [(k, new_empty HASH)])) (integer_reply (int n)) (n > 0)))"
    unfolding c'(1)
  proof (rule put_returns [OF hash_wf_new])
    fix h' n assume put: "put_loop set_hash (pairs_of xs) (new_hash_vec [] 0) = Inr (h', n)"
    have "hmemory_usage (new_hash_vec [] 0) = 0" by (simp add: new_hash_vec_def)
    then have "unat (hmemory_usage h') \<le> request_bytes xs"
      using put_loop_bytes(2) [OF hash_wf_new put] small by (simp add: LRU_MAX_MEMORY_def)
    then have "entry_size (k, new_hash h' 0) \<le> LRU_MAX_MEMORY"
      using new_entry_size [of k "new_hash h' 0"] small by (simp add: new_hash_def)
    then have "k \<in> fst ` set (evict_spec (c' @ [(k, new_hash h' 0)]))" using evict_last [of "(k, new_hash h' 0)" c'] by force
    moreover have "cache_upd k (new_hash h' 0) (c' @ [(k, new_empty HASH)]) = c' @ [(k, new_hash h' 0)]"
      using notin by (auto simp: cache_upd_def image_iff intro!: map_idI)
    ultimately show "returns (write_spec k (new_hash h' 0) (c' @ [(k, new_empty HASH)]) (integer_reply (int n)) (n > 0))"
      by (simp add: write_spec_def survives_def)
  qed
qed

lemma hset_returns:
  assumes st: "storable c" and small: "request_bytes args \<le> LRU_MAX_MEMORY"
    and room: "map_of c (args ! 1) \<noteq> None \<Longrightarrow> cache_bytes c + request_bytes args \<le> LRU_MAX_MEMORY"
  shows "returns (hset_spec args c)"
proof (cases "length args < 4 \<or> odd (length args)")
  case False
  let ?k = "args ! 1" and ?xs = "drop 2 args"
  have len: "2 \<le> length args" using False by simp
  note tail = request_bytes_tail [OF len]
  show ?thesis
    unfolding hset_spec_def Let_def if_not_P [OF False]
  proof (rule returns_typed, goal_cases)
    case 1
    have "request_bytes ?xs + 5000 + 2 * length ?k \<le> LRU_MAX_MEMORY" using tail small by simp
    from hset_new_returns [OF st 1 this] show ?case by simp
  next
    case (2 v h)
    have h: "data v = DHash h" using 2(2) by (auto simp: as_hash_def split: value_data.splits)
    note ok = storable_at(1,2) [OF st 2(1)]
    have wf: "hash_wf h" "memory_usage v = hmemory_usage h" using value_ok_hash [OF ok(1) h] hash_value_mem [OF ok(1) h] by simp_all
    show ?case
    proof (rule put_returns [OF wf(1)])
      fix h' n assume put: "put_loop set_hash (pairs_of ?xs) h = Inr (h', n)"
      have "unat (hmemory_usage h') \<le> unat (hmemory_usage h) + request_bytes ?xs"
        using put_loop_bytes(2) [OF wf(1) put] ok(2) wf(2) tail small by (simp add: LRU_MAX_MEMORY_def)
      then show "returns (write_spec ?k (new_hash h' (expiry_time v)) c (integer_reply (int n)) (n > 0))"
        using 2(1) wf(2) by (intro grow_returns [OF st len room]) (auto simp: new_hash_def)
    qed
  qed
qed (simp add: hset_spec_def Let_def)

lemma pop_returns: "0 \<le> pop_count args \<Longrightarrow> returns (pop_spec ff args c)"
  unfolding pop_spec_def Let_def by (intro returns_if returns_typed) simp_all

lemma hdel_returns:
  assumes st: "storable c"
  shows "returns (hdel_spec args c)"
  unfolding hdel_spec_def
proof (intro returns_if returns_typed, goal_cases)
  case (3 v h)
  then have "hash_wf h" using value_ok_hash [OF storable_at(1) [OF st 3(2)], of h] by (auto simp: as_hash_def split: value_data.splits)
  then show ?case using druta_hash.del_loop_ok [of h "drop 2 args"] by auto
qed simp_all

lemma reads_return:
  assumes st: "storable c"
  shows "returns (get_spec now k c)" "returns (lrange_spec args c)" "returns (llen_spec args c)" "returns (hget_spec args c)"
    "returns (hgetall_spec args c)" "returns (hlen_spec args c)" "returns (scard_spec args c)" "returns (sismember_spec args c)"
    "returns (smembers_spec args c)" "returns (smismember_spec args c)" "returns (sinter_spec args c)" "returns (sunion_spec args c)"
    "returns (sdiff_spec args c)" "returns (sdel_spec k xs c)" "returns (del_spec ks c)"
proof -
  have small: "unat (1024 + memory_usage v) < 4611686018427387904" if "map_of c j = Some v" for j v
    using storable_at(2) [OF st that] by (simp add: LRU_MAX_MEMORY_def unat_word_ariths)
  have hmem: "memory_usage v = hmemory_usage h" if "map_of c j = Some v" "as_hash (data v) = Some h" for j v h
    using hash_value_mem [OF storable_at(1) [OF st that(1)]] that(2) by (auto simp: as_hash_def split: value_data.splits)
  show "returns (get_spec now k c)" "returns (lrange_spec args c)" "returns (llen_spec args c)" "returns (hget_spec args c)"
    "returns (hlen_spec args c)" "returns (scard_spec args c)" "returns (sismember_spec args c)"
    "returns (smismember_spec args c)" "returns (sdel_spec k xs c)"
    unfolding get_spec_def lrange_spec_def llen_spec_def hget_spec_def hlen_spec_def scard_spec_def sismember_spec_def
      smismember_spec_def sdel_spec_def Let_def
    by (auto intro!: returns_typed split: option.split)
  show "returns (hgetall_spec args c)" "returns (smembers_spec args c)"
    unfolding hgetall_spec_def smembers_spec_def by (auto intro!: returns_typed simp: small simp flip: hmem)
  show "returns (sinter_spec args c)" "returns (sunion_spec args c)" "returns (sdiff_spec args c)" "returns (del_spec ks c)"
    by (auto simp: sinter_spec_def sunion_spec_def sdiff_spec_def del_spec_def Let_def split: option.split)
qed

lemma request_returns:
  assumes inv: "db_inv s c" and ok: "args_ok args" and care: "careful args s"
  shows "returns (request_spec args s c)"
proof -
  let ?cmd = "toupper (args ! 0)"
  have st: "storable c" by (rule db_inv_storable [OF inv])
  have small: "request_bytes args \<le> LRU_MAX_MEMORY" using care by (simp add: careful_def)
  have "cache_bytes c < 2 ^ 27" using inv by (rule db_invE)
  then have mem: "unat (current_memory_usage s) = cache_bytes c"
    using inv unat_of_nat_size [of "cache_bytes c"] by (auto simp: db_inv_def lru_inv_def)
  have care': "adding args \<Longrightarrow> map_of c (args ! 1) \<noteq> None \<Longrightarrow> cache_bytes c + request_bytes args \<le> LRU_MAX_MEMORY"
    using care unfolding careful_def mem db_find_None [OF inv] by simp
  have room: "?cmd \<in> {''SET'', ''RPUSH'', ''LPUSH'', ''HSET'', ''SADD''} \<Longrightarrow> 2 \<le> length args \<Longrightarrow> map_of c (args ! 1) \<noteq> None \<Longrightarrow>
      cache_bytes c + request_bytes args \<le> LRU_MAX_MEMORY"
    by (rule care') (simp_all only: adding_def simp_thms)
  have two: "3 \<le> length args \<Longrightarrow> 2 \<le> length args" "4 \<le> length args \<Longrightarrow> 2 \<le> length args" by simp_all
  have set: "returns (set_command_spec args s c)" if "?cmd = ''SET'' \<and> 3 \<le> length args"
    using that care room two(1) by (intro set_returns [OF st ok]) (auto simp: careful_def)
  have push: "returns (push_spec ff (args ! 1) (drop 2 args) c)" if "(?cmd = ''RPUSH'' \<or> ?cmd = ''LPUSH'') \<and> 3 \<le> length args" for ff
    using that room two(1) by (intro push_returns [OF st _ small]) auto
  have sadd: "returns (sadd_spec (args ! 1) (drop 2 args) c)" if "?cmd = ''SADD'' \<and> 3 \<le> length args"
    using that room two(1) by (intro sadd_returns [OF st _ small]) auto
  have hset: "returns (hset_spec args c)" if "?cmd = ''HSET'' \<and> 4 \<le> length args"
    using that room two(2) by (intro hset_returns [OF st small]) auto
  have pop: "returns (pop_spec ff args c)" if "?cmd = ''LPOP'' \<or> ?cmd = ''RPOP''" for ff
    using that care by (intro pop_returns) (auto simp: careful_def)
  show ?thesis
    unfolding request_spec_def exec_spec_def
    by (intro returns_if)
       (simp_all add: set push [unfolded One_nat_def] sadd [unfolded One_nat_def] hset pop hdel_returns [OF st] reads_return [OF st])
qed

section \<open>The handler and runs of requests\<close>

lemma careful_client: "careful args (upd_client fd f s) = careful args s"
  by (simp add: careful_def dates_ok_def upd_client_def)

lemma handle_returns:
  assumes inv: "store_inv regular s" and args: "modest args" and care: "careful args s"
  shows "\<exists>s'. handle_command fd args s = Inr s' \<and> store_inv regular s' \<and> answered fd s s'"
proof -
  let ?s = "upd_client fd id s" and ?cmd = "toupper (args ! 0)"
  have ok: "args_ok args" "args \<noteq> []" using modest.request_ok [OF args] by (simp_all add: args_ok_def)
  have small: "request_bytes args \<le> LRU_MAX_MEMORY" using care by (simp add: careful_def)
  have inv0: "store_inv regular ?s" using store_inv_strip [OF _ _ inv, of ?s] inv by (simp add: store_inv_def)
  have log: "returns (logged fd args (t, b))" if "store_inv regular t" for t :: "('a) server_scheme" and b
    using that logged_returns [OF _ _ small] by (fastforce simp: store_inv_def returns_def)
  have "returns (handle_command fd args s)"
  proof (cases "refused fd ?cmd s")
    case True
    then show ?thesis by (simp add: handle_command_cases [OF ok(2)])
  next
    case nr: False
    note handle = handle_command_cases [OF ok(2), of fd s, unfolded if_not_P [OF nr]]
    consider (server) "?cmd \<in> server_names" | (ping) "?cmd = ''PING''" | (store) "?cmd \<notin> server_names" "\<not> is_subscriber (client_of fd s)"
      using nr by (auto simp: refused_def server_names_def)
    then show ?thesis
    proof cases
      case server
      obtain t b where t: "server_command fd ?cmd args ?s = (t, b)" by (cases "server_command fd ?cmd args ?s")
      have "store_inv regular t" using server_command_keeps [OF inv0, of fd ?cmd args] t by simp
      then show ?thesis unfolding handle store_command_server [OF server] t using log by simp
    next
      case ping
      then show ?thesis unfolding handle using inv0 by (simp add: store_command_def command_ping_def logged_def)
    next
      case store
      obtain c where c: "db_inv s c" "values_all regular c" using inv by (auto simp: store_inv_def)
      obtain r where r: "meets db_inv ?s r fd (request_spec args ?s c)" "handle_command fd args s = rbind r (logged fd args)"
        using handle_command_meets [OF c(1) ok(1) store(2,1) modest.accounting [OF c args]] by blast
      have "db_inv ?s c" using strip_db(2) [of ?s s c] c(1) by simp
      then obtain c' msg b where spec: "request_spec args ?s c = Inr (c', msg, b)"
        using request_returns [of ?s c args] ok(1) care careful_client by (fastforce simp: returns_def)
      then obtain t where t: "r = Inr (t, b)" "db_inv t c'" using r(1) by (auto elim!: yieldsE)
      have "values_all regular c'" using modest.request_leaves [OF c args, of ?s] spec by simp
      then have "returns (logged fd args (t, b))" using logged_returns [OF t(2) _ small] by (auto simp: returns_def)
      then show ?thesis using r(2) t(1) by simp
    qed
  qed
  then obtain s' where "handle_command fd args s = Inr s'" by (auto simp: returns_def)
  then show ?thesis using modest.handle_keeps [OF inv args, of fd] by simp
qed

lemma run_returns:
  assumes "store_inv regular s" "\<forall>(fd, args)\<in>set rs. modest args" "careful_run rs s"
  shows "\<exists>s'. serve_requests rs s = Inr s' \<and> store_inv regular s'"
  using assms
proof (induction rs arbitrary: s)
  case (Cons r rs)
  obtain fd args where r: "r = (fd, args)" by (cases r)
  obtain s1 where "handle_command fd args s = Inr s1" "store_inv regular s1"
    using handle_returns [of s args fd] Cons.prems r by auto
  then show ?case using Cons r by auto
qed auto

lemma careful_append: "serve_requests rs s = Inr s' \<Longrightarrow> careful_run (rs @ rs') s = (careful_run rs s \<and> careful_run rs' s')"
proof (induction rs arbitrary: s)
  case (Cons r rs)
  obtain fd args where "r = (fd, args)" by (cases r)
  then show ?case using Cons by auto
qed simp

lemma careful_prefix: "careful_run (rs @ rs') s \<Longrightarrow> careful_run rs s"
proof (induction rs arbitrary: s)
  case (Cons r rs)
  obtain fd args where "r = (fd, args)" by (cases r)
  then show ?case using Cons by (auto split: sum.splits)
qed simp

section \<open>The state in which a server starts\<close>

lemma run_serve: "run_commands (handle_command fd) cmds s = serve_requests (map (Pair fd) cmds) s"
proof (induction cmds arbitrary: s)
  case (Cons args cmds)
  then show ?case by (cases "handle_command fd args s") simp_all
qed simp

text \<open>A startup that returns has read nothing, or replayed the log.\<close>

lemma startup_cases:
  assumes "startup s = Inr s'"
  obtains s1 where "core s1 = core s" "aof_disk s1 = aof_disk s" "core s' = core s1"
  | s1 p t where "core s1 = core s" "aof_disk s1 = aof_disk s" "core s' = core t"
      "parse_and_execute (handle_command (-1)) (take (nat (to_int32 (length (aof_disk s)))) (aof_disk s)) (init_parser, s1) = Inr (p, t)"
proof -
  obtain ok s1 where s1: "fs_try s = (ok, s1)" "core s1 = core s" "aof_disk s1 = aof_disk s" by (simp add: fs_try_def)
  let ?buf = "take (nat (to_int32 (length (aof_disk s)))) (aof_disk s)"
  have "core s' = core s1 \<or> (\<exists>p t. parse_and_execute (handle_command (-1)) ?buf (init_parser, s1) = Inr (p, t) \<and> core s' = core t)"
    using assms s1(1,3) by (auto simp: startup_def replay_aof_def Let_def split: if_splits dest!: rewrite_core)
  then show thesis using that s1(2,3) by metis
qed

lemma startup_regular:
  assumes "startup (boot clk tick spl fso (concat (map format_resp_command cmds))) = Inr s" "\<forall>args\<in>set cmds. modest args"
    "length (concat (map format_resp_command cmds)) < 2 ^ 31"
  shows "store_inv regular s"
proof -
  let ?disk = "concat (map format_resp_command cmds)"
  let ?b = "boot clk tick spl fso ?disk"
  have "pubsub_inv ?b" using boot_safe [of clk tick spl fso ?disk] by (simp add: server_safe_def)
  moreover have "core (?b\<lparr>fs_ticks := 1\<rparr>) = core ?b" by simp
  then have "db_inv ?b []" using boot_empty(1) core_eqD(2) by metis
  ultimately have b: "store_inv regular ?b" by (auto simp: store_inv_def intro!: exI [of _ "[]"])
  have ok: "\<forall>args\<in>set cmds. args_ok args" using assms(2) modest.request_ok by blast
  have disk: "aof_disk ?b = ?disk" "take (nat (to_int32 (length ?disk))) ?disk = ?disk"
    using to_int32_small [OF assms(3)] by (simp_all add: boot_def)
  from assms(1) show ?thesis
  proof (cases rule: startup_cases)
    case (1 s1)
    then show ?thesis using b store_inv_core [of s ?b] by simp
  next
    case (2 s1 p t)
    then have "serve_requests (map (Pair (-1)) cmds) s1 = Inr t"
      using parse_commands [OF ok, of "handle_command (-1)" s1] unfolding disk by (auto simp: run_serve)
    moreover have "store_inv regular s1" using b store_inv_core [OF 2(1)] by simp
    then have "guarded command_faults (store_inv regular) (serve_requests (map (Pair (-1)) cmds) s1)"
      using assms(2) by (intro modest.run_keeps) auto
    ultimately show ?thesis using store_inv_core [OF 2(3)] by simp
  qed
qed

section \<open>Properties\<close>

text \<open>
  \<^bold>\<open>C6\<close>. A server has started, with any clocks, file system and stream and on any log of
  modest requests, and handles any modest requests of any clients, in any order and number. If the run
  returns, then, evictions included, the list, the index and the byte counter agree with one list of entries,
  every value's size is its recorded size, and the counter is the sum of the entry sizes and within the limit.
  It does return if its requests are careful; otherwise it may end in one of the four recorded faults. Modest
  are all requests the protocol delivers, with strings of at most 15 bytes for HSET and less than 2 GiB for
  SADD. Careful is a request that is not of the size of the whole store, whose LPOP or RPOP count is not
  negative, whose expiry time is a \<open>long long\<close>, and that does not add to an existing value without room for it.
\<close>

theorem memory_limit_kept:
  assumes "startup (boot clk tick spl fso (concat (map format_resp_command earlier))) = Inr s0"
    "length (concat (map format_resp_command earlier)) < 2 ^ 31" "\<forall>args\<in>set earlier. modest args"
    "\<forall>(fd, args)\<in>set requests. modest args"
  shows "case serve_requests requests s0 of
      Inr s \<Rightarrow> (\<exists>c. db_inv s c \<and> unat (current_memory_usage s) = cache_bytes c \<and> cache_bytes c \<le> LRU_MAX_MEMORY)
    | Inl e \<Rightarrow> e \<in> {Use_after_free, Empty_container, Signed_overflow, Uncaught_exception} \<and> \<not> careful_run requests s0"
proof -
  have s0: "store_inv regular s0" by (rule startup_regular [OF assms(1,3,2)])
  note keeps = modest.run_keeps [OF s0 assms(4)]
  show ?thesis
  proof (cases "serve_requests requests s0")
    case (Inl e)
    then show ?thesis using keeps run_returns [OF s0 assms(4)] by (auto simp: command_faults_def)
  next
    case (Inr s)
    then obtain c where c: "db_inv s c" using keeps by (auto simp: store_inv_def)
    then have "unat (current_memory_usage s) = cache_bytes c" "cache_bytes c \<le> LRU_MAX_MEMORY"
      by (auto simp: db_inv_def lru_inv_def LRU_MAX_MEMORY_def unat_of_nat_size)
    then show ?thesis using Inr c by auto
  qed
qed

text \<open>A server that has replayed one command.\<close>

lemma started_sample:
  "\<exists>s0. startup (boot (\<lambda>i. 1000 + int i) (\<lambda>_. 0) (\<lambda>_. 0) (\<lambda>_. True) (concat (map format_resp_command [[''RPUSH'', ''l'', ''x'']]))) = Inr s0 \<and>
     db_inv s0 [(''l'', new_list [''x''] 0)]"
proof -
  let ?c = "[(''l'', new_list [''x''] 0)]"
  have "storable ?c" by (rule storableI) code_simp
  then have c: "\<forall>e\<in>set ?c. value_ok (snd e) \<and> restorable e" "distinct (map fst ?c)" "cache_bytes ?c \<le> LRU_MAX_MEMORY"
    by (simp_all add: storable_def restorable_def new_list_def)
  have d: "concat (map format_resp_command [[''RPUSH'', ''l'', ''x'']]) = concat (map format_resp_command (rewrite_commands 0 ?c))"
    "map rebuilt (live 0 ?c) = ?c"
    by (simp_all add: rewrite_commands_def live_def entry_cmd_def expired_at_def rebuilt_def new_list_def)
  show ?thesis using startup_restores [where fso = "\<lambda>_. True", OF c d(1) TrueI] unfolding d(2) by blast
qed

lemma upper_names: "toupper ''GET'' = ''GET''" "toupper ''SUBSCRIBE'' = ''SUBSCRIBE''" "toupper ''PUBLISH'' = ''PUBLISH''"
  by code_simp+

lemma modest_sample:
  "modest [''RPUSH'', ''l'', ''x'']" "modest [''HSET'', ''h'', ''f'', ''v'']" "modest [''GET'', ''h'']"
  "modest [''SUBSCRIBE'', ''news'']" "modest [''PUBLISH'', ''news'', ''hi'']"
  by (simp_all add: modest_def args_ok_def sso_capacity_def upper_names)

lemma careful_sample:
  "careful [''GET'', ''h''] s" "careful [''SUBSCRIBE'', ''news''] s" "careful [''PUBLISH'', ''news'', ''hi''] s"
  "kv_store s ''h'' = None \<Longrightarrow> careful [''HSET'', ''h'', ''f'', ''v''] s"
  by (simp_all add: careful_def adding_def LRU_MAX_MEMORY_def upper_names)

lemma log_sample: "length (concat (map format_resp_command [[''RPUSH'', ''l'', ''x'']])) < 2 ^ 31"
  using format_length [of "[''RPUSH'', ''l'', ''x'']"] by simp

theorem memory_limit_kept_witness:
  "\<exists>s0 s c. startup (boot (\<lambda>i. 1000 + int i) (\<lambda>_. 0) (\<lambda>_. 0) (\<lambda>_. True) (concat (map format_resp_command [[''RPUSH'', ''l'', ''x'']]))) = Inr s0 \<and>
     serve_requests [(5, [''HSET'', ''h'', ''f'', ''v'']), (6, [''GET'', ''h''])] s0 = Inr s \<and>
     db_inv s c \<and> unat (current_memory_usage s) = cache_bytes c \<and> cache_bytes c \<le> LRU_MAX_MEMORY"
proof -
  let ?rs = "[(5, [''HSET'', ''h'', ''f'', ''v'']), (6, [''GET'', ''h''])]"
  obtain s0 where s0: "startup (boot (\<lambda>i. 1000 + int i) (\<lambda>_. 0) (\<lambda>_. 0) (\<lambda>_. True) (concat (map format_resp_command [[''RPUSH'', ''l'', ''x'']]))) = Inr s0"
    "db_inv s0 [(''l'', new_list [''x''] 0)]" using started_sample by blast
  have "kv_store s0 ''h'' = None" using db_find_None [OF s0(2), of "''h''"] by simp
  then have care: "careful_run ?rs s0" by (simp add: careful_sample split: sum.split)
  have "\<forall>args\<in>set [[''RPUSH'', ''l'', ''x'']]. modest args" "\<forall>(fd, args)\<in>set ?rs. modest args" by (simp_all add: modest_sample)
  from memory_limit_kept [OF s0(1) log_sample this] care s0(1) show ?thesis by (cases "serve_requests ?rs s0") auto
qed

text \<open>
  \<^bold>\<open>C8\<close>. No client waits in vain: in any run of modest and careful requests of any
  clients, on a server started as for the memory limit, each request is handled without a fault, and the last
  message sent while it is handled is a reply to the client that made it, whatever is published to others
  meanwhile. This holds for every command, known or not, well formed or not, in and out of subscriber mode.
\<close>

theorem every_request_answered:
  assumes "startup (boot clk tick spl fso (concat (map format_resp_command earlier))) = Inr s0"
    "length (concat (map format_resp_command earlier)) < 2 ^ 31" "\<forall>args\<in>set earlier. modest args"
    "\<forall>(fd, args)\<in>set (before @ (fd, args) # after). modest args" "careful_run (before @ (fd, args) # after) s0" "fd \<noteq> -1"
  shows "\<exists>s s' others reply. serve_requests before s0 = Inr s \<and> handle_command fd args s = Inr s' \<and>
    out s' = out s @ others @ [(fd, reply)]"
proof -
  have s0: "store_inv regular s0" by (rule startup_regular [OF assms(1,3,2)])
  obtain s where s: "serve_requests before s0 = Inr s" "store_inv regular s"
    using run_returns [OF s0, of before] assms(4) careful_prefix [OF assms(5)] by auto
  have "careful args s" using assms(5) careful_append [OF s(1)] by simp
  then obtain s' where s': "handle_command fd args s = Inr s'" "answered fd s s'"
    using handle_returns [OF s(2), of args fd] assms(4) by auto
  then obtain ms where ms: "out s' = out s @ ms" "ms \<noteq> []" "fst (last ms) = fd" using assms(6) by (auto simp: answered_def)
  then have "ms = butlast ms @ [(fd, snd (last ms))]" by (metis append_butlast_last_id prod.collapse)
  then show ?thesis using s(1) s'(1) ms(1) by metis
qed

theorem every_request_answered_witness:
  "\<exists>s0 s s' others reply. startup (boot (\<lambda>i. 1000 + int i) (\<lambda>_. 0) (\<lambda>_. 0) (\<lambda>_. True)
       (concat (map format_resp_command [[''RPUSH'', ''l'', ''x'']]))) = Inr s0 \<and>
     serve_requests [(7, [''SUBSCRIBE'', ''news'']), (6, [''HSET'', ''h'', ''f'', ''v''])] s0 = Inr s \<and>
     handle_command 5 [''PUBLISH'', ''news'', ''hi''] s = Inr s' \<and> out s' = out s @ others @ [(5, reply)]"
proof -
  let ?b = "[(7, [''SUBSCRIBE'', ''news'']), (6, [''HSET'', ''h'', ''f'', ''v''])]" and ?a = "[''PUBLISH'', ''news'', ''hi'']"
  obtain s0 where s0: "startup (boot (\<lambda>i. 1000 + int i) (\<lambda>_. 0) (\<lambda>_. 0) (\<lambda>_. True) (concat (map format_resp_command [[''RPUSH'', ''l'', ''x'']]))) = Inr s0"
    "db_inv s0 [(''l'', new_list [''x''] 0)]" using started_sample by blast
  have "kv_store s1 ''h'' = None" if "handle_command 7 [''SUBSCRIBE'', ''news''] s0 = Inr s1" for s1
  proof -
    have "s1 = pubsub_subscribe 7 [''SUBSCRIBE'', ''news''] (upd_client 7 id s0)"
      using that by (auto simp: handle_command_def upper_names store_command_def server_command_def command_subscribe_def Let_def split: if_splits)
    then have "strip s1 = strip s0" by (simp add: strip_subscribe)
    then have "db_inv s1 [(''l'', new_list [''x''] 0)]" using s0(2) strip_db(2) by blast
    then show ?thesis using db_find_None by fastforce
  qed
  then have "careful_run (?b @ (5, ?a) # []) s0" by (auto simp: careful_sample split: sum.split)
  moreover have "\<forall>args\<in>set [[''RPUSH'', ''l'', ''x'']]. modest args" "\<forall>(fd, args)\<in>set (?b @ (5, ?a) # []). modest args"
    by (simp_all add: modest_sample)
  ultimately show ?thesis using every_request_answered [OF s0(1) log_sample, of ?b 5 ?a "[]"] s0(1) by simp
qed

end
