(* ===== verification/Spec2Isabelle.thy ===== *)
theory Spec2Isabelle
  imports Event_Loop Durability Aof_Path Expiry Runs
begin

text \<open>
  \<^bold>\<open>DrutaDB in Isabelle/HOL\<close>

  DrutaDB is an in-memory key-value store and publish/subscribe server that speaks the RESP protocol, in
  a single thread around epoll (src/src). A client's bytes go through \<open>RespParser::parse_and_execute\<close>
  (parser_resp.cpp) into \<open>handle_command\<close> (commands.cpp), which runs a command on the store
  \<open>kv_store\<close> (store.hpp) of strings, lists, hashes (drutahash.cpp) and sets, keeps recency and a memory
  limit by a doubly linked list (lru.cpp), delivers messages to subscribers (pubsub.cpp) and logs writes
  to an append-only file (aof.cpp), which a new process replays (main.cpp).

  \<^bold>\<open>How the program is modelled.\<close> Each operation is one HOL function in the order of the source, over
  explicit state; a fallible one returns \<open>fault + state\<close>, where a fault is undefined behaviour or an
  exception nobody catches (use after free, wrong alternative of a variant, front of an empty container,
  index out of bounds, signed overflow, uncaught exception, no termination). \<open>size_t\<close> is a 64-bit word and
  wraps around, \<open>int\<close> conversions go through 32-bit words. Nodes live on an explicit heap with addresses;
  freeing one is removing it from the heap, so that a use after free is a value of the model. Strings
  stored in hashes carry their capacity, since the byte counters of the program are computed from it; the
  capacities are those of libstdc++ (15 bytes in place, exact copies, doubling on assignment).
  \<open>sizeof(DrutaNode)\<close> is 160, \<open>sizeof(std::string)\<close> 32, pointers 8 bytes. What the program reads from
  outside is arbitrary: the readings of both clocks, the outcome of opening, testing and renaming files,
  how much of its buffer the output stream writes by itself, the contents of the log at startup, and the
  answers of the system calls. Addresses of new nodes are never used again, which hides no fault: a
  dangling pointer is a fault whatever is at its address later.

  \<^bold>\<open>The theories\<close>, from the bottom:

  \<^item> \<open>Druta_Prelude\<close>: faults and their monad, machine integers, \<open>std::set\<close> as a sorted list (locale
    \<open>oset_ops\<close>, interpreted for strings and for descriptors).
  \<^item> \<open>Cpp_String\<close>: \<open>std::string\<close> with its capacity, \<open>std::to_string\<close>, \<open>std::stoi\<close>, \<open>std::stoll\<close>, \<open>toupper\<close>.
  \<^item> \<open>Druta_Hash\<close> (drutahash.hpp, drutahash.cpp): the vector/map hash and its byte counter; the locales
    \<open>erasable_map\<close> and \<open>field_map\<close> state its contract, and the loops of HSET, HDEL and DEL are proved
    once against them.
  \<^item> \<open>Druta_Store\<close> (store.hpp): values, nodes, their sizes, \<open>value_wf\<close> and \<open>value_ok\<close>.
  \<^item> \<open>Druta_Lru\<close> (lru.hpp, lru.cpp): the heap, the index and the linked list; the abstract store is a list
    of entries, least recently used first; \<open>lru_repr\<close> relates both, \<open>lru_inv\<close> adds the exact byte counter.
  \<^item> \<open>Resp\<close> (parser_resp.hpp, parser_resp.cpp, \<open>format_resp_command\<close> of aof.cpp): parser and printer,
    locale \<open>request_handler\<close> for what a handler must keep.
  \<^item> \<open>Server_State\<close>: the global variables as a chain of records; \<open>send\<close>, the clock.
  \<^item> \<open>Druta_Db\<close>: the invariants \<open>db_safe\<close> (structure) and \<open>db_inv\<close> (structure, exact accounting, limit), the
    form of a command's specification (\<open>command_spec\<close>, \<open>meets\<close>) and the locale \<open>db_reader\<close> shared by all
    reading commands, interpreted for both invariants.
  \<^item> \<open>Cmd_String\<close>, \<open>Cmd_List\<close>, \<open>Cmd_Hash\<close>, \<open>Cmd_Set\<close> (commands.cpp): the commands by type, each with
    an abstract specification, a refinement lemma (\<open>_ok\<close>) and a safety lemma without the
    accounting (\<open>_sound\<close>).
  \<^item> \<open>Pubsub\<close> (pubsub.hpp, pubsub.cpp, client.hpp), \<open>Aof\<close> (aof.cpp), \<open>Aof_Path\<close> (the choice of the log's
    path in aof.cpp), \<open>Dispatch\<close> (\<open>handle_command\<close> and the remaining commands of commands.cpp).
  \<^item> \<open>Server\<close>: the server as a step relation over events with its reachable states; \<open>Sessions\<close>: which
    connections have a parser, and that only their own bytes change it.
  \<^item> \<open>Event_Loop\<close> (main.cpp): \<open>main\<close> from the replay to the return, every system call with its error
    branches. The kernel answers each call from the history of the calls before it; which descriptors are
    open and which are watched, and whether each call used open ones (\<open>disciplined\<close>), is read off the history. \<open>posix\<close> states what the code relies on of the
    documented behaviour of \<open>socket\<close>, \<open>accept\<close>, \<open>epoll_wait\<close> and \<open>recv\<close>. The loop is a
    \<open>partial_function\<close>, whose value \<open>None\<close> is the server that runs for ever.
  \<^item> \<open>Workload\<close>: runs of requests of many clients; the locale \<open>value_invariant\<close> turns a property of values
    that each writing command keeps into one of all runs, interpreted for \<open>regular\<close> values here and for
    \<open>timeless\<close> ones in \<open>Map_Semantics\<close>. \<open>Streams\<close>: interleaved byte streams as runs of requests.
  \<^item> \<open>Expiry\<close>: that only strings carry expiry times, from the primitive operations up to the reachable states.
  \<^item> \<open>Runs\<close>: the requests that cannot fault (\<open>careful\<close>), and that runs of them return and are answered.
  \<^item> \<open>Recovery\<close>: the rewritten log and its replay. \<open>Map_Semantics\<close>: the server as a map, the most abstract
    of the three levels (code, entries in LRU order, map). \<open>Durability\<close>: crashes at any point of a run.

  \<^bold>\<open>What is proved.\<close> Every state reachable from the start, with any log and any bytes from any clients, is
  structurally sound and types and expiry times agree (C1, C33), and an event can only fail by one of four
  kinds of faults (C10). \<open>main\<close> is a refinement of this step system, keeps account of its descriptors and
  uses none that is closed, stops at the first call of its setup
  that fails and otherwise serves until \<open>epoll_wait\<close> fails (C2, C11, C16, C17, C18). From a state with exact
  counters every store command of \<open>handle_command\<close> does what its abstract specification says, its faults
  included (C3), and refuses keys of another type (C15). On a started server, along any run of modest requests
  that returns, the counters are exact and below the limit; runs of careful requests do return, evictions and
  rewrites of the log included (C6), and each of their requests is answered (C8). Without evictions and
  expiry the server is a map (C9). Client streams do not disturb each other however they are cut (C7). After a
  crash the log restores the map at some moment since it was last written out, also across rewrites
  (C4), and a rewritten log restores the store with its LRU order (C5). The components have their own laws
  (C12 to C14, C19 to C32, C34, C35). Where the program fails, the theorem says exactly when (C36 to C40). No
  fuel is used: the eviction loop is a \<open>while_option\<close> and the walk of the log rewrite a
  \<open>partial_function\<close>, both proved to end; the loop of \<open>main\<close> ends exactly as C16 says; all other loops are
  structural recursions or have a termination proof.

  \<^bold>\<open>What the bounds mean.\<close> \<open>args_ok\<close> bounds the arguments of a request as the parser does (below 2 GiB);
  \<open>modest\<close> adds that fields and values of HSET have at most 15 bytes and members of SADD less than 2 GiB
  together, since the counters of longer strings are not exact (C39); \<open>plain_request\<close> leaves out the server
  commands and the options of SET; \<open>request_bytes\<close> is an upper bound of what a request can add to the
  byte counter (twice the length of each argument and 5000 bytes), so that a sum of it below the limit excludes
  evictions; \<open>careful\<close> requests are below the limit by this measure, leave room for what they add to a value
  that is there, and have no negative count and no expiry time outside \<open>long long\<close>. The servers of C6 and C8
  start from \<open>boot\<close> with arbitrary clocks, stream and file system; \<open>empty_server\<close> is a state for examples
  only.

  \<^bold>\<open>What is not modelled.\<close> \<open>send\<close> is the log of its calls, so that partial sends and errors of the network do
  not show. Running out of memory, and files damaged other than by losing their end, are not modelled.
  Reading the size of an existing file does not fail. A rewrite of the log is one step: the new file replaces
  the old one by a rename, and until then the old one only receives what is pending, so that a crash inside it
  leaves the old log; errors in writing the temporary file are left out. The \<open>int\<close> counters of created and deleted fields,
  members and keys are natural numbers, and indices of LRANGE into lists of 2 to the 31 and more elements are
  not followed, since such requests and lists do not fit below the limits of the parser and the store. The
  console message of an eviction is left out. The expiry field of a hash is never read by the
  program and is kept as a plain number. The headers' include guards and declarations have no model of
  their own. The test scripts, the container files and the build are not part of the model.
\<close>

section \<open>From bytes to replies\<close>

section \<open>Properties\<close>

lemma run_set_get:
  fixes s :: "('z) server_scheme"
  assumes inv: "db_inv s c" and args: "args_ok [''SET'', k, v]" and cl: "\<not> is_subscriber (client_of fd s)" and fd: "fd \<noteq> -1"
    and fits: "cache_bytes c + entry_size (k, new_string v 0) \<le> LRU_MAX_MEMORY"
    and aof: "aof_open s" "sum_list (map (\<lambda>a. length a + 16) [''SET'', k, v]) + 80 < 2 ^ 31"
      "last_size_check s = Some t" "steady s (steady_ticks s) - t < 5 * 10 ^ 9"
  shows "\<exists>s'. run_commands (handle_command fd) [[''SET'', k, v], [''GET'', k]] s = Inr s' \<and>
    out s' = out s @ [(fd, ''+OK'' @ crlf), (fd, bulk v)] \<and> aof_log s' = aof_log s @ format_resp_command [''SET'', k, v]"
proof -
  let ?a = "[''SET'', k, v]" and ?g = "[''GET'', k]" and ?v = "new_string v 0"
  note w = set_spec_fits [OF db_keys [OF inv] fits]
  have get: "toupper ''GET'' = ''GET''" by code_simp
  have spec: "request_spec ?a (upd_client fd id s) c = Inr (set_spec k ?v c, ''+OK'' @ crlf, True)"
    using w(1) by (simp add: request_spec_def exec_spec_def set_command_spec_def write_spec_def)
  have "toupper (?a ! 0) \<in> set aof_commands" "accounting_exact (toupper (?a ! 0)) ?a c"
    by (simp_all add: aof_commands_def accounting_exact_def)
  from write_logged [OF inv args cl this spec fd aof] obtain s1 where
    s1: "handle_command fd ?a s = Inr s1" "db_inv s1 (set_spec k ?v c)" "out s1 = out s @ [(fd, ''+OK'' @ crlf)]"
      "aof_log s1 = aof_log s @ format_resp_command ?a" "clients_map s1 = clients_map (upd_client fd id s)" by blast
  have cl1: "\<not> is_subscriber (client_of fd s1)" using s1(5) cl by (simp add: client_of_def upd_client_def)
  have "request_spec ?g (upd_client fd id s1) (set_spec k ?v c) = Inr (cache_touch k (set_spec k ?v c), bulk v, False)"
    using w(2) by (simp add: request_spec_def get exec_spec_def get_spec_def typed_spec_def new_string_def expired_def)
  moreover have "args_ok ?g" "toupper (?g ! 0) \<notin> server_names" "accounting_exact (toupper (?g ! 0)) ?g (set_spec k ?v c)"
    using args by (simp_all add: args_ok_def get server_names_def accounting_exact_def)
  ultimately obtain s2 where s2: "handle_command fd ?g s1 = Inr s2" "out s2 = out (upd_client fd id s1) @ reply fd (bulk v)"
    "io_state.more s2 = io_state.more (upd_client fd id s1)"
    using handle_command_meets [OF s1(2) _ cl1, of ?g] by (auto simp: logged_def elim!: yieldsE)
  have "aof_log s2 = aof_log s1" using s2(3) by (cases s1; cases s2) (simp add: upd_client_def aof_log_def)
  then show ?thesis using s1(1,3,4) s2(1,2) fd by (auto simp: reply_def upd_client_def)
qed

text \<open>
  \<^bold>\<open>C19\<close>. End to end: a connected client that sends the bytes of a SET and a GET of the
  same key in one piece gets the two replies in order, the second one with the value as sent, and the log
  has grown by exactly the SET, as long as the value fits in memory and no rewrite of the log is due.
\<close>

theorem pipelined_set_get:
  fixes s :: "('z) server_scheme"
  assumes "db_inv s c" "args_ok [''SET'', k, v]" "clients_map s fd = Some new_client" "fd \<noteq> -1"
    "cache_bytes c + entry_size (k, new_string v 0) \<le> LRU_MAX_MEMORY" "aof_open s" "length k + length v < 2 ^ 30"
    "last_size_check s = Some t" "steady s (steady_ticks s) - t < 5 * 10 ^ 9"
  shows "\<exists>s'. handle_event (Receive fd (format_resp_command [''SET'', k, v] @ format_resp_command [''GET'', k])) s = Inr s' \<and>
    out s' = out s @ [(fd, ''+OK'' @ crlf), (fd, bulk v)] \<and> aof_log s' = aof_log s @ format_resp_command [''SET'', k, v]"
proof -
  let ?s = "upd_client fd id s"
  have frame: "db_inv ?s c" "aof_open ?s" "last_size_check ?s = Some t" "steady ?s (steady_ticks ?s) - t < 5 * 10 ^ 9"
    "out ?s = out s" "aof_log ?s = aof_log s" "\<not> is_subscriber (client_of fd ?s)" "parser (client_of fd ?s) = init_parser"
    using assms strip_db(2) [of ?s s c] by (simp_all add: upd_client_def aof_log_def client_of_def) (simp_all add: new_client_def)
  obtain s1 where s1: "run_commands (handle_command fd) [[''SET'', k, v], [''GET'', k]] ?s = Inr s1"
    "out s1 = out ?s @ [(fd, ''+OK'' @ crlf), (fd, bulk v)]" "aof_log s1 = aof_log ?s @ format_resp_command [''SET'', k, v]"
    using run_set_get [OF frame(1) assms(2) frame(7) assms(4,5) frame(2) _ frame(3,4)] assms(7) by auto
  have "\<forall>args\<in>set [[''SET'', k, v], [''GET'', k]]. args_ok args" using assms(2) by (simp add: args_ok_def)
  from parse_commands [OF this, of "handle_command fd" ?s] s1(1)
  have "parse_and_execute (handle_command fd) (format_resp_command [''SET'', k, v] @ format_resp_command [''GET'', k])
      (init_parser, ?s) = Inr (init_parser, s1)" by simp
  then have "handle_event (Receive fd (format_resp_command [''SET'', k, v] @ format_resp_command [''GET'', k])) s =
      Inr (upd_client fd (\<lambda>c. c\<lparr>parser := init_parser\<rparr>) s1)" using frame(8) by (simp add: Let_def)
  then show ?thesis using s1(2,3) frame(5,6) by (simp add: upd_client_def aof_log_def)
qed

theorem pipelined_set_get_witness:
  "\<exists>s'. handle_event (Receive 5 (format_resp_command [''SET'', ''k'', ''v''] @ format_resp_command [''GET'', ''k'']))
       (upd_client 5 (\<lambda>_. new_client) (empty_server (\<lambda>_. True))) = Inr s' \<and>
     out s' = [(5, ''+OK'' @ crlf), (5, bulk ''v'')]"
proof -
  let ?s = "upd_client 5 (\<lambda>_. new_client) (empty_server (\<lambda>_. True))"
  have "cache_bytes [] + entry_size (''k'', new_string ''v'' 0) \<le> LRU_MAX_MEMORY" by (rule small_fits) code_simp
  moreover have "db_inv ?s []" using db_inv_empty_server [of "\<lambda>_. True"] strip_db(2) [of ?s "empty_server (\<lambda>_. True)" "[]"] by simp
  moreover have "args_ok [''SET'', ''k'', ''v'']" by (simp add: args_ok_def)
  moreover have "clients_map ?s 5 = Some new_client" "aof_open ?s" "last_size_check ?s = Some 0"
    "steady ?s (steady_ticks ?s) - 0 < 5 * 10 ^ 9" "out ?s = []" by (simp_all add: upd_client_def empty_server_def)
  moreover have "length ''k'' + length ''v'' < 2 ^ 30" by simp
  ultimately show ?thesis using pipelined_set_get [of ?s "[]" "''k''" "''v''" 5 0] by auto
qed

end
